(* ===== verification/Prelude.thy ===== *)
theory Prelude
  imports Main "HOL-Library.Word"
begin

unbundle bit_operations_syntax

text \<open>
  What the components share: the names of the machine types, unsigned 32-bit arithmetic on
  \<open>nat\<close> with its wrap-around written out, bounds-checked block copies (\<open>memcpy\<close> and
  \<open>memmove\<close> of the code, \<open>None\<close> for an access outside the object), the pairing of a
  result with a new state, and the fact collections the component proofs use.
\<close>

section \<open>Machine types\<close>

type_synonym byte = "8 word"
type_synonym u16 = "16 word"
type_synonym u32 = "32 word"
type_synonym u64 = "64 word"

named_theorems mem_simps \<open>bounds-checked memory access\<close>
named_theorems arith32 \<open>unsigned 32-bit arithmetic on nat\<close>

declare Let_def [simp]

section \<open>Unsigned 32-bit arithmetic\<close>

text \<open>Sums, differences and increments of \<open>uint32_t\<close> values, read as \<open>nat\<close>.\<close>

definition two32 :: nat where
  "two32 = 4294967296"

definition add32 :: "nat \<Rightarrow> nat \<Rightarrow> nat" where
  "add32 a b = (a + b) mod two32"

definition sub32 :: "nat \<Rightarrow> nat \<Rightarrow> nat" where
  "sub32 a b = (a + (two32 - b)) mod two32"

definition mul32 :: "nat \<Rightarrow> nat \<Rightarrow> nat" where
  "mul32 a b = (a * b) mod two32"

lemma two32_pos [simp]: "0 < two32"
  by (simp add: two32_def)

lemma add32_small [arith32]: "a + b < two32 \<Longrightarrow> add32 a b = a + b"
  by (simp add: add32_def)

lemma add32_bound [simp]: "add32 a b < two32"
  by (simp add: add32_def)

lemma sub32_small [arith32]: "b \<le> a \<Longrightarrow> a < two32 \<Longrightarrow> sub32 a b = a - b"
proof -
  assume "b \<le> a" "a < two32"
  then have "a + (two32 - b) = (a - b) + two32" "a - b < two32" by simp_all
  then show ?thesis unfolding sub32_def by (metis mod_add_self2 mod_less)
qed

lemma sub32_wraps [arith32]: "a < b \<Longrightarrow> b < two32 \<Longrightarrow> sub32 a b = two32 - (b - a)"
  by (simp add: sub32_def)

lemma sub32_bound [simp]: "sub32 a b < two32"
  by (simp add: sub32_def)

lemma mul32_small [arith32]: "a * b < two32 \<Longrightarrow> mul32 a b = a * b"
  by (simp add: mul32_def)

section \<open>Bounds-checked memory\<close>

text \<open>
  An object of the heap is the list of its bytes. \<open>mem_read m off n\<close> is the block of \<open>n\<close>
  bytes at \<open>off\<close>, \<open>mem_write m off bs\<close> is the object after \<open>bs\<close> was copied to \<open>off\<close>. Both
  are \<open>None\<close> where the C access would leave the object.
\<close>

definition mem_read :: "'a list \<Rightarrow> nat \<Rightarrow> nat \<Rightarrow> 'a list option" where
  "mem_read m off n = (if off + n \<le> length m then Some (take n (drop off m)) else None)"

definition mem_write :: "'a list \<Rightarrow> nat \<Rightarrow> 'a list \<Rightarrow> 'a list option" where
  "mem_write m off bs =
     (if off + length bs \<le> length m
      then Some (take off m @ bs @ drop (off + length bs) m) else None)"

lemma mem_read_ok [mem_simps]: "off + n \<le> length m \<Longrightarrow> mem_read m off n = Some (take n (drop off m))"
  by (simp add: mem_read_def)

lemma mem_read_fail [mem_simps]: "length m < off + n \<Longrightarrow> mem_read m off n = None"
  by (simp add: mem_read_def)

lemma mem_write_ok [mem_simps]:
  "off + length bs \<le> length m \<Longrightarrow>
   mem_write m off bs = Some (take off m @ bs @ drop (off + length bs) m)"
  by (simp add: mem_write_def)

lemma mem_write_fail [mem_simps]: "length m < off + length bs \<Longrightarrow> mem_write m off bs = None"
  by (simp add: mem_write_def)

lemma mem_write_SomeD:
  "mem_write m off bs = Some m' \<Longrightarrow>
   off + length bs \<le> length m \<and> m' = take off m @ bs @ drop (off + length bs) m"
  by (auto simp: mem_write_def split: if_splits)

lemma mem_write_length: "mem_write m off bs = Some m' \<Longrightarrow> length m' = length m"
  by (auto simp: mem_write_def split: if_splits)

lemma mem_read_length: "mem_read m off n = Some bs \<Longrightarrow> length bs = n"
  by (auto simp: mem_read_def split: if_splits)

lemma mem_read_write:
  "mem_write m off bs = Some m' \<Longrightarrow> mem_read m' off (length bs) = Some bs"
  by (auto simp: mem_write_def mem_read_def split: if_splits)

lemma mem_write_prefix:
  "mem_write m off bs = Some m' \<Longrightarrow> take (off + length bs) m' = take off m @ bs"
  by (auto simp: mem_write_def split: if_splits)

lemma take_drop_split:
  "i \<le> j \<Longrightarrow> take (j - i) (drop i xs) @ drop j xs = drop i xs"
  by (metis append_take_drop_id drop_drop le_add_diff_inverse2)

section \<open>Lists of blocks of one size\<close>

lemma length_concat_blocks:
  "\<forall>b\<in>set bl. length b = n \<Longrightarrow> length (concat bl) = length bl * n"
  by (induction bl) auto

lemma drop_concat_blocks:
  "\<forall>b\<in>set bl. length b = n \<Longrightarrow> drop (k * n) (concat bl) = concat (drop k bl)"
proof (induction bl arbitrary: k)
  case (Cons b bl)
  then show ?case by (cases k) auto
qed simp

lemma take_concat_blocks:
  "\<forall>b\<in>set bl. length b = n \<Longrightarrow> take (k * n) (concat bl) = concat (take k bl)"
proof (induction bl arbitrary: k)
  case (Cons b bl)
  then show ?case by (cases k) auto
qed simp

lemma concat_update_block:
  assumes "\<forall>b\<in>set bl. length b = n" and "i < length bl"
  shows "concat (bl[i := x]) = take (i * n) (concat bl) @ x @ drop (Suc i * n) (concat bl)"
  using assms
  by (simp only: drop_concat_blocks take_concat_blocks upd_conv_take_nth_drop) simp

lemma block_of_concat:
  assumes "\<forall>b\<in>set bl. length b = n" and "i < length bl" and "c + m \<le> n"
  shows "take m (drop c (bl ! i)) = take m (drop (i * n + c) (concat bl))"
proof -
  have "drop (i * n + c) (concat bl) = drop c (concat (drop i bl))"
    using assms(1) by (simp add: drop_concat_blocks add.commute flip: drop_drop)
  also have "\<dots> = drop c (bl ! i @ concat (drop (Suc i) bl))"
    using assms(2) by (simp flip: Cons_nth_drop_Suc)
  finally show ?thesis using assms by simp
qed

text \<open>Bytes stored inside one block, seen on the whole.\<close>

lemma concat_write_block:
  assumes "\<forall>b\<in>set bl. length b = n" and "i < length bl" and "c + length xs \<le> n"
  shows "concat (bl[i := take c (bl ! i) @ xs @ drop (c + length xs) (bl ! i)]) =
         take (i * n + c) (concat bl) @ xs @ drop (i * n + c + length xs) (concat bl)"
proof -
  have d: "drop (i * n) (concat bl) = bl ! i @ drop (Suc i * n) (concat bl)"
    using assms by (simp only: drop_concat_blocks) (simp flip: Cons_nth_drop_Suc)
  have len: "length (bl ! i) = n" using assms by simp
  have "take (i * n + c) (concat bl) = take (i * n) (concat bl) @ take c (drop (i * n) (concat bl))"
    by (simp add: take_add)
  also have "take c (drop (i * n) (concat bl)) = take c (bl ! i)"
    unfolding d using len assms(3) by simp
  finally have t: "take (i * n + c) (concat bl) = take (i * n) (concat bl) @ take c (bl ! i)" .
  have "drop (i * n + c + length xs) (concat bl) = drop (c + length xs) (drop (i * n) (concat bl))"
    by (simp add: ac_simps)
  also have "\<dots> = drop (c + length xs) (bl ! i) @ drop (Suc i * n) (concat bl)"
    unfolding d using len assms(3) by simp
  finally show ?thesis
    unfolding concat_update_block [OF assms(1,2)] t by simp
qed

section \<open>Loops over a range\<close>

lemma fold_upt_invariant:
  assumes "a \<le> b" "P a s" "\<And>i s. a \<le> i \<Longrightarrow> i < b \<Longrightarrow> P i s \<Longrightarrow> P (Suc i) (f i s)"
  shows "P b (fold f [a..<b] s)"
  using assms
proof (induction b)
  case (Suc b)
  show ?case
  proof (cases "a = Suc b")
    case False
    then have "a \<le> b" using Suc.prems(1) by simp
    moreover from this have "P b (fold f [a..<b] s)"
      using Suc.IH Suc.prems(2,3) by (meson less_Suc_eq)
    ultimately show ?thesis using Suc.prems(3) by simp
  qed (use Suc.prems in auto)
qed simp

section \<open>Results paired with a state\<close>

text \<open>Whether a call that may be undefined (\<open>None\<close>) returned, and with what.\<close>

abbreviation returns :: "('r \<times> 's) option \<Rightarrow> 'r \<Rightarrow> 's \<Rightarrow> bool" where
  "returns c r s \<equiv> c = Some (r, s)"

lemma option_bind_Some_iff:
  "Option.bind x f = Some y \<longleftrightarrow> (\<exists>z. x = Some z \<and> f z = Some y)"
  by (cases x) auto


section \<open>Injective word operations\<close>

lemma mult_inj: "m * m' = (1 :: 'a::len word) \<Longrightarrow> x * m = y * m \<Longrightarrow> x = y"
  by (metis mult.assoc mult.right_neutral)

lemma xor_inj: "x XOR z = y XOR z \<Longrightarrow> x = (y :: 'a::len word)" "z XOR x = z XOR y \<Longrightarrow> x = (y :: 'a::len word)"
  by (metis xor.assoc xor.right_neutral xor_self_eq) (metis xor.assoc xor.left_neutral xor_self_eq)

lemma xorshift_inj:
  assumes "x XOR drop_bit k x = y XOR drop_bit k y" "0 < k"
  shows "x = (y :: 'a::len word)"
proof (rule bit_word_eqI)
  fix i
  show "bit x i = bit y i"
  proof (induction "LENGTH('a) - i" arbitrary: i rule: less_induct)
    case less
    show ?case
    proof (cases "i < LENGTH('a)")
      case True
      then have "bit x (k + i) = bit y (k + i)" using assms(2) by (intro less) auto
      moreover have "bit (x XOR drop_bit k x) i = bit (y XOR drop_bit k y) i" by (simp add: assms(1))
      ultimately show ?thesis by (auto simp: bit_simps)
    qed (auto dest: bit_imp_le_length)
  qed
qed

lemma xor_shift_left_inj:
  assumes "x XOR (push_bit k x AND m) = y XOR (push_bit k y AND m)" "0 < k"
  shows "x = (y :: 'a::len word)"
proof (rule bit_word_eqI)
  fix i assume "i < LENGTH('a)"
  then show "bit x i = bit y i"
  proof (induction i rule: less_induct)
    case (less i)
    have "bit (x XOR (push_bit k x AND m)) i = bit (y XOR (push_bit k y AND m)) i" by (simp add: assms(1))
    moreover have "k \<le> i \<Longrightarrow> bit x (i - k) = bit y (i - k)" using less assms(2) by auto
    ultimately show ?case using less.prems by (auto simp: bit_simps)
  qed
qed

end
