(* ===== verification/Endian.thy ===== *)
theory Endian
  imports Prelude
begin

unbundle bit_operations_syntax

text \<open>
  Byte order (\<open>os_types.h\<close>): the bytes of an integer in memory on a little-endian host, the
  byte-swapping macros \<open>bswap_16\<close>, \<open>bswap_32\<close>, \<open>bswap_64\<close> as the fallback of the header
  defines them, and the facts that swapping is an involution and turns one byte order into the
  other.
\<close>

section \<open>Integers in memory\<close>

definition le_bytes :: "nat \<Rightarrow> 'a::len word \<Rightarrow> byte list" where
  "le_bytes n w = map (\<lambda>i. ucast (drop_bit (8 * i) w)) [0..<n]"

fun le_word :: "byte list \<Rightarrow> 'a::len word" where
  "le_word [] = 0"
| "le_word (b # bs) = ucast b OR push_bit 8 (le_word bs)"

lemma length_le_bytes [simp]: "length (le_bytes n w) = n"
  by (simp add: le_bytes_def)

lemma nth_le_bytes: "i < n \<Longrightarrow> le_bytes n w ! i = ucast (drop_bit (8 * i) w)"
  by (simp add: le_bytes_def)

lemma bit_le_word:
  "bit (le_word bs :: 'a::len word) k \<longleftrightarrow>
     k < LENGTH('a) \<and> k < 8 * length bs \<and> bit (bs ! (k div 8)) (k mod 8)"
proof (induction bs arbitrary: k)
  case Nil
  then show ?case by simp
next
  case (Cons b bs)
  show ?case
  proof (cases "k < 8")
    case True
    then show ?thesis by (auto simp: bit_or_iff bit_unsigned_iff bit_push_bit_iff)
  next
    case False
    then have k: "k div 8 = Suc ((k - 8) div 8)" "k mod 8 = (k - 8) mod 8"
      by (simp_all add: le_div_geq le_mod_geq)
    have b: "\<not> bit b k" using False by (auto dest: bit_imp_le_length)
    show ?thesis
      using False Cons.IH [of "k - 8"] b
      by (auto simp: bit_or_iff bit_unsigned_iff bit_push_bit_iff k)
  qed
qed

lemma le_word_le_bytes:
  "LENGTH('a) = 8 * n \<Longrightarrow> le_word (le_bytes n w) = (w :: 'a::len word)"
proof (rule bit_word_eqI)
  fix k
  assume len: "LENGTH('a) = 8 * n" and k: "k < LENGTH('a)"
  then have "k div 8 < n" by auto
  then have "bit (le_bytes n w ! (k div 8)) (k mod 8) = bit w (8 * (k div 8) + k mod 8)"
    by (simp add: nth_le_bytes bit_unsigned_iff bit_drop_bit_eq)
  then show "bit (le_word (le_bytes n w) :: 'a word) k = bit w k"
    using len k by (simp add: bit_le_word)
qed

lemma le_bytes_le_word:
  assumes "LENGTH('a) = 8 * length bs"
  shows "le_bytes (length bs) (le_word bs :: 'a::len word) = bs"
proof (rule nth_equalityI)
  fix i
  assume "i < length (le_bytes (length bs) (le_word bs :: 'a word))"
  then have i: "i < length bs" by simp
  show "le_bytes (length bs) (le_word bs :: 'a word) ! i = bs ! i"
  proof (rule bit_word_eqI)
    fix k :: nat
    assume "k < LENGTH(8)"
    then have "k < 8" by simp
    then show "bit (le_bytes (length bs) (le_word bs :: 'a word) ! i) k = bit (bs ! i) k"
      using i assms by (simp add: nth_le_bytes bit_unsigned_iff bit_drop_bit_eq bit_le_word)
  qed
qed simp

section \<open>Byte swapping\<close>

definition bswap_16 :: "u16 \<Rightarrow> u16" where
  "bswap_16 x = (drop_bit 8 x AND 0xff) OR push_bit 8 (x AND 0xff)"

definition bswap_32 :: "u32 \<Rightarrow> u32" where
  "bswap_32 x =
     drop_bit 24 (x AND 0xff000000) OR drop_bit 8 (x AND 0x00ff0000) OR
     push_bit 8 (x AND 0x0000ff00) OR push_bit 24 (x AND 0x000000ff)"

definition bswap_64 :: "u64 \<Rightarrow> u64" where
  "bswap_64 x =
     drop_bit 56 (x AND 0xff00000000000000)
     OR drop_bit 40 (x AND 0x00ff000000000000)
     OR drop_bit 24 (x AND 0x0000ff0000000000)
     OR drop_bit 8 (x AND 0x000000ff00000000)
     OR push_bit 8 (x AND 0x00000000ff000000)
     OR push_bit 24 (x AND 0x0000000000ff0000)
     OR push_bit 40 (x AND 0x000000000000ff00)
     OR push_bit 56 (x AND 0x00000000000000ff)"

text \<open>Each byte mask is a shifted run of eight ones; the bits of a swapped word follow.\<close>

lemma mask_bytes_16:
  "(0xff :: u16) = mask 8"
  by (simp add: mask_eq_exp_minus_1)

lemma mask_bytes_32:
  "(0xff :: u32) = mask 8" "(0xff00 :: u32) = push_bit 8 (mask 8)"
  "(0xff0000 :: u32) = push_bit 16 (mask 8)" "(0xff000000 :: u32) = push_bit 24 (mask 8)"
  by (simp_all add: mask_eq_exp_minus_1 push_bit_eq_mult)

lemma mask_bytes_64:
  "(0xff :: u64) = mask 8" "(0xff00 :: u64) = push_bit 8 (mask 8)"
  "(0xff0000 :: u64) = push_bit 16 (mask 8)" "(0xff000000 :: u64) = push_bit 24 (mask 8)"
  "(0xff00000000 :: u64) = push_bit 32 (mask 8)"
  "(0xff0000000000 :: u64) = push_bit 40 (mask 8)"
  "(0xff000000000000 :: u64) = push_bit 48 (mask 8)"
  "(0xff00000000000000 :: u64) = push_bit 56 (mask 8)"
  by (simp_all add: mask_eq_exp_minus_1 push_bit_eq_mult)

lemma bit_bswap_16:
  "bit (bswap_16 x) n \<longleftrightarrow> n < 16 \<and> bit x (if n < 8 then n + 8 else n - 8)"
  unfolding bswap_16_def mask_bytes_16
  by (auto simp: bit_simps ac_simps dest: bit_imp_le_length)

lemma byte_lane:
  "n < 8 * c \<Longrightarrow> \<exists>k m. m < 8 \<and> k < c \<and> n = 8 * k + (m :: nat)"
  by (rule exI [of _ "n div 8"], rule exI [of _ "n mod 8"]) auto

lemma bit_bswap_32:
  "bit (bswap_32 x) n \<longleftrightarrow>
     n < 32 \<and> bit x (if n < 8 then n + 24 else if n < 16 then n + 8
                      else if n < 24 then n - 8 else n - 24)"
proof (cases "n < 32")
  case True
  then obtain k m where m: "m < 8" and n: "n = 8 * k + m" and "k < 4"
    using byte_lane [of n 4] by auto
  then have "k = 0 \<or> k = 1 \<or> k = 2 \<or> k = 3" by arith
  then consider "n = m" | "n = 8 + m" | "n = 16 + m" | "n = 24 + m" using n by auto
  then show ?thesis
    using m unfolding bswap_32_def mask_bytes_32
    by cases (simp_all add: bit_simps add.commute)
qed (auto dest: bit_imp_le_length)

lemma bit_bswap_64:
  "bit (bswap_64 x) n \<longleftrightarrow>
     n < 64 \<and> bit x (if n < 8 then n + 56 else if n < 16 then n + 40
                      else if n < 24 then n + 24 else if n < 32 then n + 8
                      else if n < 40 then n - 8 else if n < 48 then n - 24
                      else if n < 56 then n - 40 else n - 56)"
proof (cases "n < 64")
  case True
  then obtain k m where m: "m < 8" and n: "n = 8 * k + m" and "k < 8"
    using byte_lane [of n 8] by auto
  then have "k = 0 \<or> k = 1 \<or> k = 2 \<or> k = 3 \<or> k = 4 \<or> k = 5 \<or> k = 6 \<or> k = 7" by arith
  then consider "n = m" | "n = 8 + m" | "n = 16 + m" | "n = 24 + m" | "n = 32 + m"
    | "n = 40 + m" | "n = 48 + m" | "n = 56 + m" using n by auto
  then show ?thesis
    using m unfolding bswap_64_def mask_bytes_64
    by cases (simp_all add: bit_simps add.commute)
qed (auto dest: bit_imp_le_length)

lemma bswap_16_involution [simp]: "bswap_16 (bswap_16 x) = x"
  by (rule bit_word_eqI) (auto simp: bit_bswap_16)

lemma bswap_32_involution [simp]: "bswap_32 (bswap_32 x) = x"
  by (rule bit_word_eqI) (auto simp: bit_bswap_32)

lemma bswap_64_involution [simp]: "bswap_64 (bswap_64 x) = x"
  by (rule bit_word_eqI) (auto simp: bit_bswap_64)

end
