(* ===== verification/Channel.thy ===== *)
theory Channel
  imports Endian
begin

text \<open>
  What the codecs of the library rely on when they talk to a byte buffer: a buffer is either
  being written (its content grows at the end) or being read (its unread part shrinks at the
  front), \<open>flip\<close> turns a written buffer into one to read, \<open>compact\<close> turns the unread rest
  into the content of a buffer to write. The contiguous \<open>sax::buffer\<close> and the chained
  \<open>sax::linked_buffer\<close> both provide this contract; the Thrift codec is its client.
\<close>

datatype channel = Writing "byte list" | Reading "byte list"

text \<open>Several blocks in a row, stopping at the first call that is refused.\<close>

fun put_each :: "('s \<Rightarrow> byte list \<Rightarrow> (bool \<times> 's) option) \<Rightarrow> 's \<Rightarrow> byte list list
    \<Rightarrow> (bool \<times> 's) option" where
  "put_each put s [] = Some (True, s)"
| "put_each put s (bs # bss) =
     Option.bind (put s bs) (\<lambda>(ok, s'). if ok then put_each put s' bss else Some (False, s'))"

fun get_each :: "('s \<Rightarrow> nat \<Rightarrow> (byte list option \<times> 's) option) \<Rightarrow> 's \<Rightarrow> nat list
    \<Rightarrow> (byte list list option \<times> 's) option" where
  "get_each get s [] = Some (Some [], s)"
| "get_each get s (n # ns) =
     Option.bind (get s n) (\<lambda>(r, s').
       case r of None \<Rightarrow> Some (None, s')
       | Some bs \<Rightarrow> map_option (\<lambda>(rs, s''). (map_option (Cons bs) rs, s'')) (get_each get s' ns))"

locale byte_channel =
  fixes inv :: "'s \<Rightarrow> bool"
    and chan :: "'s \<Rightarrow> channel"
    and room :: "'s \<Rightarrow> nat \<Rightarrow> bool"
    and put :: "'s \<Rightarrow> byte list \<Rightarrow> (bool \<times> 's) option"
    and get :: "'s \<Rightarrow> nat \<Rightarrow> (byte list option \<times> 's) option"
    and flip :: "'s \<Rightarrow> bool \<times> 's"
  assumes put_append: "inv s \<Longrightarrow> chan s = Writing xs \<Longrightarrow> room s (length bs + n) \<Longrightarrow>
      \<exists>s'. put s bs = Some (True, s') \<and> inv s' \<and> chan s' = Writing (xs @ bs) \<and> room s' n"
    and put_refused: "inv s \<Longrightarrow> chan s = Reading xs \<Longrightarrow> put s bs = Some (False, s)"
    and get_take: "inv s \<Longrightarrow> chan s = Reading xs \<Longrightarrow> n \<le> length xs \<Longrightarrow>
      \<exists>s'. get s n = Some (Some (take n xs), s') \<and> inv s' \<and> chan s' = Reading (drop n xs)"
    and get_short: "inv s \<Longrightarrow> chan s = Reading xs \<Longrightarrow> length xs < n \<Longrightarrow> n < two32 \<Longrightarrow>
      get s n = Some (None, s)"
    and get_refused: "inv s \<Longrightarrow> chan s = Writing xs \<Longrightarrow> get s n = Some (None, s)"
    and flip_read: "inv s \<Longrightarrow> chan s = Writing xs \<Longrightarrow>
      \<exists>s'. flip s = (True, s') \<and> inv s' \<and> chan s' = Reading xs"
begin

lemma get_prefix:
  "inv s \<Longrightarrow> chan s = Reading (xs @ ys) \<Longrightarrow>
   \<exists>s'. get s (length xs) = Some (Some xs, s') \<and> inv s' \<and> chan s' = Reading ys"
  using get_take [of s "xs @ ys" "length xs"] by simp

lemma put_last:
  "inv s \<Longrightarrow> chan s = Writing xs \<Longrightarrow> room s (length bs) \<Longrightarrow>
   \<exists>s'. put s bs = Some (True, s') \<and> inv s' \<and> chan s' = Writing (xs @ bs)"
  using put_append [of s xs bs 0] by auto

lemma put_each_appends:
  "inv s \<Longrightarrow> chan s = Writing xs \<Longrightarrow> room s (length (concat bss)) \<Longrightarrow>
   \<exists>s'. put_each put s bss = Some (True, s') \<and> inv s' \<and> chan s' = Writing (xs @ concat bss)"
proof (induction bss arbitrary: s xs)
  case (Cons bs bss)
  from Cons.prems(3) have "room s (length bs + length (concat bss))" by simp
  from put_append [OF Cons.prems(1,2) this] obtain s1 where s1: "put s bs = Some (True, s1)"
    "inv s1" "chan s1 = Writing (xs @ bs)" "room s1 (length (concat bss))" by blast
  with Cons.IH [OF s1(2-4)] show ?case by auto
qed simp

lemma get_each_takes:
  "inv s \<Longrightarrow> chan s = Reading (concat bss @ ys) \<Longrightarrow>
   \<exists>s'. get_each get s (map length bss) = Some (Some bss, s') \<and> inv s' \<and> chan s' = Reading ys"
proof (induction bss arbitrary: s)
  case (Cons bs bss)
  then obtain s1 where "get s (length bs) = Some (Some bs, s1)" "inv s1"
    "chan s1 = Reading (concat bss @ ys)"
    using get_prefix [of s bs "concat bss @ ys"] by auto
  with Cons.IH [of s1] show ?case by auto
qed simp

text \<open>What was put into an empty channel is what a reader gets after \<open>flip\<close>.\<close>

lemma put_each_flip_get_each:
  assumes "inv s" "chan s = Writing []" "room s (length (concat bss))"
  shows "\<exists>s1 s2 s3. put_each put s bss = Some (True, s1) \<and> flip s1 = (True, s2) \<and>
           get_each get s2 (map length bss) = Some (Some bss, s3) \<and> chan s3 = Reading []"
proof -
  obtain s1 where 1: "put_each put s bss = Some (True, s1)" "inv s1" "chan s1 = Writing (concat bss)"
    using put_each_appends [OF assms] by auto
  obtain s2 where 2: "flip s1 = (True, s2)" "inv s2" "chan s2 = Reading (concat bss)"
    using flip_read [OF 1(2,3)] by auto
  with get_each_takes [of s2 bss "[]"] 1 show ?thesis by auto
qed

end

text \<open>A channel whose reader can also drop bytes unseen.\<close>

locale skip_channel = byte_channel +
  fixes skip :: "'s \<Rightarrow> nat \<Rightarrow> (bool \<times> 's) option"
  assumes skip_drop: "inv s \<Longrightarrow> chan s = Reading xs \<Longrightarrow> n \<le> length xs \<Longrightarrow>
      \<exists>s'. skip s n = Some (True, s') \<and> inv s' \<and> chan s' = Reading (drop n xs)"
    and skip_short: "inv s \<Longrightarrow> chan s = Reading xs \<Longrightarrow> length xs < n \<Longrightarrow> n < two32 \<Longrightarrow>
      skip s n = Some (False, s)"
begin

lemma skip_prefix:
  "inv s \<Longrightarrow> chan s = Reading (xs @ ys) \<Longrightarrow>
   \<exists>s'. skip s (length xs) = Some (True, s') \<and> inv s' \<and> chan s' = Reading ys"
  using skip_drop [of s "xs @ ys" "length xs"] by simp

end

section \<open>Fixed-width integers over a channel\<close>

text \<open>
  The integer accessors of both buffer classes are the same code over their byte accessor:
  the bytes of the host's representation, swapped first when the wire order is big-endian.
  On the little-endian host modelled here \<open>bigendian ^ !IS_LITTLE_ENDIAN\<close> is \<open>bigendian\<close>.
\<close>

definition num_bytes_16 :: "bool \<Rightarrow> u16 \<Rightarrow> byte list" where
  "num_bytes_16 bigendian num = le_bytes 2 (if bigendian then bswap_16 num else num)"

definition num_bytes_32 :: "bool \<Rightarrow> u32 \<Rightarrow> byte list" where
  "num_bytes_32 bigendian num = le_bytes 4 (if bigendian then bswap_32 num else num)"

definition num_bytes_64 :: "bool \<Rightarrow> u64 \<Rightarrow> byte list" where
  "num_bytes_64 bigendian num = le_bytes 8 (if bigendian then bswap_64 num else num)"

definition bytes_num_16 :: "bool \<Rightarrow> byte list \<Rightarrow> u16" where
  "bytes_num_16 bigendian bs =
     (if bigendian then bswap_16 (le_word bs) else le_word bs)"

definition bytes_num_32 :: "bool \<Rightarrow> byte list \<Rightarrow> u32" where
  "bytes_num_32 bigendian bs =
     (if bigendian then bswap_32 (le_word bs) else le_word bs)"

definition bytes_num_64 :: "bool \<Rightarrow> byte list \<Rightarrow> u64" where
  "bytes_num_64 bigendian bs =
     (if bigendian then bswap_64 (le_word bs) else le_word bs)"

lemma num_bytes_length [simp]:
  "length (num_bytes_16 e x) = 2" "length (num_bytes_32 e y) = 4" "length (num_bytes_64 e z) = 8"
  by (simp_all add: num_bytes_16_def num_bytes_32_def num_bytes_64_def)

lemma bytes_num_of_num_bytes [simp]:
  "bytes_num_16 e (num_bytes_16 e x) = x" "bytes_num_32 e (num_bytes_32 e y) = y"
  "bytes_num_64 e (num_bytes_64 e z) = z"
  by (simp_all add: num_bytes_16_def num_bytes_32_def num_bytes_64_def bytes_num_16_def
      bytes_num_32_def bytes_num_64_def le_word_le_bytes)

text \<open>Big-endian means the most significant byte first: the little-endian bytes reversed.\<close>

lemma big_endian_32: "num_bytes_32 True x = rev (num_bytes_32 False x)"
proof -
  have "le_bytes 4 (bswap_32 x) ! i = rev (le_bytes 4 x) ! i" if "i < 4" for i
  proof (rule bit_word_eqI)
    fix k :: nat
    assume "k < LENGTH(8)"
    moreover have "i = 0 \<or> i = 1 \<or> i = 2 \<or> i = 3" using that by arith
    ultimately show "bit (le_bytes 4 (bswap_32 x) ! i) k = bit (rev (le_bytes 4 x) ! i) k"
      by (elim disjE)
        (simp_all add: nth_le_bytes rev_nth bit_unsigned_iff bit_drop_bit_eq bit_bswap_32 add.commute)
  qed
  then show ?thesis by (simp add: num_bytes_32_def list_eq_iff_nth_eq)
qed

end
