(* ===== verification/Buffer.thy ===== *)
theory Buffer
  imports Channel
begin

unbundle bit_operations_syntax

text \<open>
  The contiguous byte buffer \<open>sax::buffer\<close> (\<open>net/buffer.h\<close>). The record has the class's
  fields; \<open>b_buf\<close> is the object \<open>_buf\<close> points to. Every \<open>uint32_t\<close> sum, difference and product
  wraps as in the code. The page allocator \<open>g_shm_alloc_pages\<close> is a parameter: the new object
  it returns for a number of pages, or \<open>None\<close> for \<open>NULL\<close>; a run of calls gives every call an
  allocator of its own, so that a request which failed once may succeed later. An operation is
  \<open>None\<close> where the code would touch memory outside the object or fail an \<open>assert\<close>.
\<close>

section \<open>State\<close>

record buffer =
  b_current :: nat
  b_mark :: nat
  b_limit :: nat
  b_capacity :: nat
  b_block_size :: nat
  b_block_size_mask :: nat
  b_buf :: "byte list"

definition INVALID_VALUE :: nat where
  "INVALID_VALUE = 4294967295"

type_synonym pages_alloc = "nat \<Rightarrow> byte list option"

section \<open>Operations\<close>

definition buf_reserve :: "pages_alloc \<Rightarrow> buffer \<Rightarrow> nat \<Rightarrow> (bool \<times> buffer) option" where
  "buf_reserve alloc b sz =
     (if b_capacity b < sz
      then (let pages = add32 (sz div b_block_size b)
                          (if sz AND b_block_size_mask b > 0 then 1 else 0)
            in case alloc pages of
                 None \<Rightarrow> Some (False, b)
               | Some tmp \<Rightarrow>
                   (case mem_read (b_buf b) 0 (b_current b) of
                      None \<Rightarrow> None
                    | Some old \<Rightarrow>
                        map_option (\<lambda>neu. (True, b\<lparr>b_buf := neu,
                                                  b_capacity := mul32 pages (b_block_size b)\<rparr>))
                          (mem_write tmp 0 old)))
      else Some (True, b))"

text \<open>The constructor: \<open>Some None\<close> is the \<open>std::bad_alloc\<close> it throws.\<close>

definition buf_new :: "pages_alloc \<Rightarrow> nat \<Rightarrow> buffer option option" where
  "buf_new alloc unit =
     (if unit > 0 \<and> unit AND (unit - 1) = 0
      then map_option (\<lambda>(ok, b). if ok then Some b else None)
             (buf_reserve alloc
                \<lparr>b_current = 0, b_mark = INVALID_VALUE, b_limit = INVALID_VALUE, b_capacity = 0,
                 b_block_size = unit, b_block_size_mask = unit - 1, b_buf = []\<rparr> unit)
      else None)"

definition buf_set_mark :: "buffer \<Rightarrow> buffer" where
  "buf_set_mark b = b\<lparr>b_mark := b_current b\<rparr>"

definition buf_set_limit :: "buffer \<Rightarrow> nat \<Rightarrow> (nat \<times> buffer) option" where
  "buf_set_limit b new_limit =
     (if b_limit b = INVALID_VALUE then Some (INVALID_VALUE, b)
      else if new_limit \<le> b_capacity b then Some (b_limit b, b\<lparr>b_limit := new_limit\<rparr>)
      else None)"

definition buf_skip :: "pages_alloc \<Rightarrow> buffer \<Rightarrow> nat \<Rightarrow> (bool \<times> buffer) option" where
  "buf_skip alloc b len =
     (let advance = (\<lambda>b. (True, b\<lparr>b_mark := b_current b, b_current := add32 (b_current b) len\<rparr>))
      in if b_limit b = INVALID_VALUE
         then map_option (\<lambda>(ok, b'). if ok then advance b' else (False, b'))
                (buf_reserve alloc b (add32 (b_current b) len))
         else if sub32 (b_limit b) (b_current b) < len then Some (False, b)
         else Some (advance b))"

definition buf_reset :: "buffer \<Rightarrow> bool \<times> buffer" where
  "buf_reset b =
     (if b_mark b = INVALID_VALUE then (False, b)
      else (True, b\<lparr>b_current := b_mark b, b_mark := b_current b\<rparr>))"

definition buf_clear :: "buffer \<Rightarrow> buffer" where
  "buf_clear b = b\<lparr>b_current := 0, b_mark := INVALID_VALUE, b_limit := INVALID_VALUE\<rparr>"

definition buf_rewind :: "buffer \<Rightarrow> buffer" where
  "buf_rewind b = b\<lparr>b_mark := b_current b, b_current := 0\<rparr>"

definition buf_flip :: "buffer \<Rightarrow> bool \<times> buffer" where
  "buf_flip b =
     (if b_limit b \<noteq> INVALID_VALUE then (False, b)
      else (True, b\<lparr>b_mark := INVALID_VALUE, b_limit := b_current b, b_current := 0\<rparr>))"

definition buf_compact :: "buffer \<Rightarrow> (bool \<times> buffer) option" where
  "buf_compact b =
     (if b_limit b = INVALID_VALUE then Some (False, b)
      else (let n = sub32 (b_limit b) (b_current b);
                moved = (if b_limit b \<noteq> b_current b
                         then Option.bind (mem_read (b_buf b) (b_current b) n)
                                (mem_write (b_buf b) 0)
                         else Some (b_buf b))
            in map_option (\<lambda>m. (True, b\<lparr>b_buf := m, b_current := n, b_mark := INVALID_VALUE,
                                        b_limit := INVALID_VALUE\<rparr>)) moved))"

definition buf_position :: "buffer \<Rightarrow> nat" where
  "buf_position b = b_current b"

definition buf_remaining :: "buffer \<Rightarrow> nat" where
  "buf_remaining b =
     (if b_limit b = INVALID_VALUE then INVALID_VALUE else sub32 (b_limit b) (b_current b))"

definition buf_data_length :: "buffer \<Rightarrow> nat" where
  "buf_data_length b = (if b_limit b \<noteq> INVALID_VALUE then INVALID_VALUE else b_current b)"

text \<open>\<open>get(buf, length)\<close>: the bytes read, or \<open>None\<close> in the result where it returns false.\<close>

definition buf_get :: "buffer \<Rightarrow> nat \<Rightarrow> (byte list option \<times> buffer) option" where
  "buf_get b len =
     (if b_limit b = INVALID_VALUE \<or> sub32 (b_limit b) (b_current b) < len
      then Some (None, b)
      else map_option (\<lambda>bs. (Some bs, b\<lparr>b_current := add32 (b_current b) len\<rparr>))
             (mem_read (b_buf b) (b_current b) len))"

definition buf_get_u8 :: "buffer \<Rightarrow> (byte option \<times> buffer) option" where
  "buf_get_u8 b = map_option (\<lambda>(r, b'). (map_option le_word r, b')) (buf_get b 1)"

definition buf_get_u16 :: "buffer \<Rightarrow> bool \<Rightarrow> (u16 option \<times> buffer) option" where
  "buf_get_u16 b e = map_option (\<lambda>(r, b'). (map_option (bytes_num_16 e) r, b')) (buf_get b 2)"

definition buf_get_u32 :: "buffer \<Rightarrow> bool \<Rightarrow> (u32 option \<times> buffer) option" where
  "buf_get_u32 b e = map_option (\<lambda>(r, b'). (map_option (bytes_num_32 e) r, b')) (buf_get b 4)"

definition buf_get_u64 :: "buffer \<Rightarrow> bool \<Rightarrow> (u64 option \<times> buffer) option" where
  "buf_get_u64 b e = map_option (\<lambda>(r, b'). (map_option (bytes_num_64 e) r, b')) (buf_get b 8)"

text \<open>\<open>put(buf, length)\<close>; the source block holds \<open>length\<close> bytes.\<close>

definition buf_put :: "pages_alloc \<Rightarrow> buffer \<Rightarrow> byte list \<Rightarrow> (bool \<times> buffer) option" where
  "buf_put alloc b bs =
     (if b_limit b \<noteq> INVALID_VALUE then Some (False, b)
      else Option.bind (buf_reserve alloc b (add32 (b_current b) (length bs)))
             (\<lambda>(ok, b'). if \<not> ok then Some (False, b')
                else map_option (\<lambda>m. (True, b'\<lparr>b_buf := m,
                                             b_current := add32 (b_current b') (length bs)\<rparr>))
                       (mem_write (b_buf b') (b_current b') bs)))"

definition buf_put_u8 :: "pages_alloc \<Rightarrow> buffer \<Rightarrow> byte \<Rightarrow> (bool \<times> buffer) option" where
  "buf_put_u8 alloc b num = buf_put alloc b (le_bytes 1 num)"

definition buf_put_u16 :: "pages_alloc \<Rightarrow> buffer \<Rightarrow> u16 \<Rightarrow> bool \<Rightarrow> (bool \<times> buffer) option" where
  "buf_put_u16 alloc b num e = buf_put alloc b (num_bytes_16 e num)"

definition buf_put_u32 :: "pages_alloc \<Rightarrow> buffer \<Rightarrow> u32 \<Rightarrow> bool \<Rightarrow> (bool \<times> buffer) option" where
  "buf_put_u32 alloc b num e = buf_put alloc b (num_bytes_32 e num)"

definition buf_put_u64 :: "pages_alloc \<Rightarrow> buffer \<Rightarrow> u64 \<Rightarrow> bool \<Rightarrow> (bool \<times> buffer) option" where
  "buf_put_u64 alloc b num e = buf_put alloc b (num_bytes_64 e num)"

text \<open>\<open>peek\<close> restores the position only after a successful \<open>get\<close>.\<close>

definition buf_peek :: "(buffer \<Rightarrow> ('a option \<times> buffer) option) \<Rightarrow> buffer
    \<Rightarrow> ('a option \<times> buffer) option" where
  "buf_peek getter b =
     map_option (\<lambda>(r, b'). case r of None \<Rightarrow> (None, b')
                 | Some x \<Rightarrow> (Some x, b'\<lparr>b_current := b_current b\<rparr>)) (getter b)"

definition buf_peek_u8 :: "buffer \<Rightarrow> (byte option \<times> buffer) option" where
  "buf_peek_u8 = buf_peek buf_get_u8"

definition buf_peek_u16 :: "buffer \<Rightarrow> bool \<Rightarrow> (u16 option \<times> buffer) option" where
  "buf_peek_u16 b e = buf_peek (\<lambda>b. buf_get_u16 b e) b"

definition buf_peek_u32 :: "buffer \<Rightarrow> bool \<Rightarrow> (u32 option \<times> buffer) option" where
  "buf_peek_u32 b e = buf_peek (\<lambda>b. buf_get_u32 b e) b"

definition buf_peek_u64 :: "buffer \<Rightarrow> bool \<Rightarrow> (u64 option \<times> buffer) option" where
  "buf_peek_u64 b e = buf_peek (\<lambda>b. buf_get_u64 b e) b"

text \<open>
  Direct access hands out the address \<open>_buf + _current\<close>; here it is the offset into the current
  object, \<open>None\<close> for \<open>NULL\<close>.
\<close>

definition buf_direct_put :: "pages_alloc \<Rightarrow> buffer \<Rightarrow> nat \<Rightarrow> (nat option \<times> buffer) option" where
  "buf_direct_put alloc b prepare =
     (if b_limit b \<noteq> INVALID_VALUE then Some (None, b)
      else map_option (\<lambda>(ok, b'). (if ok then Some (b_current b') else None, b'))
             (buf_reserve alloc b (add32 (b_current b) prepare)))"

definition buf_commit_put :: "buffer \<Rightarrow> nat \<Rightarrow> nat \<Rightarrow> bool \<times> buffer" where
  "buf_commit_put b direct len =
     (if b_limit b \<noteq> INVALID_VALUE \<or> b_current b \<noteq> direct
         \<or> b_capacity b < add32 (b_current b) len
      then (False, b)
      else (True, b\<lparr>b_current := add32 (b_current b) len\<rparr>))"

definition buf_direct_get :: "buffer \<Rightarrow> nat option" where
  "buf_direct_get b = (if b_limit b = INVALID_VALUE then None else Some (b_current b))"

definition buf_commit_get :: "buffer \<Rightarrow> nat \<Rightarrow> nat \<Rightarrow> bool \<times> buffer" where
  "buf_commit_get b direct len =
     (if b_limit b = INVALID_VALUE \<or> b_current b \<noteq> direct
         \<or> b_limit b < add32 (b_current b) len
      then (False, b)
      else (True, b\<lparr>b_current := add32 (b_current b) len\<rparr>))"

section \<open>Invariant\<close>

text \<open>
  The capacity is the length of the object and stays clear of the marker value; the position,
  the mark and the limit stay inside; while reading, nothing lies behind the limit.
\<close>

definition buf_inv :: "buffer \<Rightarrow> bool" where
  "buf_inv b \<longleftrightarrow>
     (\<exists>k. b_block_size b = 2 ^ k) \<and> b_block_size_mask b = b_block_size b - 1 \<and>
     b_capacity b = length (b_buf b) \<and> b_capacity b < INVALID_VALUE \<and>
     b_current b \<le> b_capacity b \<and>
     (b_limit b \<noteq> INVALID_VALUE \<longrightarrow> b_current b \<le> b_limit b \<and> b_limit b \<le> b_capacity b) \<and>
     (b_mark b \<noteq> INVALID_VALUE \<longrightarrow>
        b_mark b \<le> (if b_limit b = INVALID_VALUE then b_capacity b else b_limit b))"

definition buf_chan :: "buffer \<Rightarrow> channel" where
  "buf_chan b =
     (if b_limit b = INVALID_VALUE then Writing (take (b_current b) (b_buf b))
      else Reading (take (b_limit b - b_current b) (drop (b_current b) (b_buf b))))"

text \<open>The allocator returns whole objects of the size asked for (\<open>valloc(unit * pages)\<close>).\<close>

definition alloc_ok :: "pages_alloc \<Rightarrow> nat \<Rightarrow> bool" where
  "alloc_ok alloc unit \<longleftrightarrow> (\<forall>p m. alloc p = Some m \<longrightarrow> length m = mul32 p unit)"

text \<open>Another \<open>n\<close> bytes do not bring the position within a block of \<open>2 ^ 32\<close>.\<close>

definition buf_fits :: "buffer \<Rightarrow> nat \<Rightarrow> bool" where
  "buf_fits b n \<longleftrightarrow> b_current b + n + b_block_size b \<le> INVALID_VALUE"

lemma INVALID_less_two32: "INVALID_VALUE < two32"
  by (simp add: INVALID_VALUE_def two32_def)

lemma buf_inv_less:
  assumes "buf_inv b"
  shows "b_current b < two32" "b_capacity b < two32"
    and "b_limit b \<noteq> INVALID_VALUE \<Longrightarrow> b_limit b < two32"
  using assms INVALID_less_two32 by (auto simp: buf_inv_def)

lemma page_count:
  fixes sz :: nat
  assumes "bs = 2 ^ k"
  defines "p \<equiv> sz div bs + (if sz AND (bs - 1) > 0 then 1 else 0)"
  shows "sz \<le> p * bs" and "p * bs < sz + bs"
proof -
  have m: "sz AND (bs - 1) = sz mod bs"
    unfolding assms(1) mask_eq_exp_minus_1 [symmetric] take_bit_eq_mask [symmetric]
    by (rule take_bit_eq_mod)
  obtain q r where qr: "sz div bs = q" "sz mod bs = r" by blast
  then have "sz = q * bs + r" "r < bs"
    using assms(1) div_mult_mod_eq [of sz bs] by auto
  then show "sz \<le> p * bs" "p * bs < sz + bs"
    unfolding p_def m qr by (auto simp: algebra_simps)
qed

text \<open>
  What \<open>reserve\<close> does under the invariant: nothing, or a failed allocation, or a larger object
  with the written prefix moved over.
\<close>

lemma buf_reserve_cases:
  assumes inv: "buf_inv b" and al: "alloc_ok alloc (b_block_size b)"
    and sz: "b_current b \<le> sz" "sz + b_block_size b \<le> INVALID_VALUE"
  obtains (enough) "sz \<le> b_capacity b" "buf_reserve alloc b sz = Some (True, b)"
  | (failed) p where "b_capacity b < sz" "alloc p = None" "buf_reserve alloc b sz = Some (False, b)"
  | (grown) m where "b_capacity b < sz" "length m < INVALID_VALUE" "sz \<le> length m"
      "take (b_current b) m = take (b_current b) (b_buf b)"
      "buf_reserve alloc b sz = Some (True, b\<lparr>b_buf := m, b_capacity := length m\<rparr>)"
proof (cases "b_capacity b < sz")
  case False
  then show thesis by (intro enough) (simp_all add: buf_reserve_def)
next
  case True
  obtain k where k: "b_block_size b = 2 ^ k" and mask: "b_block_size_mask b = b_block_size b - 1"
    and cap: "b_capacity b = length (b_buf b)" and cur: "b_current b \<le> length (b_buf b)"
    using inv by (auto simp: buf_inv_def)
  define p where "p = sz div b_block_size b + (if sz AND (b_block_size b - 1) > 0 then 1 else 0)"
  have p: "sz \<le> p * b_block_size b" "p * b_block_size b < sz + b_block_size b"
    unfolding p_def using page_count [OF k] by blast+
  have small: "p * b_block_size b < INVALID_VALUE" "p \<le> p * b_block_size b"
    using p sz k by auto
  have pages: "add32 (sz div b_block_size b) (if sz AND b_block_size_mask b > 0 then 1 else 0) = p"
    unfolding add32_def mask p_def [symmetric]
    by (rule mod_less) (use small INVALID_less_two32 in linarith)
  have mul: "mul32 p (b_block_size b) = p * b_block_size b"
    using small INVALID_less_two32 by (simp add: arith32)
  show thesis
  proof (cases "alloc p")
    case None
    with True show thesis
      using pages by (intro failed [of p]) (simp_all add: buf_reserve_def Let_def)
  next
    case (Some tmp)
    with al mul have len: "length tmp = p * b_block_size b" by (simp add: alloc_ok_def)
    let ?old = "take (b_current b) (b_buf b)"
    let ?m = "?old @ drop (b_current b) tmp"
    have r: "mem_read (b_buf b) 0 (b_current b) = Some ?old"
      using cur by (simp add: mem_read_def)
    have w: "mem_write tmp 0 ?old = Some ?m"
      using cur len p sz by (simp add: mem_write_def min_def)
    have lm: "length ?m = p * b_block_size b"
      using cur len p sz by simp
    show thesis
    proof (rule grown [of ?m])
      show "buf_reserve alloc b sz = Some (True, b\<lparr>b_buf := ?m, b_capacity := length ?m\<rparr>)"
        using True Some pages r w mul lm by (simp add: buf_reserve_def Let_def)
    qed (use True lm p small cur in simp_all)
  qed
qed

section \<open>Writing\<close>

lemma buf_chan_simps:
  "b_limit b = INVALID_VALUE \<Longrightarrow> buf_chan b = Writing (take (b_current b) (b_buf b))"
  "b_limit b \<noteq> INVALID_VALUE \<Longrightarrow>
   buf_chan b = Reading (take (b_limit b - b_current b) (drop (b_current b) (b_buf b)))"
  by (simp_all add: buf_chan_def)

lemma buf_chan_Writing:
  "buf_chan b = Writing xs \<longleftrightarrow> b_limit b = INVALID_VALUE \<and> xs = take (b_current b) (b_buf b)"
  by (auto simp: buf_chan_def)

lemma buf_chan_Reading:
  "buf_chan b = Reading xs \<longleftrightarrow> b_limit b \<noteq> INVALID_VALUE \<and>
     xs = take (b_limit b - b_current b) (drop (b_current b) (b_buf b))"
  by (auto simp: buf_chan_def)

lemma buf_reading_length:
  "buf_inv b \<Longrightarrow> buf_chan b = Reading xs \<Longrightarrow> length xs = b_limit b - b_current b"
  by (auto simp: buf_inv_def buf_chan_Reading)

lemma buf_put_appends:
  assumes inv: "buf_inv b" and ch: "buf_chan b = Writing xs"
    and al: "alloc_ok alloc (b_block_size b)" and fits: "buf_fits b (length bs)"
    and res: "buf_put alloc b bs = Some (True, b')"
  shows "buf_inv b' \<and> buf_chan b' = Writing (xs @ bs) \<and> b_block_size b' = b_block_size b \<and>
         b_current b' = b_current b + length bs"
proof -
  let ?sz = "b_current b + length bs"
  have lim: "b_limit b = INVALID_VALUE" and xs: "xs = take (b_current b) (b_buf b)"
    using ch by (simp_all add: buf_chan_Writing)
  have add: "add32 (b_current b) (length bs) = ?sz"
    using fits INVALID_less_two32 by (simp add: buf_fits_def arith32)
  have sz: "b_current b \<le> ?sz" "?sz + b_block_size b \<le> INVALID_VALUE"
    using fits by (simp_all add: buf_fits_def)
  show ?thesis
  proof (cases rule: buf_reserve_cases [OF inv al sz])
    case 1
    with inv have "?sz \<le> length (b_buf b)" by (simp add: buf_inv_def)
    with 1 res lim add inv xs show ?thesis
      by (auto simp: buf_put_def mem_simps buf_inv_def buf_chan_def)
  next
    case (2 p)
    with res lim add show ?thesis by (simp add: buf_put_def)
  next
    case (3 m)
    with res lim add inv xs show ?thesis
      by (auto simp: buf_put_def mem_simps buf_inv_def buf_chan_def)
  qed
qed

lemma buf_put_total:
  assumes inv: "buf_inv b" and ch: "buf_chan b = Writing xs"
    and al: "alloc_ok alloc (b_block_size b)" and fits: "buf_fits b (length bs)"
  shows "(\<exists>b'. buf_put alloc b bs = Some (True, b')) \<or>
         buf_put alloc b bs = Some (False, b) \<and> (\<exists>p. alloc p = None)"
proof -
  let ?sz = "b_current b + length bs"
  have lim: "b_limit b = INVALID_VALUE" using ch by (simp add: buf_chan_Writing)
  have add: "add32 (b_current b) (length bs) = ?sz"
    using fits INVALID_less_two32 by (simp add: buf_fits_def arith32)
  have sz: "b_current b \<le> ?sz" "?sz + b_block_size b \<le> INVALID_VALUE"
    using fits by (simp_all add: buf_fits_def)
  show ?thesis
  proof (cases rule: buf_reserve_cases [OF inv al sz])
    case 1
    with inv have "?sz \<le> length (b_buf b)" by (simp add: buf_inv_def)
    with 1 lim add show ?thesis by (simp add: buf_put_def mem_simps)
  next
    case (2 p)
    with lim add show ?thesis by (auto simp: buf_put_def)
  next
    case (3 m)
    with lim add show ?thesis by (simp add: buf_put_def mem_simps)
  qed
qed

section \<open>Reading\<close>

lemma buf_get_takes:
  assumes inv: "buf_inv b" and ch: "buf_chan b = Reading xs" and n: "n \<le> length xs"
  shows "\<exists>b'. buf_get b n = Some (Some (take n xs), b') \<and> buf_inv b' \<and>
              buf_chan b' = Reading (drop n xs)"
proof -
  have lim: "b_limit b \<noteq> INVALID_VALUE"
    and xs: "xs = take (b_limit b - b_current b) (drop (b_current b) (b_buf b))"
    using ch by (simp_all add: buf_chan_Reading)
  have bounds: "b_current b \<le> b_limit b" "b_limit b \<le> length (b_buf b)" "b_limit b < two32"
    using inv lim buf_inv_less(3) [OF inv] by (auto simp: buf_inv_def)
  have n': "b_current b + n \<le> b_limit b"
    using n bounds buf_reading_length [OF inv ch] by simp
  have sub: "sub32 (b_limit b) (b_current b) = b_limit b - b_current b"
    using bounds by (simp add: arith32)
  have add: "add32 (b_current b) n = b_current b + n"
    using n' bounds by (simp add: arith32)
  let ?b = "b\<lparr>b_current := b_current b + n\<rparr>"
  have "buf_get b n = Some (Some (take n xs), ?b)"
    using lim n' bounds by (simp add: buf_get_def sub add mem_simps xs min_def)
  moreover have "buf_inv ?b"
    using inv lim n' bounds by (auto simp: buf_inv_def)
  moreover have "buf_chan ?b = Reading (drop n xs)"
    using lim n' by (simp add: buf_chan_Reading xs drop_take add.commute)
  ultimately show ?thesis by blast
qed

lemma buf_get_short:
  assumes inv: "buf_inv b" and ch: "buf_chan b = Reading xs" and n: "length xs < n"
  shows "buf_get b n = Some (None, b)"
proof -
  have lim: "b_limit b \<noteq> INVALID_VALUE" using ch by (simp add: buf_chan_Reading)
  have "b_current b \<le> b_limit b" "b_limit b < two32"
    using inv lim buf_inv_less(3) [OF inv] by (auto simp: buf_inv_def)
  then show ?thesis
    using n buf_reading_length [OF inv ch] by (simp add: buf_get_def arith32)
qed

lemma buf_flip_reads:
  assumes inv: "buf_inv b" and ch: "buf_chan b = Writing xs"
  shows "\<exists>b'. buf_flip b = (True, b') \<and> buf_inv b' \<and> buf_chan b' = Reading xs"
proof -
  have "b_limit b = INVALID_VALUE" "b_current b < INVALID_VALUE"
    "xs = take (b_current b) (b_buf b)"
    using inv ch by (auto simp: buf_inv_def buf_chan_Writing)
  then show ?thesis
    using inv by (auto simp: buf_flip_def buf_inv_def buf_chan_def)
qed

lemma buf_compact_keeps:
  assumes inv: "buf_inv b" and ch: "buf_chan b = Reading xs"
  shows "\<exists>b'. buf_compact b = Some (True, b') \<and> buf_inv b' \<and> buf_chan b' = Writing xs"
proof -
  have lim: "b_limit b \<noteq> INVALID_VALUE"
    and xs: "xs = take (b_limit b - b_current b) (drop (b_current b) (b_buf b))"
    using ch by (simp_all add: buf_chan_Reading)
  have bounds: "b_current b \<le> b_limit b" "b_limit b \<le> length (b_buf b)" "b_limit b < two32"
    using inv lim buf_inv_less(3) [OF inv] by (auto simp: buf_inv_def)
  then have sub: "sub32 (b_limit b) (b_current b) = b_limit b - b_current b"
    by (simp add: arith32)
  have len: "length xs = b_limit b - b_current b" by (rule buf_reading_length [OF inv ch])
  show ?thesis
  proof (cases "b_limit b = b_current b")
    case True
    with sub have "sub32 (b_limit b) (b_current b) = 0" by simp
    with True lim inv xs show ?thesis
      by (auto simp: buf_compact_def buf_inv_def buf_chan_def Let_def)
  next
    case False
    have "mem_read (b_buf b) (b_current b) (b_limit b - b_current b) = Some xs"
      using bounds by (simp add: mem_simps xs)
    moreover have "mem_write (b_buf b) 0 xs = Some (xs @ drop (length xs) (b_buf b))"
      using bounds len by (simp add: mem_simps)
    ultimately show ?thesis
      using False lim inv bounds len by (auto simp: buf_compact_def sub buf_inv_def buf_chan_def Let_def)
  qed
qed

section \<open>The buffer is a byte channel\<close>

definition buf_room :: "pages_alloc \<Rightarrow> buffer \<Rightarrow> nat \<Rightarrow> bool" where
  "buf_room alloc b n \<longleftrightarrow>
     buf_fits b n \<and> alloc_ok alloc (b_block_size b) \<and> (\<forall>p. alloc p \<noteq> None)"

interpretation bufc: byte_channel buf_inv buf_chan "buf_room alloc" "buf_put alloc" buf_get buf_flip
  for alloc
proof (unfold_locales, goal_cases)
  case (1 s xs bs n)
  then have al: "alloc_ok alloc (b_block_size s)" "buf_fits s (length bs)"
    by (simp_all add: buf_room_def buf_fits_def)
  have "\<forall>p. alloc p \<noteq> None" using 1(3) by (simp add: buf_room_def)
  then obtain s' where s': "buf_put alloc s bs = Some (True, s')"
    using buf_put_total [OF 1(1,2) al] by blast
  show ?case
    using buf_put_appends [OF 1(1,2) al s'] s' 1(3) by (auto simp: buf_room_def buf_fits_def)
next
  case (2 s xs bs)
  then show ?case by (simp add: buf_put_def buf_chan_Reading)
next
  case (3 s xs n)
  then show ?case by (rule buf_get_takes)
next
  case (4 s xs n)
  then show ?case by (intro buf_get_short)
next
  case (5 s xs n)
  then show ?case by (simp add: buf_get_def buf_chan_Writing)
next
  case (6 s xs)
  then show ?case by (rule buf_flip_reads)
qed

lemma buf_skip_drops:
  assumes inv: "buf_inv b" and ch: "buf_chan b = Reading xs" and n: "n \<le> length xs"
  shows "\<exists>b'. buf_skip alloc b n = Some (True, b') \<and> buf_inv b' \<and> buf_chan b' = Reading (drop n xs)"
proof -
  have lim: "b_limit b \<noteq> INVALID_VALUE" using ch by (simp add: buf_chan_Reading)
  have len: "length xs = b_limit b - b_current b" by (rule buf_reading_length [OF inv ch])
  have sub: "sub32 (b_limit b) (b_current b) = b_limit b - b_current b"
    using inv lim buf_inv_less(3) [OF inv] by (auto simp: buf_inv_def arith32)
  from buf_get_takes [OF inv ch n] obtain b' where b': "buf_get b n = Some (Some (take n xs), b')"
    "buf_inv b'" "buf_chan b' = Reading (drop n xs)" by blast
  then have eq: "b' = b\<lparr>b_current := add32 (b_current b) n\<rparr>"
    by (auto simp: buf_get_def split: if_splits)
  have "buf_skip alloc b n = Some (True, b'\<lparr>b_mark := b_current b\<rparr>)"
    using lim sub n len by (simp add: buf_skip_def eq)
  moreover have "buf_inv (b'\<lparr>b_mark := b_current b\<rparr>)"
    using b'(2) inv lim by (auto simp: eq buf_inv_def)
  moreover have "buf_chan (b'\<lparr>b_mark := b_current b\<rparr>) = buf_chan b'"
    by (simp add: buf_chan_def)
  ultimately show ?thesis using b'(3) by simp
qed

interpretation bufs: skip_channel buf_inv buf_chan "buf_room alloc" "buf_put alloc" buf_get buf_flip
    "buf_skip alloc"
  for alloc
proof (unfold_locales, goal_cases)
  case (1 s xs n)
  then show ?case by (rule buf_skip_drops)
next
  case (2 s xs n)
  then have "b_limit s \<noteq> INVALID_VALUE" "length xs = b_limit s - b_current s"
    "sub32 (b_limit s) (b_current s) = b_limit s - b_current s"
    using buf_reading_length [OF 2(1,2)] buf_inv_less(3) [OF 2(1)]
    by (auto simp: buf_chan_Reading buf_inv_def arith32)
  with 2(3) show ?case by (simp add: buf_skip_def)
qed

section \<open>Runs of calls\<close>

text \<open>
  Every public call that can change the state, and the state after it; \<open>None\<close> is undefined
  behaviour. The typed \<open>get\<close>, \<open>put\<close> and \<open>peek\<close> are the cases of 1, 2, 4 and 8 bytes;
  \<open>reserve\<close> is private.
\<close>

datatype buf_op = BMark | BLimit nat | BSkip nat | BReset | BClear | BRewind | BFlip | BCompact
  | BGet nat | BPut "byte list" | BPeek nat | BDirectPut nat | BCommitPut nat nat
  | BCommitGet nat nat

fun buf_step :: "pages_alloc \<Rightarrow> buffer \<Rightarrow> buf_op \<Rightarrow> buffer option" where
  "buf_step alloc b BMark = Some (buf_set_mark b)"
| "buf_step alloc b (BLimit n) = map_option snd (buf_set_limit b n)"
| "buf_step alloc b (BSkip n) = map_option snd (buf_skip alloc b n)"
| "buf_step alloc b BReset = Some (snd (buf_reset b))"
| "buf_step alloc b BClear = Some (buf_clear b)"
| "buf_step alloc b BRewind = Some (buf_rewind b)"
| "buf_step alloc b BFlip = Some (snd (buf_flip b))"
| "buf_step alloc b BCompact = map_option snd (buf_compact b)"
| "buf_step alloc b (BGet n) = map_option snd (buf_get b n)"
| "buf_step alloc b (BPut bs) = map_option snd (buf_put alloc b bs)"
| "buf_step alloc b (BPeek n) = map_option snd (buf_peek (\<lambda>b. buf_get b n) b)"
| "buf_step alloc b (BDirectPut n) = map_option snd (buf_direct_put alloc b n)"
| "buf_step alloc b (BCommitPut d n) = Some (snd (buf_commit_put b d n))"
| "buf_step alloc b (BCommitGet d n) = Some (snd (buf_commit_get b d n))"

text \<open>The size a call asks for; the run below needs it to stay clear of \<open>2 ^ 32\<close>.\<close>

fun buf_demand :: "buf_op \<Rightarrow> nat" where
  "buf_demand (BLimit n) = n"
| "buf_demand (BSkip n) = n"
| "buf_demand (BPut bs) = length bs"
| "buf_demand (BDirectPut n) = n"
| "buf_demand (BCommitPut d n) = n"
| "buf_demand (BCommitGet d n) = n"
| "buf_demand _ = 0"

fun buf_run :: "buffer \<Rightarrow> (pages_alloc \<times> buf_op) list \<Rightarrow> buffer option" where
  "buf_run b [] = Some b"
| "buf_run b ((alloc, op) # ops) = Option.bind (buf_step alloc b op) (\<lambda>b'. buf_run b' ops)"

text \<open>
  The one duty of the caller: a reading limit set by \<open>limit(n)\<close> lies inside the object (the code
  asserts it) and not below the read position or a valid mark (the code does not check it).
\<close>

fun buf_call_ok :: "buffer \<Rightarrow> buf_op \<Rightarrow> bool" where
  "buf_call_ok b (BLimit n) =
     (b_limit b = INVALID_VALUE \<or>
      b_current b \<le> n \<and> n \<le> b_capacity b \<and> (b_mark b = INVALID_VALUE \<or> b_mark b \<le> n))"
| "buf_call_ok _ _ = True"

fun buf_calls_ok :: "buffer \<Rightarrow> (pages_alloc \<times> buf_op) list \<Rightarrow> bool" where
  "buf_calls_ok b [] = True"
| "buf_calls_ok b ((alloc, op) # ops) =
     (buf_call_ok b op \<and>
      (case buf_step alloc b op of None \<Rightarrow> True | Some b' \<Rightarrow> buf_calls_ok b' ops))"

lemma buf_inv_update:
  "buf_inv b \<Longrightarrow> b_limit b = INVALID_VALUE \<Longrightarrow> length m < INVALID_VALUE \<Longrightarrow>
   b_capacity b \<le> length m \<Longrightarrow> buf_inv (b\<lparr>b_buf := m, b_capacity := length m\<rparr>)"
  by (auto simp: buf_inv_def)

lemma buf_reserve_inv:
  assumes inv: "buf_inv b" and al: "alloc_ok alloc (b_block_size b)"
    and fits: "buf_fits b n" and lim: "b_limit b = INVALID_VALUE"
  obtains r b' where "buf_reserve alloc b (add32 (b_current b) n) = Some (r, b')" "buf_inv b'"
    "b_block_size b' = b_block_size b" "b_limit b' = INVALID_VALUE" "b_current b' = b_current b"
    "b_mark b' = b_mark b" "r \<Longrightarrow> b_current b + n \<le> b_capacity b'"
    "add32 (b_current b) n = b_current b + n"
proof -
  have add: "add32 (b_current b) n = b_current b + n"
    using fits INVALID_less_two32 by (simp add: buf_fits_def arith32)
  have sz: "b_current b \<le> b_current b + n" "b_current b + n + b_block_size b \<le> INVALID_VALUE"
    using fits by (simp_all add: buf_fits_def)
  show thesis
  proof (cases rule: buf_reserve_cases [OF inv al sz])
    case 1
    with inv lim add show thesis by (intro that [of True b]) simp_all
  next
    case (2 p)
    with inv lim add show thesis by (intro that [of False b]) simp_all
  next
    case (3 m)
    then have "b_capacity b \<le> length m" by simp
    with 3 inv lim add show thesis
      by (intro that [of True "b\<lparr>b_buf := m, b_capacity := length m\<rparr>"])
        (simp_all add: buf_inv_update)
  qed
qed

lemma buf_compact_frame: "buf_compact b = Some (r, b') \<Longrightarrow> b_block_size b' = b_block_size b"
  by (auto simp: buf_compact_def Let_def split: if_splits)

lemma buf_reserve_frame:
  "buf_reserve alloc b n = Some (r, b') \<Longrightarrow>
   b_current b' = b_current b \<and> b_mark b' = b_mark b \<and> b_limit b' = b_limit b"
  by (auto simp: buf_reserve_def Let_def split: if_splits option.splits)

lemma buf_step_safe:
  assumes inv: "buf_inv b" and al: "alloc_ok alloc (b_block_size b)"
    and fits: "buf_fits b (buf_demand op)" and ok: "buf_call_ok b op"
  shows "\<exists>b'. buf_step alloc b op = Some b' \<and> buf_inv b' \<and> b_block_size b' = b_block_size b"
proof (cases op)
  case (BLimit n)
  with inv ok show ?thesis by (auto simp: buf_set_limit_def buf_inv_def)
next
  case (BPeek n)
  show ?thesis
  proof (cases "b_limit b = INVALID_VALUE")
    case False
    then obtain xs where ch: "buf_chan b = Reading xs" by (simp add: buf_chan_def)
    show ?thesis
    proof (cases "n \<le> length xs")
      case True
      from buf_get_takes [OF inv ch this] BPeek inv show ?thesis
        by (auto simp: buf_peek_def buf_get_def buf_inv_def split: if_splits)
    next
      case False
      with buf_get_short [OF inv ch] BPeek inv show ?thesis by (simp add: buf_peek_def)
    qed
  qed (use BPeek inv in \<open>simp add: buf_get_def buf_peek_def\<close>)
next
  case (BSkip n)
  with fits have f: "buf_fits b n" by simp
  then have add: "add32 (b_current b) n = b_current b + n"
    using INVALID_less_two32 by (simp add: buf_fits_def arith32)
  show ?thesis
  proof (cases "b_limit b = INVALID_VALUE")
    case True
    show ?thesis
      by (rule buf_reserve_inv [OF inv al f True])
        (use BSkip True add in \<open>auto simp: buf_skip_def buf_inv_def\<close>)
  next
    case False
    then have "sub32 (b_limit b) (b_current b) = b_limit b - b_current b"
      using inv buf_inv_less(3) [OF inv] by (auto simp: buf_inv_def arith32)
    with False BSkip inv add show ?thesis
      by (auto simp: buf_skip_def buf_inv_def)
  qed
next
  case BReset
  with inv show ?thesis by (auto simp: buf_reset_def buf_inv_def split: if_splits)
next
  case BFlip
  with inv show ?thesis by (auto simp: buf_flip_def buf_inv_def)
next
  case BCompact
  show ?thesis
  proof (cases "b_limit b = INVALID_VALUE")
    case False
    then obtain xs where ch: "buf_chan b = Reading xs" by (simp add: buf_chan_def)
    from buf_compact_keeps [OF inv ch] BCompact show ?thesis
      by (auto dest: buf_compact_frame)
  qed (use BCompact inv in \<open>simp add: buf_compact_def\<close>)
next
  case (BGet n)
  show ?thesis
  proof (cases "b_limit b = INVALID_VALUE")
    case False
    then obtain xs where ch: "buf_chan b = Reading xs" by (simp add: buf_chan_def)
    show ?thesis
    proof (cases "n \<le> length xs")
      case True
      from buf_get_takes [OF inv ch this] BGet show ?thesis
        by (auto simp: buf_get_def split: if_splits)
    next
      case False
      with buf_get_short [OF inv ch] BGet inv show ?thesis by simp
    qed
  qed (use BGet inv in \<open>simp add: buf_get_def\<close>)
next
  case (BPut bs)
  show ?thesis
  proof (cases "b_limit b = INVALID_VALUE")
    case True
    then obtain xs where ch: "buf_chan b = Writing xs" by (simp add: buf_chan_def)
    from fits BPut have f: "buf_fits b (length bs)" by simp
    from buf_put_total [OF inv ch al f] buf_put_appends [OF inv ch al f] BPut inv
    show ?thesis by auto
  qed (use BPut inv in \<open>simp add: buf_put_def\<close>)
next
  case (BDirectPut n)
  with fits have f: "buf_fits b n" by simp
  show ?thesis
  proof (cases "b_limit b = INVALID_VALUE")
    case True
    show ?thesis
      by (rule buf_reserve_inv [OF inv al f True])
        (use BDirectPut True in \<open>auto simp: buf_direct_put_def\<close>)
  qed (use BDirectPut inv in \<open>simp add: buf_direct_put_def\<close>)
next
  case (BCommitPut d n)
  with fits INVALID_less_two32 have "add32 (b_current b) n = b_current b + n"
    by (simp add: buf_fits_def arith32)
  with BCommitPut inv show ?thesis by (auto simp: buf_commit_put_def buf_inv_def)
next
  case (BCommitGet d n)
  with fits INVALID_less_two32 have "add32 (b_current b) n = b_current b + n"
    by (simp add: buf_fits_def arith32)
  with BCommitGet inv show ?thesis by (auto simp: buf_commit_get_def buf_inv_def)
qed (use inv in \<open>auto simp: buf_set_mark_def buf_clear_def buf_rewind_def buf_inv_def\<close>)

text \<open>
  A high-water mark: no position of the buffer lies above it, and a call raises it by no more
  than its demand.
\<close>

definition buf_below :: "nat \<Rightarrow> buffer \<Rightarrow> bool" where
  "buf_below w b \<longleftrightarrow>
     b_current b \<le> w \<and> (b_mark b \<noteq> INVALID_VALUE \<longrightarrow> b_mark b \<le> w) \<and>
     (b_limit b \<noteq> INVALID_VALUE \<longrightarrow> b_limit b \<le> w)"

lemma add32_le: "add32 a b \<le> a + b"
  by (simp add: add32_def)

lemma buf_step_below:
  assumes inv: "buf_inv b" and below: "buf_below w b" and step: "buf_step alloc b op = Some b'"
  shows "buf_below (w + buf_demand op) b'"
proof -
  have adv: "b_current b \<le> w \<Longrightarrow> add32 (b_current b) n \<le> w + n" for n
    using add32_le [of "b_current b" n] by simp
  have sub: "b_limit b \<noteq> INVALID_VALUE \<Longrightarrow> sub32 (b_limit b) (b_current b) = b_limit b - b_current b"
    using inv buf_inv_less(3) [OF inv] by (auto simp: buf_inv_def arith32)
  have rd: "b_limit b \<noteq> INVALID_VALUE \<Longrightarrow> n \<le> b_limit b - b_current b \<Longrightarrow> b_limit b \<le> w \<Longrightarrow>
      add32 (b_current b) n \<le> w" for n
    using inv add32_le [of "b_current b" n] by (auto simp: buf_inv_def)
  show ?thesis
    using below step adv sub rd
    by (cases op)
      (auto simp: buf_below_def buf_set_mark_def buf_skip_def buf_reset_def buf_clear_def
        buf_rewind_def buf_flip_def buf_compact_def buf_get_def buf_put_def buf_direct_put_def
        buf_commit_put_def buf_commit_get_def buf_set_limit_def buf_peek_def Let_def
        option_bind_Some_iff
        split: if_splits dest!: buf_reserve_frame)
qed

lemma buf_run_safe:
  assumes "buf_inv b" "\<forall>(alloc, op) \<in> set ops. alloc_ok alloc (b_block_size b)" "buf_below w b"
    and "buf_calls_ok b ops"
    and "w + sum_list (map (buf_demand \<circ> snd) ops) + b_block_size b \<le> INVALID_VALUE"
  shows "\<exists>b'. buf_run b ops = Some b' \<and> buf_inv b'"
  using assms
proof (induction ops arbitrary: b w)
  case (Cons call ops)
  obtain alloc op where call: "call = (alloc, op)" by fastforce
  with Cons.prems have "buf_fits b (buf_demand op)" "buf_call_ok b op"
      "alloc_ok alloc (b_block_size b)"
    by (simp_all add: buf_fits_def buf_below_def)
  then obtain b1 where b1: "buf_step alloc b op = Some b1" "buf_inv b1"
      "b_block_size b1 = b_block_size b"
    using buf_step_safe Cons.prems(1) by blast
  moreover have "buf_below (w + buf_demand op) b1"
    using buf_step_below Cons.prems b1 by blast
  ultimately show ?case
    using Cons.IH [of b1 "w + buf_demand op"] Cons.prems call by simp
qed simp

lemma buf_new_inv:
  assumes new: "buf_new alloc unit = Some (Some b)" and al: "alloc_ok alloc unit"
    and unit: "unit = 2 ^ k" "2 * unit \<le> INVALID_VALUE"
  shows "buf_inv b \<and> buf_chan b = Writing [] \<and> b_block_size b = unit \<and> buf_below 0 b"
proof -
  let ?b = "\<lparr>b_current = 0, b_mark = INVALID_VALUE, b_limit = INVALID_VALUE, b_capacity = 0,
             b_block_size = unit, b_block_size_mask = unit - 1, b_buf = []\<rparr>"
  have inv: "buf_inv ?b" using unit by (auto simp: buf_inv_def INVALID_VALUE_def)
  have add: "add32 (b_current ?b) unit = unit"
    using unit INVALID_less_two32 by (simp add: arith32)
  have prem: "alloc_ok alloc (b_block_size ?b)" "buf_fits ?b unit" "b_limit ?b = INVALID_VALUE"
    using al unit by (simp_all add: buf_fits_def)
  obtain r b' where r: "buf_reserve alloc ?b unit = Some (r, b')" "buf_inv b'"
      "b_block_size b' = unit" "b_limit b' = INVALID_VALUE" "b_current b' = 0"
      "b_mark b' = INVALID_VALUE"
  proof (rule buf_reserve_inv [OF inv prem], goal_cases)
    case (1 r b')
    with add show ?case by (intro that [of r b']) simp_all
  qed
  then have "b = b'" using new by (auto simp: buf_new_def split: if_splits)
  with r show ?thesis by (simp add: buf_chan_def buf_below_def)
qed

section \<open>Properties\<close>

text \<open>C1. No sequence of public calls on a new buffer, in any order and in either mode, and
  whichever allocations fail, touches memory outside the buffer's object, and the buffer's
  invariant holds at the end, under two conditions: every \<open>limit(n)\<close> made while reading has \<open>n\<close>
  between the position (and the mark, where one is set) and the capacity, and the bytes the calls
  ask for stay below \<open>2 ^ 32 - 1\<close> less two pages.\<close>

theorem buffer_memory_safe:
  assumes "buf_new alloc unit = Some (Some b)" and "alloc_ok alloc unit" and "unit = 2 ^ k"
    and "\<forall>(alloc', op) \<in> set ops. alloc_ok alloc' unit"
    and "buf_calls_ok b ops"
    and "2 * unit + sum_list (map (buf_demand \<circ> snd) ops) \<le> INVALID_VALUE"
  shows "\<exists>b'. buf_run b ops = Some b' \<and> buf_inv b'"
proof -
  have "buf_inv b \<and> buf_chan b = Writing [] \<and> b_block_size b = unit \<and> buf_below 0 b"
    using buf_new_inv [OF assms(1-3)] assms(6) by simp
  with assms(4-6) show ?thesis by (intro buf_run_safe [of _ _ 0]) simp_all
qed

definition demo_alloc :: pages_alloc where
  "demo_alloc p = Some (replicate (mul32 p 4) 0)"

definition demo_buffer :: buffer where
  "demo_buffer = \<lparr>b_current = 0, b_mark = INVALID_VALUE, b_limit = INVALID_VALUE,
     b_capacity = 4, b_block_size = 4, b_block_size_mask = 3, b_buf = [0, 0, 0, 0]\<rparr>"

lemma demo_alloc_ok: "alloc_ok demo_alloc 4" "demo_alloc p \<noteq> None"
  by (auto simp: alloc_ok_def demo_alloc_def)

lemma demo_alloc_1: "demo_alloc 1 = Some [0, 0, 0, 0]"
proof -
  have "replicate 4 (0 :: byte) = [0, 0, 0, 0]" by (simp add: numeral_eq_Suc)
  moreover have "mul32 1 4 = 4" by (simp add: mul32_def two32_def)
  ultimately show ?thesis unfolding demo_alloc_def by simp
qed

lemma demo_buffer_new: "buf_new demo_alloc 4 = Some (Some demo_buffer)"
proof -
  have "add32 1 0 = 1" "mul32 1 4 = 4" by (simp_all add: add32_def mul32_def two32_def)
  moreover have "(4 :: nat) AND 3 = 0" by simp
  ultimately show ?thesis
    using demo_alloc_1
    by (simp add: buf_new_def buf_reserve_def mem_read_def mem_write_def demo_buffer_def)
qed

lemma demo_buffer_inv: "buf_inv demo_buffer" "buf_chan demo_buffer = Writing []"
  by (auto simp: buf_inv_def demo_buffer_def buf_chan_def INVALID_VALUE_def intro: exI [of _ 2])

text \<open>A run that moves the limit down to a frame of two bytes and up again, and whose last growth
  fails once before it succeeds.\<close>

definition demo_calls :: "(pages_alloc \<times> buf_op) list" where
  "demo_calls = [(demo_alloc, BPut [1, 2, 3]), (demo_alloc, BFlip), (demo_alloc, BLimit 2),
     (demo_alloc, BPeek 1), (demo_alloc, BGet 2), (demo_alloc, BGet 1), (demo_alloc, BLimit 3),
     (demo_alloc, BCompact), (\<lambda>_. None, BSkip 9), (demo_alloc, BSkip 9)]"

lemma demo_calls_ok: "buf_calls_ok demo_buffer demo_calls"
  by (simp add: demo_calls_def demo_buffer_def buf_put_def buf_reserve_def buf_flip_def
      buf_set_limit_def buf_peek_def buf_get_def mem_read_def mem_write_def arith32 two32_def
      INVALID_VALUE_def buf_compact_def buf_skip_def split: option.split)

theorem buffer_memory_safe_witness:
  "\<exists>b'. buf_run demo_buffer demo_calls = Some b' \<and> buf_inv b'"
  by (rule buffer_memory_safe [OF demo_buffer_new demo_alloc_ok(1) _ _ demo_calls_ok, of 2])
    (simp_all add: demo_calls_def alloc_ok_def demo_alloc_def INVALID_VALUE_def)

text \<open>C2. Blocks of bytes put one after another into a buffer being written come back, in the same
  order and unchanged, when the buffer is flipped and read with the same sizes; every byte is
  consumed.\<close>

theorem buffer_put_flip_get:
  assumes "buf_inv b" and "buf_chan b = Writing []" and "buf_room alloc b (length (concat bss))"
  shows "\<exists>b1 b2 b3. put_each (buf_put alloc) b bss = Some (True, b1) \<and> buf_flip b1 = (True, b2) \<and>
           get_each buf_get b2 (map length bss) = Some (Some bss, b3) \<and> buf_chan b3 = Reading []"
  using bufc.put_each_flip_get_each [OF assms] by blast

theorem buffer_put_flip_get_witness:
  "\<exists>b1 b2 b3. put_each (buf_put demo_alloc) demo_buffer [[1, 2, 3], [4], [5, 6]] = Some (True, b1) \<and>
     buf_flip b1 = (True, b2) \<and>
     get_each buf_get b2 (map length [[1, 2, 3], [4], [5, 6 :: byte]])
       = Some (Some [[1, 2, 3], [4], [5, 6]], b3) \<and>
     buf_chan b3 = Reading []"
proof -
  have "buf_room demo_alloc demo_buffer (length (concat [[1, 2, 3], [4], [5, 6 :: byte]]))"
    by (simp add: buf_room_def buf_fits_def demo_alloc_ok INVALID_VALUE_def demo_buffer_def)
  then show ?thesis by (rule buffer_put_flip_get [OF demo_buffer_inv])
qed

text \<open>Compacting a half-read buffer keeps exactly the unread bytes: what is put afterwards
  follows them, and the buffer is back in writing mode.\<close>

lemma buffer_compact_continues:
  assumes "buf_inv b" and "buf_chan b = Reading xs" and "n \<le> length xs"
  shows "\<exists>b1 b2. buf_get b n = Some (Some (take n xs), b1) \<and> buf_compact b1 = Some (True, b2) \<and>
           buf_inv b2 \<and> buf_chan b2 = Writing (drop n xs)"
  using buf_get_takes [OF assms] buf_compact_keeps by blast

text \<open>C3. \<open>limit()\<close> accepts any new limit up to the capacity, also one below the read position;
  the unsigned difference \<open>_limit - _current\<close> then wraps, so a following \<open>get\<close> passes its length
  check and hands out bytes behind the limit, or reads past the end of the object.\<close>

theorem buffer_limit_below_position:
  assumes inv: "buf_inv b" and rd: "b_limit b \<noteq> INVALID_VALUE" and low: "l < b_current b"
    and n: "0 < n" "n \<le> two32 - (b_current b - l)"
  shows "\<exists>b'. buf_set_limit b l = Some (b_limit b, b') \<and>
           buf_get b' n = (if b_current b + n \<le> b_capacity b
             then Some (Some (take n (drop (b_current b) (b_buf b))),
                        b'\<lparr>b_current := b_current b + n\<rparr>)
             else None)"
proof -
  have cur: "b_current b \<le> length (b_buf b)" "b_capacity b = length (b_buf b)"
    "length (b_buf b) < two32"
    using inv buf_inv_less(2) [OF inv] by (auto simp: buf_inv_def)
  let ?b = "b\<lparr>b_limit := l\<rparr>"
  have "buf_set_limit b l = Some (b_limit b, ?b)"
    using rd low cur by (simp add: buf_set_limit_def)
  moreover have "l \<noteq> INVALID_VALUE"
    using low inv by (auto simp: buf_inv_def)
  moreover have "sub32 l (b_current b) = two32 - (b_current b - l)"
    using low cur by (simp add: arith32)
  ultimately show ?thesis
    using n cur by (auto simp: buf_get_def mem_read_def arith32)
qed

theorem buffer_limit_below_position_witness:
  "\<exists>b'. buf_set_limit (demo_buffer\<lparr>b_limit := 4, b_current := 3\<rparr>) 1 = Some (4, b') \<and>
     buf_get b' 2 = None"
proof -
  let ?b = "demo_buffer\<lparr>b_limit := 4, b_current := 3\<rparr>"
  have "buf_inv ?b"
    by (auto simp: buf_inv_def demo_buffer_def INVALID_VALUE_def intro: exI [of _ 2])
  from buffer_limit_below_position [OF this, of 1 2] show ?thesis
    by (simp add: demo_buffer_def INVALID_VALUE_def two32_def)
qed

end
