(* ===== verification/Linked_Buffer.thy ===== *)
theory Linked_Buffer
  imports Buffer
begin

text \<open>
  The chained byte buffer \<open>sax::linked_buffer\<close> (\<open>net/linked_buffer.h\<close>): a singly linked list of
  blocks of one page each and four cursors into it. A node is named by its serial number in the
  order of \<open>push_back\<close>, so \<open>node->next\<close> is the next number while the list has it; \<open>l_first\<close> is
  \<open>_buf_list.get_head()\<close> and \<open>l_blocks\<close> holds the payloads of the nodes in list order. A cursor's
  \<open>curr_buf\<close> is the offset into its block's \<open>buf\<close>. The allocator is a parameter: the payload of
  the node with the given serial number, or \<open>None\<close> for \<open>NULL\<close>. \<open>None\<close> as the result of an operation
  is undefined behaviour (a missing \<open>next\<close>, an access outside a block) or a call that does not
  return.
\<close>

section \<open>State\<close>

record pos =
  p_position :: nat
  p_remaining :: nat
  p_block :: nat
  p_curr_buf :: nat
  p_invalid :: bool

definition pos_new :: "nat \<Rightarrow> nat \<Rightarrow> nat \<Rightarrow> nat \<Rightarrow> pos" where
  "pos_new block offset position remaining =
     \<lparr>p_position = position, p_remaining = remaining, p_block = block, p_curr_buf = offset,
      p_invalid = False\<rparr>"

definition pos_invalid :: pos where
  "pos_invalid = \<lparr>p_position = 0, p_remaining = 0, p_block = 0, p_curr_buf = 0, p_invalid = True\<rparr>"

definition set_invalid :: "pos \<Rightarrow> pos" where
  "set_invalid p = p\<lparr>p_invalid := True\<rparr>"

record linked_buffer =
  l_current :: pos
  l_zero :: pos
  l_mark :: pos
  l_limit :: pos
  l_block_size :: nat
  l_capacity :: nat
  l_usable :: nat
  l_first :: nat
  l_blocks :: "byte list list"

type_synonym node_alloc = "nat \<Rightarrow> byte list option"

text \<open>The list of nodes (\<open>_linked_list\<close>).\<close>

definition list_push_back :: "linked_buffer \<Rightarrow> byte list \<Rightarrow> linked_buffer" where
  "list_push_back lb node = lb\<lparr>l_blocks := l_blocks lb @ [node]\<rparr>"

definition list_pop_front :: "linked_buffer \<Rightarrow> linked_buffer" where
  "list_pop_front lb =
     (if l_blocks lb = [] then lb else lb\<lparr>l_blocks := tl (l_blocks lb), l_first := Suc (l_first lb)\<rparr>)"

definition node_exists :: "linked_buffer \<Rightarrow> nat \<Rightarrow> bool" where
  "node_exists lb i \<longleftrightarrow> l_first lb \<le> i \<and> i < l_first lb + length (l_blocks lb)"

definition node_buf :: "linked_buffer \<Rightarrow> nat \<Rightarrow> byte list option" where
  "node_buf lb i = (if node_exists lb i then Some (l_blocks lb ! (i - l_first lb)) else None)"

text \<open>The page size less the node header, \<open>g_shm_unit() - offsetof(buffer_block, buf)\<close>.\<close>

definition lb_new :: "node_alloc \<Rightarrow> nat \<Rightarrow> nat \<Rightarrow> linked_buffer option option" where
  "lb_new alloc unit header =
     (if unit > header
      then (let bs = unit - header in
            case alloc 0 of None \<Rightarrow> Some None
            | Some first \<Rightarrow>
                (let c = pos_new 0 0 0 bs in
                 Some (Some \<lparr>l_current = c, l_zero = c, l_mark = pos_invalid, l_limit = pos_invalid,
                             l_block_size = bs, l_capacity = bs, l_usable = bs, l_first = 0,
                             l_blocks = [first]\<rparr>)))
      else None)"

section \<open>Reserving space\<close>

partial_function (option) lb_reserve_loop ::
    "node_alloc \<Rightarrow> linked_buffer \<Rightarrow> nat \<Rightarrow> (bool \<times> linked_buffer) option" where
  "lb_reserve_loop alloc lb sz =
     (if l_usable lb < sz
      then (case alloc (l_first lb + length (l_blocks lb)) of
              None \<Rightarrow> Some (False, lb)
            | Some node \<Rightarrow>
                lb_reserve_loop alloc
                  ((list_push_back lb node)
                     \<lparr>l_capacity := add32 (l_capacity lb) (l_block_size lb),
                      l_usable := add32 (l_usable lb) (l_block_size lb)\<rparr>) sz)
      else Some (True, lb))"

definition lb_reserve :: "node_alloc \<Rightarrow> linked_buffer \<Rightarrow> nat \<Rightarrow> (bool \<times> linked_buffer) option" where
  "lb_reserve alloc lb sz = lb_reserve_loop alloc lb (add32 sz 1)"

text \<open>The guard of every writing call: \<open>_usable < pos + length + 1 && !reserve(pos + length)\<close>.\<close>

definition lb_make_room :: "node_alloc \<Rightarrow> linked_buffer \<Rightarrow> nat \<Rightarrow> (bool \<times> linked_buffer) option" where
  "lb_make_room alloc lb len =
     (if l_usable lb < add32 (add32 (p_position (l_current lb)) len) 1
      then lb_reserve alloc lb (add32 (p_position (l_current lb)) len)
      else Some (True, lb))"

section \<open>Moving a cursor through the blocks\<close>

text \<open>One turn of the \<open>do\<close> loops: step to the next block, use \<open>tmp\<close> bytes of it.\<close>

definition pos_into :: "linked_buffer \<Rightarrow> pos \<Rightarrow> nat \<Rightarrow> pos" where
  "pos_into lb p tmp =
     p\<lparr>p_block := Suc (p_block p), p_curr_buf := tmp, p_remaining := l_block_size lb - tmp\<rparr>"

function lb_skip_loop :: "linked_buffer \<Rightarrow> pos \<Rightarrow> nat \<Rightarrow> pos option" where
  "lb_skip_loop lb p rem =
     (if node_exists lb (Suc (p_block p))
      then (let tmp = (if rem > l_block_size lb then l_block_size lb else rem);
                p' = pos_into lb p tmp
            in if rem - tmp > 0 then lb_skip_loop lb p' (rem - tmp) else Some p')
      else None)"
  by pat_completeness auto
termination
  by (relation "measure (\<lambda>(lb, p, rem). l_first lb + length (l_blocks lb) - p_block p)")
    (auto simp: node_exists_def pos_into_def)

function lb_get_loop :: "linked_buffer \<Rightarrow> pos \<Rightarrow> nat \<Rightarrow> (byte list \<times> pos) option" where
  "lb_get_loop lb p rem =
     (case node_buf lb (Suc (p_block p)) of None \<Rightarrow> None
      | Some blk \<Rightarrow>
          (let tmp = (if rem > l_block_size lb then l_block_size lb else rem);
               p' = pos_into lb p tmp
           in case mem_read blk 0 tmp of None \<Rightarrow> None
              | Some bs \<Rightarrow>
                  (if rem - tmp > 0
                   then map_option (\<lambda>(bs', p''). (bs @ bs', p'')) (lb_get_loop lb p' (rem - tmp))
                   else Some (bs, p'))))"
  by pat_completeness auto
termination
  by (relation "measure (\<lambda>(lb, p, rem). l_first lb + length (l_blocks lb) - p_block p)")
    (auto simp: node_buf_def node_exists_def pos_into_def split: if_splits)

function lb_put_loop :: "linked_buffer \<Rightarrow> pos \<Rightarrow> byte list \<Rightarrow> (linked_buffer \<times> pos) option" where
  "lb_put_loop lb p bytes =
     (case node_buf lb (Suc (p_block p)) of None \<Rightarrow> None
      | Some blk \<Rightarrow>
          (let tmp = (if length bytes > l_block_size lb then l_block_size lb else length bytes);
               p' = pos_into lb p tmp
           in case mem_write blk 0 (take tmp bytes) of None \<Rightarrow> None
              | Some blk' \<Rightarrow>
                  (let lb' = lb\<lparr>l_blocks := (l_blocks lb)[Suc (p_block p) - l_first lb := blk']\<rparr>
                   in if length bytes - tmp > 0 then lb_put_loop lb' p' (drop tmp bytes)
                      else Some (lb', p'))))"
  by pat_completeness auto
termination
  by (relation "measure (\<lambda>(lb, p, bytes). l_first lb + length (l_blocks lb) - p_block p)")
    (auto simp: node_buf_def node_exists_def pos_into_def split: if_splits)

declare lb_skip_loop.simps [simp del] lb_get_loop.simps [simp del] lb_put_loop.simps [simp del]

section \<open>Operations\<close>

definition pos_advance :: "pos \<Rightarrow> nat \<Rightarrow> pos" where
  "pos_advance p len = p\<lparr>p_curr_buf := p_curr_buf p + len, p_remaining := p_remaining p - len,
                         p_position := add32 (p_position p) len\<rparr>"

definition pos_moved :: "pos \<Rightarrow> nat \<Rightarrow> pos" where
  "pos_moved p len = p\<lparr>p_position := add32 (p_position p) len\<rparr>"

definition lb_set_mark :: "linked_buffer \<Rightarrow> linked_buffer" where
  "lb_set_mark lb = lb\<lparr>l_mark := l_current lb\<rparr>"

definition lb_unread :: "linked_buffer \<Rightarrow> nat" where
  "lb_unread lb = sub32 (p_position (l_limit lb)) (p_position (l_current lb))"

definition lb_skip :: "node_alloc \<Rightarrow> linked_buffer \<Rightarrow> nat \<Rightarrow> (bool \<times> linked_buffer) option" where
  "lb_skip alloc lb len =
     (if \<not> p_invalid (l_limit lb) \<and> lb_unread lb < len then Some (False, lb)
      else Option.bind (if p_invalid (l_limit lb) then lb_make_room alloc lb len else Some (True, lb))
        (\<lambda>(ok, lb). if \<not> ok then Some (False, lb) else
           (let cur = l_current lb; lb = lb\<lparr>l_mark := cur\<rparr> in
            if len < p_remaining cur then Some (True, lb\<lparr>l_current := pos_advance cur len\<rparr>)
            else map_option (\<lambda>p. (True, lb\<lparr>l_current := pos_moved p len\<rparr>))
                   (lb_skip_loop lb cur (len - p_remaining cur)))))"

definition lb_reset :: "linked_buffer \<Rightarrow> bool \<times> linked_buffer" where
  "lb_reset lb =
     (if p_invalid (l_mark lb) then (False, lb)
      else (True, lb\<lparr>l_current := l_mark lb, l_mark := l_current lb\<rparr>))"

definition lb_clear :: "linked_buffer \<Rightarrow> linked_buffer" where
  "lb_clear lb =
     (let lb = (if length (l_blocks lb) > 1 then lb\<lparr>l_blocks := take 1 (l_blocks lb)\<rparr> else lb);
          z = pos_new (l_first lb) 0 0 (l_block_size lb)
      in lb\<lparr>l_capacity := l_block_size lb, l_usable := l_block_size lb, l_zero := z, l_current := z,
            l_mark := set_invalid (l_mark lb), l_limit := set_invalid (l_limit lb)\<rparr>)"

definition lb_rewind :: "linked_buffer \<Rightarrow> linked_buffer" where
  "lb_rewind lb = lb\<lparr>l_mark := l_current lb, l_current := l_zero lb\<rparr>"

definition lb_flip :: "linked_buffer \<Rightarrow> bool \<times> linked_buffer" where
  "lb_flip lb =
     (if \<not> p_invalid (l_limit lb) then (False, lb)
      else (True, lb\<lparr>l_mark := set_invalid (l_mark lb), l_limit := l_current lb,
                     l_current := l_zero lb\<rparr>))"

text \<open>The loop of \<open>compact\<close> that frees the nodes before the new start.\<close>

fun lb_free_until :: "nat \<Rightarrow> linked_buffer \<Rightarrow> nat \<Rightarrow> linked_buffer option" where
  "lb_free_until 0 lb z = (if l_first lb = z then Some lb else None)"
| "lb_free_until (Suc fuel) lb z =
     (if l_first lb = z then Some lb
      else lb_free_until fuel
             ((list_pop_front lb)\<lparr>l_capacity := sub32 (l_capacity lb) (l_block_size lb)\<rparr>) z)"

definition lb_compact :: "linked_buffer \<Rightarrow> (bool \<times> linked_buffer) option" where
  "lb_compact lb =
     (if p_invalid (l_limit lb) then Some (False, lb)
      else (let cur = l_current lb; lim = l_limit lb;
                lb1 = (if p_position lim = p_position cur
                       then (let z = pos_new (p_block cur) 0 0 (l_block_size lb)
                             in lb\<lparr>l_zero := z, l_current := z\<rparr>)
                       else lb\<lparr>l_zero := pos_new (p_block cur) (p_curr_buf cur) 0 (p_remaining cur),
                               l_current := pos_new (p_block lim) (p_curr_buf lim)
                                  (sub32 (p_position lim) (p_position cur)) (p_remaining lim)\<rparr>)
            in map_option (\<lambda>lb2. (True, lb2\<lparr>l_usable :=
                     sub32 (l_capacity lb2) (l_block_size lb2 - p_remaining (l_zero lb2)),
                     l_mark := set_invalid (l_mark lb2), l_limit := set_invalid (l_limit lb2)\<rparr>))
                 (lb_free_until (length (l_blocks lb)) lb1 (p_block (l_zero lb1)))))"

definition lb_remaining :: "linked_buffer \<Rightarrow> nat" where
  "lb_remaining lb = (if p_invalid (l_limit lb) then INVALID_VALUE else lb_unread lb)"

definition lb_data_length :: "linked_buffer \<Rightarrow> nat" where
  "lb_data_length lb =
     (if \<not> p_invalid (l_limit lb) then INVALID_VALUE else p_position (l_current lb))"

definition lb_get :: "linked_buffer \<Rightarrow> nat \<Rightarrow> (byte list option \<times> linked_buffer) option" where
  "lb_get lb len =
     (if p_invalid (l_limit lb) \<or> lb_unread lb < len then Some (None, lb)
      else (let cur = l_current lb in
            if len < p_remaining cur
            then Option.bind (node_buf lb (p_block cur)) (\<lambda>blk.
                   map_option (\<lambda>bs. (Some bs, lb\<lparr>l_current := pos_advance cur len\<rparr>))
                     (mem_read blk (p_curr_buf cur) len))
            else Option.bind (node_buf lb (p_block cur)) (\<lambda>blk.
                   Option.bind (mem_read blk (p_curr_buf cur) (p_remaining cur)) (\<lambda>bs.
                     map_option (\<lambda>(bs', p). (Some (bs @ bs'), lb\<lparr>l_current := pos_moved p len\<rparr>))
                       (lb_get_loop lb cur (len - p_remaining cur))))))"

definition lb_put :: "node_alloc \<Rightarrow> linked_buffer \<Rightarrow> byte list \<Rightarrow> (bool \<times> linked_buffer) option" where
  "lb_put alloc lb bytes =
     (let len = length bytes in
      if \<not> p_invalid (l_limit lb) then Some (False, lb)
      else Option.bind (lb_make_room alloc lb len) (\<lambda>(ok, lb).
        if \<not> ok then Some (False, lb) else
          (let cur = l_current lb; i = p_block cur - l_first lb in
           Option.bind (node_buf lb (p_block cur)) (\<lambda>blk.
             if len < p_remaining cur
             then map_option (\<lambda>blk'. (True, lb\<lparr>l_blocks := (l_blocks lb)[i := blk'],
                                               l_current := pos_advance cur len\<rparr>))
                    (mem_write blk (p_curr_buf cur) bytes)
             else Option.bind (mem_write blk (p_curr_buf cur) (take (p_remaining cur) bytes)) (\<lambda>blk'.
                    map_option (\<lambda>(lb', p). (True, lb'\<lparr>l_current := pos_moved p len\<rparr>))
                      (lb_put_loop (lb\<lparr>l_blocks := (l_blocks lb)[i := blk']\<rparr>) cur
                         (drop (p_remaining cur) bytes)))))))"

text \<open>\<open>direct_get\<close>: the address handed out (block and offset) and \<open>limit_length\<close>.\<close>

definition lb_direct_get :: "linked_buffer \<Rightarrow> ((nat \<times> nat) \<times> nat) option" where
  "lb_direct_get lb =
     (if p_invalid (l_limit lb) then None
      else Some ((p_block (l_current lb), p_curr_buf (l_current lb)),
             if p_block (l_current lb) = p_block (l_limit lb) then lb_unread lb
             else p_remaining (l_current lb)))"

definition lb_commit_get :: "linked_buffer \<Rightarrow> nat \<times> nat \<Rightarrow> nat \<Rightarrow> (bool \<times> linked_buffer) option" where
  "lb_commit_get lb ptr len =
     (let cur = l_current lb;
          moved = cur\<lparr>p_position := add32 (p_position cur) len, p_curr_buf := p_curr_buf cur + len,
                      p_remaining := sub32 (p_remaining cur) len\<rparr>
      in if p_invalid (l_limit lb) \<or> (p_block cur, p_curr_buf cur) \<noteq> ptr then Some (False, lb)
         else if p_block cur = p_block (l_limit lb)
         then (if add32 (p_position cur) len > p_position (l_limit lb) then Some (False, lb)
               else Some (True, lb\<lparr>l_current := moved\<rparr>))
         else if p_remaining cur < len then Some (False, lb)
         else if p_remaining cur = len
         then (if node_exists lb (Suc (p_block cur))
               then Some (True, lb\<lparr>l_current :=
                      cur\<lparr>p_block := Suc (p_block cur), p_curr_buf := 0,
                          p_remaining := l_block_size lb,
                          p_position := add32 (p_position cur) len\<rparr>\<rparr>)
               else None)
         else Some (True, lb\<lparr>l_current := moved\<rparr>))"

text \<open>Integers: the same code as in the contiguous buffer, over this class's \<open>get\<close> and \<open>put\<close>.\<close>

definition lb_get_u8 :: "linked_buffer \<Rightarrow> (byte option \<times> linked_buffer) option" where
  "lb_get_u8 lb = map_option (\<lambda>(r, lb'). (map_option le_word r, lb')) (lb_get lb 1)"

definition lb_get_u16 :: "linked_buffer \<Rightarrow> bool \<Rightarrow> (u16 option \<times> linked_buffer) option" where
  "lb_get_u16 lb e = map_option (\<lambda>(r, lb'). (map_option (bytes_num_16 e) r, lb')) (lb_get lb 2)"

definition lb_get_u32 :: "linked_buffer \<Rightarrow> bool \<Rightarrow> (u32 option \<times> linked_buffer) option" where
  "lb_get_u32 lb e = map_option (\<lambda>(r, lb'). (map_option (bytes_num_32 e) r, lb')) (lb_get lb 4)"

definition lb_get_u64 :: "linked_buffer \<Rightarrow> bool \<Rightarrow> (u64 option \<times> linked_buffer) option" where
  "lb_get_u64 lb e = map_option (\<lambda>(r, lb'). (map_option (bytes_num_64 e) r, lb')) (lb_get lb 8)"

definition lb_put_u8 :: "node_alloc \<Rightarrow> linked_buffer \<Rightarrow> byte \<Rightarrow> (bool \<times> linked_buffer) option" where
  "lb_put_u8 alloc lb num = lb_put alloc lb (le_bytes 1 num)"

definition lb_put_u16 ::
    "node_alloc \<Rightarrow> linked_buffer \<Rightarrow> u16 \<Rightarrow> bool \<Rightarrow> (bool \<times> linked_buffer) option" where
  "lb_put_u16 alloc lb num e = lb_put alloc lb (num_bytes_16 e num)"

definition lb_put_u32 ::
    "node_alloc \<Rightarrow> linked_buffer \<Rightarrow> u32 \<Rightarrow> bool \<Rightarrow> (bool \<times> linked_buffer) option" where
  "lb_put_u32 alloc lb num e = lb_put alloc lb (num_bytes_32 e num)"

definition lb_put_u64 ::
    "node_alloc \<Rightarrow> linked_buffer \<Rightarrow> u64 \<Rightarrow> bool \<Rightarrow> (bool \<times> linked_buffer) option" where
  "lb_put_u64 alloc lb num e = lb_put alloc lb (num_bytes_64 e num)"

definition lb_peek :: "(linked_buffer \<Rightarrow> ('a option \<times> linked_buffer) option) \<Rightarrow> linked_buffer
    \<Rightarrow> ('a option \<times> linked_buffer) option" where
  "lb_peek getter lb =
     map_option (\<lambda>(r, lb'). case r of None \<Rightarrow> (None, lb')
                 | Some x \<Rightarrow> (Some x, lb'\<lparr>l_current := l_current lb\<rparr>)) (getter lb)"

definition lb_peek_u8 :: "linked_buffer \<Rightarrow> (byte option \<times> linked_buffer) option" where
  "lb_peek_u8 = lb_peek lb_get_u8"

definition lb_peek_u16 :: "linked_buffer \<Rightarrow> bool \<Rightarrow> (u16 option \<times> linked_buffer) option" where
  "lb_peek_u16 lb e = lb_peek (\<lambda>lb. lb_get_u16 lb e) lb"

definition lb_peek_u32 :: "linked_buffer \<Rightarrow> bool \<Rightarrow> (u32 option \<times> linked_buffer) option" where
  "lb_peek_u32 lb e = lb_peek (\<lambda>lb. lb_get_u32 lb e) lb"

definition lb_peek_u64 :: "linked_buffer \<Rightarrow> bool \<Rightarrow> (u64 option \<times> linked_buffer) option" where
  "lb_peek_u64 lb e = lb_peek (\<lambda>lb. lb_get_u64 lb e) lb"

text \<open>
  \<open>get(linked_buffer& buf, length)\<close>: the unread bytes go straight into another buffer, one
  \<open>put\<close> per block, whose results the code drops. The two buffers are different objects: a buffer
  is never both readable and writable, so the call on itself returns at a guard.
\<close>

function lb_move_loop :: "node_alloc \<Rightarrow> linked_buffer \<Rightarrow> linked_buffer \<Rightarrow> pos \<Rightarrow> nat
    \<Rightarrow> (linked_buffer \<times> pos) option" where
  "lb_move_loop alloc lb buf p rem =
     (case node_buf lb (Suc (p_block p)) of None \<Rightarrow> None
      | Some blk \<Rightarrow>
          (let tmp = (if rem > l_block_size lb then l_block_size lb else rem);
               p' = pos_into lb p tmp
           in case mem_read blk 0 tmp of None \<Rightarrow> None
              | Some bs \<Rightarrow> (case lb_put alloc buf bs of None \<Rightarrow> None
                  | Some (ok, buf') \<Rightarrow>
                      (if rem - tmp > 0 then lb_move_loop alloc lb buf' p' (rem - tmp)
                       else Some (buf', p')))))"
  by pat_completeness auto
termination
  by (relation "measure (\<lambda>(alloc, lb, buf, p, rem). l_first lb + length (l_blocks lb) - p_block p)")
    (auto simp: node_buf_def node_exists_def pos_into_def split: if_splits)

declare lb_move_loop.simps [simp del]

definition lb_get_to :: "node_alloc \<Rightarrow> linked_buffer \<Rightarrow> linked_buffer \<Rightarrow> nat
    \<Rightarrow> (bool \<times> linked_buffer \<times> linked_buffer) option" where
  "lb_get_to alloc lb buf len =
     (if p_invalid (l_limit lb) \<or> lb_unread lb < len then Some (False, lb, buf)
      else if \<not> p_invalid (l_limit buf) then Some (False, lb, buf)
      else Option.bind (lb_make_room alloc buf len) (\<lambda>(ok, buf).
        if \<not> ok then Some (False, lb, buf)
        else (let cur = l_current lb in
          Option.bind (node_buf lb (p_block cur)) (\<lambda>blk.
            if len < p_remaining cur
            then Option.bind (mem_read blk (p_curr_buf cur) len) (\<lambda>bs.
                   map_option (\<lambda>(_, buf'). (True, lb\<lparr>l_current := pos_advance cur len\<rparr>, buf'))
                     (lb_put alloc buf bs))
            else Option.bind (mem_read blk (p_curr_buf cur) (p_remaining cur)) (\<lambda>bs.
                   Option.bind (lb_put alloc buf bs) (\<lambda>(_, buf').
                     map_option (\<lambda>(buf'', p). (True, lb\<lparr>l_current := pos_moved p len\<rparr>, buf''))
                       (lb_move_loop alloc lb buf' cur (len - p_remaining cur))))))))"

definition lb_put_from :: "node_alloc \<Rightarrow> linked_buffer \<Rightarrow> linked_buffer \<Rightarrow> nat
    \<Rightarrow> (bool \<times> linked_buffer \<times> linked_buffer) option" where
  "lb_put_from alloc lb buf len =
     map_option (\<lambda>(ok, buf', lb'). (ok, lb', buf')) (lb_get_to alloc buf lb len)"

definition lb_put_all :: "node_alloc \<Rightarrow> linked_buffer \<Rightarrow> linked_buffer
    \<Rightarrow> (bool \<times> linked_buffer \<times> linked_buffer) option" where
  "lb_put_all alloc lb buf = lb_put_from alloc lb buf (lb_remaining buf)"

definition lb_get_all :: "node_alloc \<Rightarrow> linked_buffer \<Rightarrow> linked_buffer
    \<Rightarrow> (bool \<times> linked_buffer \<times> linked_buffer) option" where
  "lb_get_all alloc lb buf = lb_get_to alloc lb buf (lb_remaining lb)"

section \<open>The chain as one flat memory\<close>

definition lb_flat :: "linked_buffer \<Rightarrow> byte list" where
  "lb_flat lb = concat (l_blocks lb)"

definition lb_total :: "linked_buffer \<Rightarrow> nat" where
  "lb_total lb = length (l_blocks lb) * l_block_size lb"

definition lb_blocks_ok :: "linked_buffer \<Rightarrow> bool" where
  "lb_blocks_ok lb \<longleftrightarrow> 0 < l_block_size lb \<and> (\<forall>b\<in>set (l_blocks lb). length b = l_block_size lb)"

text \<open>The flat address of a cursor, and that it points into a block consistently.\<close>

definition pos_addr :: "linked_buffer \<Rightarrow> pos \<Rightarrow> nat" where
  "pos_addr lb p = (p_block p - l_first lb) * l_block_size lb + p_curr_buf p"

definition pos_in :: "linked_buffer \<Rightarrow> pos \<Rightarrow> bool" where
  "pos_in lb p \<longleftrightarrow> node_exists lb (p_block p) \<and>
     p_curr_buf p + p_remaining p = l_block_size lb \<and> \<not> p_invalid p"

lemma lb_flat_length: "lb_blocks_ok lb \<Longrightarrow> length (lb_flat lb) = lb_total lb"
  by (simp add: lb_blocks_ok_def lb_flat_def lb_total_def length_concat_blocks)

lemma block_start_exists:
  assumes "lb_blocks_ok lb" and "l_first lb \<le> i" and "(i - l_first lb) * l_block_size lb < lb_total lb"
  shows "node_exists lb i"
  using assms by (auto simp: lb_blocks_ok_def lb_total_def node_exists_def)

lemma node_buf_Some:
  "node_exists lb i \<Longrightarrow> node_buf lb i = Some (l_blocks lb ! (i - l_first lb))"
  by (simp add: node_buf_def)

lemma block_length:
  "lb_blocks_ok lb \<Longrightarrow> node_exists lb i \<Longrightarrow>
   length (l_blocks lb ! (i - l_first lb)) = l_block_size lb"
  by (auto simp: lb_blocks_ok_def node_exists_def)

text \<open>Reading inside one block.\<close>

lemma node_read:
  assumes "lb_blocks_ok lb" and "node_exists lb i" and "c + n \<le> l_block_size lb"
  shows "mem_read (l_blocks lb ! (i - l_first lb)) c n =
           Some (take n (drop ((i - l_first lb) * l_block_size lb + c) (lb_flat lb)))"
proof -
  have "i - l_first lb < length (l_blocks lb)" using assms(2) by (auto simp: node_exists_def)
  with assms(1,3) have "take n (drop c (l_blocks lb ! (i - l_first lb))) =
      take n (drop ((i - l_first lb) * l_block_size lb + c) (lb_flat lb))"
    unfolding lb_flat_def lb_blocks_ok_def by (intro block_of_concat) auto
  with assms(3) block_length [OF assms(1,2)] show ?thesis by (simp add: mem_read_ok)
qed

text \<open>Writing inside one block.\<close>

definition lb_set_block :: "linked_buffer \<Rightarrow> nat \<Rightarrow> byte list \<Rightarrow> linked_buffer" where
  "lb_set_block lb i blk = lb\<lparr>l_blocks := (l_blocks lb)[i - l_first lb := blk]\<rparr>"

lemma node_write:
  assumes ok: "lb_blocks_ok lb" and ex: "node_exists lb i" and c: "c + length xs \<le> l_block_size lb"
  defines "a \<equiv> (i - l_first lb) * l_block_size lb + c"
  obtains blk where "mem_write (l_blocks lb ! (i - l_first lb)) c xs = Some blk"
    "length blk = l_block_size lb" "lb_blocks_ok (lb_set_block lb i blk)"
    "lb_flat (lb_set_block lb i blk) = take a (lb_flat lb) @ xs @ drop (a + length xs) (lb_flat lb)"
proof -
  let ?b = "l_blocks lb ! (i - l_first lb)"
  let ?blk = "take c ?b @ xs @ drop (c + length xs) ?b"
  have len: "length ?b = l_block_size lb" by (rule block_length [OF ok ex])
  have "mem_write ?b c xs = Some ?blk" using c len by (simp add: mem_write_ok)
  moreover have lblk: "length ?blk = l_block_size lb" using c len by simp
  moreover have "lb_blocks_ok (lb_set_block lb i ?blk)"
    using ok lblk set_update_subset_insert [of "l_blocks lb" "i - l_first lb" ?blk]
    by (auto simp: lb_blocks_ok_def lb_set_block_def)
  moreover have "lb_flat (lb_set_block lb i ?blk) =
      take a (lb_flat lb) @ xs @ drop (a + length xs) (lb_flat lb)"
  proof -
    have "i - l_first lb < length (l_blocks lb)" using ex by (auto simp: node_exists_def)
    with ok c show ?thesis
      unfolding a_def lb_flat_def lb_set_block_def lb_blocks_ok_def
      by simp (intro concat_write_block, auto)
  qed
  ultimately show thesis by (rule that)
qed

section \<open>The loops over the chain\<close>

lemma pos_into_addr:
  "l_first lb \<le> Suc (p_block p) \<Longrightarrow>
   pos_addr lb (pos_into lb p tmp) = (Suc (p_block p) - l_first lb) * l_block_size lb + tmp"
  by (simp add: pos_addr_def pos_into_def)

lemma lb_get_loop_spec:
  assumes "lb_blocks_ok lb" "l_first lb \<le> p_block p" "\<not> p_invalid p"
    and "(Suc (p_block p) - l_first lb) * l_block_size lb + rem < lb_total lb"
  shows "\<exists>p'. lb_get_loop lb p rem =
      Some (take rem (drop ((Suc (p_block p) - l_first lb) * l_block_size lb) (lb_flat lb)), p') \<and>
      pos_in lb p' \<and> p_position p' = p_position p \<and>
      pos_addr lb p' = (Suc (p_block p) - l_first lb) * l_block_size lb + rem"
  using assms
proof (induction lb p rem rule: lb_get_loop.induct)
  case (1 lb p rem)
  let ?i = "Suc (p_block p)" and ?n = "l_block_size lb"
  let ?s = "(?i - l_first lb) * ?n"
  have ex: "node_exists lb ?i"
    using "1.prems" by (intro block_start_exists) auto
  note buf = node_buf_Some [OF ex]
  show ?case
  proof (cases "rem > ?n")
    case False
    then have "mem_read (l_blocks lb ! (?i - l_first lb)) 0 rem = Some (take rem (drop ?s (lb_flat lb)))"
      using node_read [OF "1.prems"(1) ex, of 0 rem] by simp
    then have "lb_get_loop lb p rem = Some (take rem (drop ?s (lb_flat lb)), pos_into lb p rem)"
      using False buf by (simp add: lb_get_loop.simps [of lb p rem])
    then show ?thesis
      using False ex "1.prems" by (auto simp: pos_in_def pos_into_def pos_addr_def)
  next
    case True
    let ?p = "pos_into lb p ?n"
    have s: "(Suc (p_block ?p) - l_first lb) * ?n = ?s + ?n" "l_first lb \<le> p_block ?p"
      using "1.prems"(2) by (simp_all add: pos_into_def Suc_diff_le)
    have pp: "p_position ?p = p_position p" "\<not> p_invalid ?p"
      using "1.prems"(3) by (simp_all add: pos_into_def)
    have rd: "mem_read (l_blocks lb ! (?i - l_first lb)) 0 ?n = Some (take ?n (drop ?s (lb_flat lb)))"
      using node_read [OF "1.prems"(1) ex, of 0 ?n] by simp
    have "\<exists>p'. lb_get_loop lb ?p (rem - ?n) =
        Some (take (rem - ?n) (drop (?s + ?n) (lb_flat lb)), p') \<and>
        pos_in lb p' \<and> p_position p' = p_position p \<and> pos_addr lb p' = ?s + ?n + (rem - ?n)"
      using "1.IH" [OF buf refl refl, of "take ?n (drop ?s (lb_flat lb))"] True "1.prems" s pp rd
      by simp
    then obtain p' where p': "lb_get_loop lb ?p (rem - ?n) =
        Some (take (rem - ?n) (drop (?s + ?n) (lb_flat lb)), p')"
        "pos_in lb p'" "p_position p' = p_position p" "pos_addr lb p' = ?s + rem"
      using True by auto
    have "take ?n (drop ?s (lb_flat lb)) @ take (rem - ?n) (drop (?s + ?n) (lb_flat lb)) =
        take rem (drop ?s (lb_flat lb))"
      using True take_add [of ?n "rem - ?n" "drop ?s (lb_flat lb)"] by (simp add: add.commute)
    with True p' rd buf show ?thesis
      by (simp add: lb_get_loop.simps [of lb p rem])
  qed
qed

lemma lb_skip_loop_spec:
  assumes "lb_blocks_ok lb" "l_first lb \<le> p_block p" "\<not> p_invalid p"
    and "(Suc (p_block p) - l_first lb) * l_block_size lb + rem < lb_total lb"
  shows "\<exists>p'. lb_skip_loop lb p rem = Some p' \<and> pos_in lb p' \<and> p_position p' = p_position p \<and>
      pos_addr lb p' = (Suc (p_block p) - l_first lb) * l_block_size lb + rem"
  using assms
proof (induction lb p rem rule: lb_skip_loop.induct)
  case (1 lb p rem)
  let ?i = "Suc (p_block p)" and ?n = "l_block_size lb"
  have ex: "node_exists lb ?i"
    using "1.prems" by (intro block_start_exists) auto
  show ?case
  proof (cases "rem > ?n")
    case False
    with ex "1.prems" show ?thesis
      by (simp add: lb_skip_loop.simps [of lb p rem] pos_in_def pos_into_def pos_addr_def)
  next
    case True
    let ?p = "pos_into lb p ?n"
    have s: "(Suc (p_block ?p) - l_first lb) * ?n = (?i - l_first lb) * ?n + ?n"
      "l_first lb \<le> p_block ?p" "p_position ?p = p_position p" "\<not> p_invalid ?p"
      using "1.prems"(2,3) by (simp_all add: pos_into_def Suc_diff_le)
    then show ?thesis
      using "1.IH" [OF ex refl refl] True "1.prems" ex
      by (simp add: lb_skip_loop.simps [of lb p rem] Let_def)
  qed
qed

lemma lb_put_loop_spec:
  assumes "lb_blocks_ok lb" "l_first lb \<le> p_block p" "\<not> p_invalid p"
    and "(Suc (p_block p) - l_first lb) * l_block_size lb + length bytes < lb_total lb"
  shows "\<exists>bl p'. lb_put_loop lb p bytes = Some (lb\<lparr>l_blocks := bl\<rparr>, p') \<and>
      length bl = length (l_blocks lb) \<and> lb_blocks_ok (lb\<lparr>l_blocks := bl\<rparr>) \<and>
      concat bl = take ((Suc (p_block p) - l_first lb) * l_block_size lb) (lb_flat lb) @ bytes @
        drop ((Suc (p_block p) - l_first lb) * l_block_size lb + length bytes) (lb_flat lb) \<and>
      pos_in lb p' \<and> p_position p' = p_position p \<and>
      pos_addr lb p' = (Suc (p_block p) - l_first lb) * l_block_size lb + length bytes"
  using assms
proof (induction lb p bytes rule: lb_put_loop.induct)
  case (1 lb p bytes)
  let ?i = "Suc (p_block p)" and ?n = "l_block_size lb"
  let ?s = "(?i - l_first lb) * ?n"
  have ex: "node_exists lb ?i"
    using "1.prems" by (intro block_start_exists) auto
  note buf = node_buf_Some [OF ex]
  show ?case
  proof (cases "length bytes > ?n")
    case False
    then obtain blk where "mem_write (l_blocks lb ! (?i - l_first lb)) 0 bytes = Some blk"
        "lb_blocks_ok (lb_set_block lb ?i blk)"
        "lb_flat (lb_set_block lb ?i blk) = take ?s (lb_flat lb) @ bytes @
           drop (?s + length bytes) (lb_flat lb)"
      using node_write [OF "1.prems"(1) ex, of 0 bytes] by auto
    with False buf ex "1.prems"(2,3) show ?thesis
      by (auto simp: lb_put_loop.simps [of lb p bytes] lb_set_block_def lb_flat_def pos_in_def
          pos_into_def pos_addr_def node_exists_def)
  next
    case True
    let ?p = "pos_into lb p ?n" and ?h = "take ?n bytes" and ?t = "drop ?n bytes"
    obtain blk where blk: "mem_write (l_blocks lb ! (?i - l_first lb)) 0 ?h = Some blk"
        "lb_blocks_ok (lb_set_block lb ?i blk)"
        "lb_flat (lb_set_block lb ?i blk) = take ?s (lb_flat lb) @ ?h @ drop (?s + ?n) (lb_flat lb)"
      using node_write [OF "1.prems"(1) ex, of 0 ?h] True by auto
    let ?lb = "lb_set_block lb ?i blk"
    have frame: "l_first ?lb = l_first lb" "l_block_size ?lb = ?n" "lb_total ?lb = lb_total lb"
        "\<And>p'. pos_addr ?lb p' = pos_addr lb p'" "\<And>p'. pos_in ?lb p' = pos_in lb p'"
        "length (l_blocks ?lb) = length (l_blocks lb)" "\<And>x. ?lb\<lparr>l_blocks := x\<rparr> = lb\<lparr>l_blocks := x\<rparr>"
      by (simp_all add: lb_set_block_def lb_total_def pos_addr_def pos_in_def node_exists_def)
    have s: "(Suc (p_block ?p) - l_first lb) * ?n = ?s + ?n" "l_first lb \<le> p_block ?p"
        "p_position ?p = p_position p" "\<not> p_invalid ?p"
      using "1.prems"(2,3) by (simp_all add: pos_into_def Suc_diff_le)
    have "?s + ?n \<le> length (lb_flat lb)"
      using "1.prems" True by (simp add: lb_flat_length)
    then have len: "length (take ?s (lb_flat lb) @ ?h) = ?s + ?n"
      using True by simp
    have flat: "take (?s + ?n) (lb_flat ?lb) = take ?s (lb_flat lb) @ ?h"
        "drop (?s + ?n + length ?t) (lb_flat ?lb) = drop (?s + length bytes) (lb_flat lb)"
      unfolding blk(3) append_assoc [symmetric] using len True by (simp_all add: add.commute)
    have join: "?h @ ?t @ zs = bytes @ zs" for zs
      by (simp flip: append_assoc)
    have "\<exists>bl p'. lb_put_loop ?lb ?p ?t = Some (?lb\<lparr>l_blocks := bl\<rparr>, p') \<and>
      length bl = length (l_blocks lb) \<and> lb_blocks_ok (?lb\<lparr>l_blocks := bl\<rparr>) \<and>
      concat bl = take (?s + ?n) (lb_flat ?lb) @ ?t @ drop (?s + ?n + length ?t) (lb_flat ?lb) \<and>
      pos_in lb p' \<and> p_position p' = p_position p \<and> pos_addr lb p' = ?s + ?n + length ?t"
      using "1.IH" [OF buf refl refl, of blk ?lb] True "1.prems" s blk(1,2) frame
      by (simp add: lb_set_block_def)
    then obtain bl p' where rec: "lb_put_loop ?lb ?p ?t = Some (lb\<lparr>l_blocks := bl\<rparr>, p')"
        "length bl = length (l_blocks lb)" "lb_blocks_ok (lb\<lparr>l_blocks := bl\<rparr>)"
        "concat bl = take (?s + ?n) (lb_flat ?lb) @ ?t @ drop (?s + ?n + length ?t) (lb_flat ?lb)"
        "pos_in lb p'" "p_position p' = p_position p" "pos_addr lb p' = ?s + ?n + length ?t"
      unfolding frame(7) by blast
    from True buf blk(1) rec(1) have "lb_put_loop lb p bytes = Some (lb\<lparr>l_blocks := bl\<rparr>, p')"
      by (simp add: lb_put_loop.simps [of lb p bytes] lb_set_block_def)
    moreover have "concat bl = take ?s (lb_flat lb) @ bytes @ drop (?s + length bytes) (lb_flat lb)"
      unfolding rec(4) flat append_assoc join ..
    moreover have "pos_addr lb p' = ?s + length bytes" using rec(7) True by simp
    ultimately show ?thesis using rec(2,3,5,6) by blast
  qed
qed

section \<open>Invariant\<close>

text \<open>
  A cursor in use lies in a block of the chain, its address is its position counted from the
  start cursor, and at least one more byte follows it: the extra byte that \<open>reserve\<close> adds.
\<close>

definition pos_at :: "linked_buffer \<Rightarrow> pos \<Rightarrow> bool" where
  "pos_at lb p \<longleftrightarrow> pos_in lb p \<and> pos_addr lb p = p_curr_buf (l_zero lb) + p_position p \<and>
     pos_addr lb p < lb_total lb"

definition lb_inv :: "linked_buffer \<Rightarrow> bool" where
  "lb_inv lb \<longleftrightarrow>
     lb_blocks_ok lb \<and> l_capacity lb = lb_total lb \<and> lb_total lb < INVALID_VALUE \<and>
     l_usable lb + p_curr_buf (l_zero lb) = lb_total lb \<and>
     p_block (l_zero lb) = l_first lb \<and> p_position (l_zero lb) = 0 \<and>
     pos_at lb (l_zero lb) \<and> pos_at lb (l_current lb) \<and>
     (\<not> p_invalid (l_mark lb) \<longrightarrow> pos_at lb (l_mark lb)) \<and>
     (\<not> p_invalid (l_limit lb) \<longrightarrow>
        pos_at lb (l_limit lb) \<and> p_position (l_current lb) \<le> p_position (l_limit lb) \<and>
        (\<not> p_invalid (l_mark lb) \<longrightarrow> p_position (l_mark lb) \<le> p_position (l_limit lb)))"

definition lb_chan :: "linked_buffer \<Rightarrow> channel" where
  "lb_chan lb =
     (if p_invalid (l_limit lb)
      then Writing (take (p_position (l_current lb)) (drop (p_curr_buf (l_zero lb)) (lb_flat lb)))
      else Reading (take (p_position (l_limit lb) - p_position (l_current lb))
                      (drop (pos_addr lb (l_current lb)) (lb_flat lb))))"

definition node_alloc_ok :: "node_alloc \<Rightarrow> nat \<Rightarrow> bool" where
  "node_alloc_ok alloc n \<longleftrightarrow> (\<forall>i m. alloc i = Some m \<longrightarrow> length m = n)"

definition lb_fits :: "linked_buffer \<Rightarrow> nat \<Rightarrow> bool" where
  "lb_fits lb n \<longleftrightarrow>
     p_curr_buf (l_zero lb) + p_position (l_current lb) + n + 1 + l_block_size lb \<le> INVALID_VALUE"

lemma pos_at_position:
  "lb_inv lb \<Longrightarrow> pos_at lb p \<Longrightarrow> p_position p < l_usable lb \<and> p_position p < two32"
  using INVALID_less_two32 by (auto simp: lb_inv_def pos_at_def)

text \<open>The chain after more blocks were linked to its end.\<close>

definition lb_grow :: "linked_buffer \<Rightarrow> byte list list \<Rightarrow> linked_buffer" where
  "lb_grow lb extra =
     lb\<lparr>l_blocks := l_blocks lb @ extra, l_capacity := l_capacity lb + length extra * l_block_size lb,
        l_usable := l_usable lb + length extra * l_block_size lb\<rparr>"

lemma lb_grow_fields [simp]:
  "l_current (lb_grow lb ex) = l_current lb" "l_zero (lb_grow lb ex) = l_zero lb"
  "l_mark (lb_grow lb ex) = l_mark lb" "l_limit (lb_grow lb ex) = l_limit lb"
  "l_block_size (lb_grow lb ex) = l_block_size lb" "l_first (lb_grow lb ex) = l_first lb"
  "l_blocks (lb_grow lb ex) = l_blocks lb @ ex" "lb_grow lb [] = lb"
  "l_usable (lb_grow lb ex) = l_usable lb + length ex * l_block_size lb"
  "l_capacity (lb_grow lb ex) = l_capacity lb + length ex * l_block_size lb"
  "pos_addr (lb_grow lb ex) p = pos_addr lb p"
  by (simp_all add: lb_grow_def pos_addr_def)

lemma lb_grow_total [simp]: "lb_total (lb_grow lb ex) = lb_total lb + length ex * l_block_size lb"
  by (simp add: lb_total_def algebra_simps)

lemma lb_grow_pos_at: "pos_at lb p \<Longrightarrow> pos_at (lb_grow lb ex) p"
  by (auto simp: pos_at_def pos_in_def node_exists_def)

lemma lb_grow_inv:
  assumes "lb_inv lb" "\<forall>b\<in>set ex. length b = l_block_size lb"
    and "lb_total lb + length ex * l_block_size lb < INVALID_VALUE"
  shows "lb_inv (lb_grow lb ex)"
  using assms by (auto simp: lb_inv_def lb_grow_pos_at lb_blocks_ok_def)

lemma lb_grow_chan: "lb_inv lb \<Longrightarrow> lb_chan (lb_grow lb ex) = lb_chan lb"
proof -
  assume inv: "lb_inv lb"
  then have len: "length (lb_flat lb) = lb_total lb" by (simp add: lb_inv_def lb_flat_length)
  have fl: "lb_flat (lb_grow lb ex) = lb_flat lb @ concat ex" by (simp add: lb_flat_def)
  have "pos_at lb (l_current lb)" "p_curr_buf (l_zero lb) \<le> lb_total lb"
    "\<not> p_invalid (l_limit lb) \<Longrightarrow> pos_at lb (l_limit lb)"
    using inv by (auto simp: lb_inv_def pos_at_def)
  then show ?thesis
    unfolding lb_chan_def fl using len by (auto simp: pos_at_def)
qed

lemma lb_grow_snoc:
  "(list_push_back lb node)\<lparr>l_capacity := l_capacity lb + l_block_size lb,
     l_usable := l_usable lb + l_block_size lb\<rparr> = lb_grow lb [node]"
  by (simp add: lb_grow_def list_push_back_def)

lemma lb_grow_grow: "lb_grow (lb_grow lb ex) ex' = lb_grow lb (ex @ ex')"
  by (simp add: lb_grow_def algebra_simps)

lemma lb_reserve_loop_spec:
  assumes "lb_inv lb" and "node_alloc_ok alloc (l_block_size lb)"
    and "p_curr_buf (l_zero lb) + sz + l_block_size lb \<le> INVALID_VALUE"
  shows "\<exists>r ex. lb_reserve_loop alloc lb sz = Some (r, lb_grow lb ex) \<and> lb_inv (lb_grow lb ex) \<and>
           (r \<longrightarrow> sz \<le> l_usable (lb_grow lb ex)) \<and> (\<not> r \<longrightarrow> (\<exists>i. alloc i = None))"
  using assms
proof (induction "sz - l_usable lb" arbitrary: lb rule: less_induct)
  case less
  show ?case
  proof (cases "l_usable lb < sz")
    case False
    with less.prems show ?thesis
      by (intro exI [of _ True] exI [of _ "[]"]) (simp add: lb_reserve_loop.simps)
  next
    case True
    show ?thesis
    proof (cases "alloc (l_first lb + length (l_blocks lb))")
      case None
      with True less.prems show ?thesis
        by (intro exI [of _ False] exI [of _ "[]"]) (auto simp: lb_reserve_loop.simps)
    next
      case (Some node)
      let ?lb = "lb_grow lb [node]"
      have bs: "0 < l_block_size lb" and us: "l_usable lb + p_curr_buf (l_zero lb) = lb_total lb"
        and cap: "l_capacity lb = lb_total lb"
        using less.prems(1) by (simp_all add: lb_inv_def lb_blocks_ok_def)
      have tot: "lb_total lb + l_block_size lb < INVALID_VALUE"
        using True us less.prems(3) by simp
      then have inv: "lb_inv ?lb"
        using less.prems Some by (intro lb_grow_inv) (auto simp: node_alloc_ok_def)
      have "add32 (l_capacity lb) (l_block_size lb) = l_capacity lb + l_block_size lb"
        "add32 (l_usable lb) (l_block_size lb) = l_usable lb + l_block_size lb"
        using tot us cap INVALID_less_two32 by (simp_all add: arith32)
      then have step: "lb_reserve_loop alloc lb sz = lb_reserve_loop alloc ?lb sz"
        using True Some lb_grow_snoc [of lb node] by (subst lb_reserve_loop.simps) simp
      have "sz - l_usable ?lb < sz - l_usable lb" using True bs by simp
      from less.hyps [OF this inv] less.prems have "\<exists>r ex.
        lb_reserve_loop alloc ?lb sz = Some (r, lb_grow ?lb ex) \<and> lb_inv (lb_grow ?lb ex) \<and>
        (r \<longrightarrow> sz \<le> l_usable (lb_grow ?lb ex)) \<and> (\<not> r \<longrightarrow> (\<exists>i. alloc i = None))"
        by simp
      then obtain r ex where
        "lb_reserve_loop alloc ?lb sz = Some (r, lb_grow ?lb ex)" "lb_inv (lb_grow ?lb ex)"
        "r \<longrightarrow> sz \<le> l_usable (lb_grow ?lb ex)" "\<not> r \<longrightarrow> (\<exists>i. alloc i = None)"
        by blast
      then show ?thesis
        by (intro exI [of _ r] exI [of _ "node # ex"]) (simp add: step lb_grow_grow)
    qed
  qed
qed

lemma lb_make_room_spec:
  assumes inv: "lb_inv lb" and al: "node_alloc_ok alloc (l_block_size lb)" and fits: "lb_fits lb n"
  shows "\<exists>r ex. lb_make_room alloc lb n = Some (r, lb_grow lb ex) \<and> lb_inv (lb_grow lb ex) \<and>
           (r \<longrightarrow> p_position (l_current lb) + n < l_usable (lb_grow lb ex)) \<and>
           (\<not> r \<longrightarrow> (\<exists>i. alloc i = None))"
proof -
  let ?sz = "p_position (l_current lb) + n"
  have adds: "add32 (p_position (l_current lb)) n = ?sz" "add32 ?sz 1 = ?sz + 1"
    using fits INVALID_less_two32 by (simp_all add: lb_fits_def arith32)
  have "p_curr_buf (l_zero lb) + (?sz + 1) + l_block_size lb \<le> INVALID_VALUE"
    using fits by (simp add: lb_fits_def)
  from lb_reserve_loop_spec [OF inv al this] obtain r ex where
    r: "lb_reserve_loop alloc lb (?sz + 1) = Some (r, lb_grow lb ex)" "lb_inv (lb_grow lb ex)"
      "r \<longrightarrow> ?sz + 1 \<le> l_usable (lb_grow lb ex)" "\<not> r \<longrightarrow> (\<exists>i. alloc i = None)" by blast
  show ?thesis
  proof (cases "l_usable lb < ?sz + 1")
    case True
    with r show ?thesis
      unfolding lb_make_room_def adds lb_reserve_def by (intro exI [of _ r] exI [of _ ex]) auto
  next
    case False
    with inv show ?thesis
      unfolding lb_make_room_def adds by (intro exI [of _ True] exI [of _ "[]"]) auto
  qed
qed

section \<open>Writing\<close>

lemma pos_at_frame:
  "l_first lb' = l_first lb \<Longrightarrow> length (l_blocks lb') = length (l_blocks lb) \<Longrightarrow>
   l_block_size lb' = l_block_size lb \<Longrightarrow> l_zero lb' = l_zero lb \<Longrightarrow> pos_at lb' p = pos_at lb p"
  by (simp add: pos_at_def pos_in_def pos_addr_def lb_total_def node_exists_def)

lemma lb_inv_store:
  assumes "lb_inv lb" "p_invalid (l_limit lb)" "length bl = length (l_blocks lb)"
    and "lb_blocks_ok (lb\<lparr>l_blocks := bl\<rparr>)" "pos_at lb p"
  shows "lb_inv (lb\<lparr>l_blocks := bl, l_current := p\<rparr>)"
proof -
  have "pos_at (lb\<lparr>l_blocks := bl, l_current := p\<rparr>) q = pos_at lb q" for q
    using assms(3) by (intro pos_at_frame) simp_all
  with assms show ?thesis by (simp add: lb_inv_def lb_blocks_ok_def lb_total_def)
qed

lemma store_extends:
  "z + q \<le> length f \<Longrightarrow>
   take (q + length b) (drop z (take (z + q) f @ b @ rest)) = take q (drop z f) @ b"
  by (simp add: drop_take)

text \<open>The step from the end of a block to the start of the next.\<close>

lemma next_block_start:
  "pos_in lb p \<Longrightarrow>
   (Suc (p_block p) - l_first lb) * l_block_size lb = pos_addr lb p + p_remaining p"
  by (auto simp: pos_in_def pos_addr_def node_exists_def Suc_diff_le)

lemma pos_moved_at:
  assumes "pos_at lb cur" "pos_in lb p" "p_position p = p_position cur"
    and "pos_addr lb p = pos_addr lb cur + len" "pos_addr lb cur + len < lb_total lb"
    and "lb_total lb < INVALID_VALUE"
  shows "pos_at lb (pos_moved p len)" "p_position (pos_moved p len) = p_position cur + len"
proof -
  have "p_position cur + len < two32"
    using assms INVALID_less_two32 by (simp add: pos_at_def)
  then have q: "p_position (pos_moved p len) = p_position cur + len"
    using assms(3) by (simp add: pos_moved_def arith32)
  then show "p_position (pos_moved p len) = p_position cur + len" .
  show "pos_at lb (pos_moved p len)"
    using assms q by (auto simp: pos_at_def pos_in_def pos_addr_def pos_moved_def)
qed

lemma pos_advance_at:
  assumes "pos_at lb cur" "len < p_remaining cur" "pos_addr lb cur + len < lb_total lb"
    and "lb_total lb < INVALID_VALUE"
  shows "pos_at lb (pos_advance cur len)" "p_position (pos_advance cur len) = p_position cur + len"
    and "pos_addr lb (pos_advance cur len) = pos_addr lb cur + len"
proof -
  have "p_position cur + len < two32"
    using assms INVALID_less_two32 by (simp add: pos_at_def)
  then have q: "p_position (pos_advance cur len) = p_position cur + len"
    by (simp add: pos_advance_def arith32)
  then show "p_position (pos_advance cur len) = p_position cur + len" .
  show "pos_at lb (pos_advance cur len)" "pos_addr lb (pos_advance cur len) = pos_addr lb cur + len"
    using assms q by (auto simp: pos_at_def pos_in_def pos_addr_def pos_advance_def)
qed

lemma lb_put_stores:
  assumes inv: "lb_inv lb" and lim: "p_invalid (l_limit lb)"
    and room: "p_position (l_current lb) + length bytes < l_usable lb"
    and mk: "lb_make_room alloc lb0 (length bytes) = Some (True, lb)" "p_invalid (l_limit lb0)"
  defines "a \<equiv> pos_addr lb (l_current lb)"
  shows "\<exists>bl p. lb_put alloc lb0 bytes = Some (True, lb\<lparr>l_blocks := bl, l_current := p\<rparr>) \<and>
           length bl = length (l_blocks lb) \<and> lb_blocks_ok (lb\<lparr>l_blocks := bl\<rparr>) \<and>
           concat bl = take a (lb_flat lb) @ bytes @ drop (a + length bytes) (lb_flat lb) \<and>
           pos_at lb p \<and> p_position p = p_position (l_current lb) + length bytes"
proof -
  let ?cur = "l_current lb" and ?len = "length bytes"
  let ?rem = "p_remaining ?cur"
  have ok: "lb_blocks_ok lb" and at: "pos_at lb ?cur" and tot: "lb_total lb < INVALID_VALUE"
    using inv by (simp_all add: lb_inv_def)
  have inb: "pos_in lb ?cur" and ex: "node_exists lb (p_block ?cur)"
    and cr: "p_curr_buf ?cur + ?rem = l_block_size lb"
    using at by (simp_all add: pos_at_def pos_in_def)
  have al: "a + ?len < lb_total lb"
    using inv at room by (auto simp: lb_inv_def pos_at_def a_def)
  have aeq: "(p_block ?cur - l_first lb) * l_block_size lb + p_curr_buf ?cur = a"
    by (simp add: a_def pos_addr_def)
  note buf = node_buf_Some [OF ex]
  show ?thesis
  proof (cases "?len < ?rem")
    case True
    then have "p_curr_buf ?cur + ?len \<le> l_block_size lb" using cr by simp
    from node_write [OF ok ex this, unfolded aeq] obtain blk where blk:
      "mem_write (l_blocks lb ! (p_block ?cur - l_first lb)) (p_curr_buf ?cur) bytes = Some blk"
      "lb_blocks_ok (lb_set_block lb (p_block ?cur) blk)"
      "lb_flat (lb_set_block lb (p_block ?cur) blk) =
         take a (lb_flat lb) @ bytes @ drop (a + ?len) (lb_flat lb)" by blast
    have adv: "pos_at lb (pos_advance ?cur ?len)"
      "p_position (pos_advance ?cur ?len) = p_position ?cur + ?len"
      using pos_advance_at [OF at True _ tot] al by (simp_all add: a_def)
    from True mk lim buf blk(1) have "lb_put alloc lb0 bytes =
        Some (True, lb\<lparr>l_blocks := (l_blocks lb)[p_block ?cur - l_first lb := blk],
                       l_current := pos_advance ?cur ?len\<rparr>)"
      by (simp add: lb_put_def)
    with blk(2,3) adv show ?thesis
      by (intro exI [of _ "(l_blocks lb)[p_block ?cur - l_first lb := blk]"]
          exI [of _ "pos_advance ?cur ?len"]) (simp add: lb_set_block_def lb_flat_def)
  next
    case False
    let ?h = "take ?rem bytes" and ?t = "drop ?rem bytes"
    have hl: "length ?h = ?rem" using False by simp
    then have "p_curr_buf ?cur + length ?h \<le> l_block_size lb" using cr by simp
    from node_write [OF ok ex this, unfolded aeq hl] obtain blk where blk:
      "mem_write (l_blocks lb ! (p_block ?cur - l_first lb)) (p_curr_buf ?cur) ?h = Some blk"
      "lb_blocks_ok (lb_set_block lb (p_block ?cur) blk)"
      "lb_flat (lb_set_block lb (p_block ?cur) blk) =
         take a (lb_flat lb) @ ?h @ drop (a + ?rem) (lb_flat lb)" by blast
    let ?lb = "lb_set_block lb (p_block ?cur) blk"
    have frame: "l_first ?lb = l_first lb" "l_block_size ?lb = l_block_size lb"
        "lb_total ?lb = lb_total lb" "\<And>p'. pos_addr ?lb p' = pos_addr lb p'"
        "\<And>p'. pos_in ?lb p' = pos_in lb p'" "length (l_blocks ?lb) = length (l_blocks lb)"
        "\<And>x. ?lb\<lparr>l_blocks := x\<rparr> = lb\<lparr>l_blocks := x\<rparr>"
      by (simp_all add: lb_set_block_def lb_total_def pos_addr_def pos_in_def node_exists_def)
    have start: "(Suc (p_block ?cur) - l_first ?lb) * l_block_size ?lb = a + ?rem"
      using next_block_start [OF inb] by (simp add: frame a_def)
    have pre: "l_first ?lb \<le> p_block ?cur" "\<not> p_invalid ?cur" "a + ?rem + length ?t < lb_total ?lb"
      using ex inb al False by (simp_all add: frame node_exists_def pos_in_def)
    from lb_put_loop_spec [OF blk(2) pre(1,2), unfolded start, OF pre(3)]
    obtain bl p' where rec: "lb_put_loop ?lb ?cur ?t = Some (lb\<lparr>l_blocks := bl\<rparr>, p')"
      "length bl = length (l_blocks lb)" "lb_blocks_ok (lb\<lparr>l_blocks := bl\<rparr>)"
      "concat bl = take (a + ?rem) (lb_flat ?lb) @ ?t @ drop (a + ?rem + length ?t) (lb_flat ?lb)"
      "pos_in lb p'" "p_position p' = p_position ?cur" "pos_addr lb p' = a + ?rem + length ?t"
      unfolding frame by blast
    have len: "length (take a (lb_flat lb) @ ?h) = a + ?rem"
      using al False ok by (simp add: lb_flat_length)
    have fl: "take (a + ?rem) (lb_flat ?lb) = take a (lb_flat lb) @ ?h"
      "drop (a + ?rem + length ?t) (lb_flat ?lb) = drop (a + ?len) (lb_flat lb)"
      unfolding blk(3) append_assoc [symmetric] using len False by (simp_all add: add.commute)
    have join: "?h @ ?t @ zs = bytes @ zs" for zs
      by (simp flip: append_assoc)
    have "concat bl = take a (lb_flat lb) @ bytes @ drop (a + ?len) (lb_flat lb)"
      unfolding rec(4) fl append_assoc join ..
    moreover have "pos_at lb (pos_moved p' ?len)"
      "p_position (pos_moved p' ?len) = p_position ?cur + ?len"
      using pos_moved_at [OF at rec(5,6) _ _ tot] rec(7) al False by (simp_all add: a_def)
    moreover from False mk lim buf blk(1) rec(1) have "lb_put alloc lb0 bytes =
        Some (True, lb\<lparr>l_blocks := bl, l_current := pos_moved p' ?len\<rparr>)"
      by (simp add: lb_put_def lb_set_block_def)
    ultimately show ?thesis using rec(2,3) by blast
  qed
qed

text \<open>What an append of \<open>n\<close> bytes leaves alone.\<close>

definition lb_after :: "linked_buffer \<Rightarrow> nat \<Rightarrow> linked_buffer \<Rightarrow> bool" where
  "lb_after lb n lb' \<longleftrightarrow>
     l_zero lb' = l_zero lb \<and> l_block_size lb' = l_block_size lb \<and> l_usable lb' = l_usable lb \<and>
     l_mark lb' = l_mark lb \<and> l_limit lb' = l_limit lb \<and>
     p_position (l_current lb') = p_position (l_current lb) + n"

lemma lb_after_trans: "lb_after a m b \<Longrightarrow> lb_after b n c \<Longrightarrow> lb_after a (m + n) c"
  by (simp add: lb_after_def)

lemma lb_put_appends:
  assumes inv: "lb_inv g" and ch: "lb_chan g = Writing xs"
    and room: "p_position (l_current g) + length bytes < l_usable g"
    and mk: "lb_make_room alloc lb (length bytes) = Some (True, g)" "p_invalid (l_limit lb)"
  shows "\<exists>lb'. lb_put alloc lb bytes = Some (True, lb') \<and> lb_inv lb' \<and>
           lb_chan lb' = Writing (xs @ bytes) \<and> lb_after g (length bytes) lb'"
proof -
  let ?a = "pos_addr g (l_current g)"
  have lim: "p_invalid (l_limit g)" using ch by (auto simp: lb_chan_def split: if_splits)
  from lb_put_stores [OF inv lim room mk] obtain bl p where put:
    "lb_put alloc lb bytes = Some (True, g\<lparr>l_blocks := bl, l_current := p\<rparr>)"
    "length bl = length (l_blocks g)" "lb_blocks_ok (g\<lparr>l_blocks := bl\<rparr>)"
    "concat bl = take ?a (lb_flat g) @ bytes @ drop (?a + length bytes) (lb_flat g)"
    "pos_at g p" "p_position p = p_position (l_current g) + length bytes"
    by blast
  let ?n = "g\<lparr>l_blocks := bl, l_current := p\<rparr>"
  have "lb_inv ?n" using put lim by (intro lb_inv_store [OF inv]) simp_all
  moreover have "lb_chan ?n = Writing (xs @ bytes)"
  proof -
    have a: "?a = p_curr_buf (l_zero g) + p_position (l_current g)" "?a < lb_total g"
      "length (lb_flat g) = lb_total g"
      using inv by (auto simp: lb_inv_def pos_at_def lb_flat_length)
    have "xs = take (p_position (l_current g)) (drop (p_curr_buf (l_zero g)) (lb_flat g))"
      using ch lim by (simp add: lb_chan_def)
    moreover have "lb_chan ?n = Writing (take (p_position (l_current g) + length bytes)
        (drop (p_curr_buf (l_zero g)) (concat bl)))"
      using lim put(6) by (simp add: lb_chan_def lb_flat_def)
    ultimately show ?thesis
      unfolding put(4) a(1) using a by (simp only: store_extends)
  qed
  moreover have "lb_after g (length bytes) ?n" using put(6) by (simp add: lb_after_def)
  ultimately show ?thesis using put(1) by blast
qed

text \<open>With room for the bytes, the allocator is not asked.\<close>

lemma lb_make_room_idle:
  assumes "lb_inv lb" "p_position (l_current lb) + n < l_usable lb"
  shows "lb_make_room alloc lb n = Some (True, lb)"
proof -
  have "p_position (l_current lb) + n + 1 < two32"
    using assms INVALID_less_two32 by (simp add: lb_inv_def)
  with assms(2) show ?thesis by (simp add: lb_make_room_def arith32)
qed

lemma lb_put_within:
  assumes "lb_inv lb" "lb_chan lb = Writing xs"
    and "p_position (l_current lb) + length bytes < l_usable lb"
  shows "\<exists>lb'. lb_put alloc lb bytes = Some (True, lb') \<and> lb_inv lb' \<and>
           lb_chan lb' = Writing (xs @ bytes) \<and> lb_after lb (length bytes) lb'"
proof -
  have "p_invalid (l_limit lb)" using assms(2) by (simp add: lb_chan_def split: if_splits)
  with lb_put_appends [OF assms lb_make_room_idle [OF assms(1,3)]] show ?thesis .
qed

lemma lb_put_spec:
  assumes inv: "lb_inv lb" and ch: "lb_chan lb = Writing xs"
    and al: "node_alloc_ok alloc (l_block_size lb)" and fits: "lb_fits lb (length bytes)"
  shows "(\<exists>lb'. lb_put alloc lb bytes = Some (True, lb') \<and> lb_inv lb' \<and>
            lb_chan lb' = Writing (xs @ bytes) \<and> l_zero lb' = l_zero lb \<and>
            l_block_size lb' = l_block_size lb \<and>
            p_position (l_current lb') = p_position (l_current lb) + length bytes) \<or>
         (\<exists>lb'. lb_put alloc lb bytes = Some (False, lb') \<and> lb_inv lb' \<and>
            lb_chan lb' = Writing xs \<and> l_block_size lb' = l_block_size lb \<and>
            l_current lb' = l_current lb \<and> (\<exists>i. alloc i = None))"
proof -
  have lim: "p_invalid (l_limit lb)" using ch by (auto simp: lb_chan_def split: if_splits)
  obtain r ex where mk: "lb_make_room alloc lb (length bytes) = Some (r, lb_grow lb ex)"
    "lb_inv (lb_grow lb ex)"
    "r \<longrightarrow> p_position (l_current lb) + length bytes < l_usable (lb_grow lb ex)"
    "\<not> r \<longrightarrow> (\<exists>i. alloc i = None)"
    using lb_make_room_spec [OF inv al fits] by blast
  let ?g = "lb_grow lb ex"
  have gch: "lb_chan ?g = Writing xs" using lb_grow_chan [OF inv] ch by simp
  show ?thesis
  proof (cases r)
    case False
    with mk lim gch show ?thesis by (intro disjI2 exI [of _ ?g]) (simp add: lb_put_def)
  next
    case True
    with mk gch lim show ?thesis
      using lb_put_appends [OF mk(2) gch, of bytes alloc lb] by (auto simp: lb_after_def)
  qed
qed

section \<open>Reading\<close>

lemma lb_inv_current:
  assumes "lb_inv lb" "pos_at lb p" "\<not> p_invalid (l_limit lb)"
    "p_position p \<le> p_position (l_limit lb)"
  shows "lb_inv (lb\<lparr>l_current := p\<rparr>)"
proof -
  have "pos_at (lb\<lparr>l_current := p\<rparr>) q = pos_at lb q" for q
    by (intro pos_at_frame) simp_all
  with assms show ?thesis by (simp add: lb_inv_def lb_blocks_ok_def lb_total_def)
qed

lemma lb_unread_eq:
  "lb_inv lb \<Longrightarrow> \<not> p_invalid (l_limit lb) \<Longrightarrow>
   lb_unread lb = p_position (l_limit lb) - p_position (l_current lb)"
  using pos_at_position [of lb "l_limit lb"]
  by (simp add: lb_unread_def lb_inv_def arith32)

lemma lb_chan_Reading:
  assumes "lb_inv lb" "lb_chan lb = Reading xs"
  shows "\<not> p_invalid (l_limit lb)" "length xs = lb_unread lb"
    and "xs = take (lb_unread lb) (drop (pos_addr lb (l_current lb)) (lb_flat lb))"
proof -
  show lim: "\<not> p_invalid (l_limit lb)" using assms(2) by (auto simp: lb_chan_def split: if_splits)
  then show xs: "xs = take (lb_unread lb) (drop (pos_addr lb (l_current lb)) (lb_flat lb))"
    using assms by (simp add: lb_chan_def lb_unread_eq)
  have "length (lb_flat lb) = lb_total lb" using assms(1) by (simp add: lb_inv_def lb_flat_length)
  with lim assms(1) show "length xs = lb_unread lb"
    unfolding xs by (auto simp: lb_unread_eq lb_inv_def pos_at_def)
qed

lemma lb_chan_Writing:
  "lb_chan lb = Writing xs \<longleftrightarrow> p_invalid (l_limit lb) \<and>
     xs = take (p_position (l_current lb)) (drop (p_curr_buf (l_zero lb)) (lb_flat lb))"
  by (auto simp: lb_chan_def)

lemma set_invalid_fields [simp]:
  "p_invalid (set_invalid p)" "p_position (set_invalid p) = p_position p"
  by (simp_all add: set_invalid_def)

text \<open>Moving the read cursor over the next \<open>n\<close> unread bytes.\<close>

lemma lb_read_moves:
  assumes inv: "lb_inv lb" and ch: "lb_chan lb = Reading xs" and n: "n \<le> length xs"
    and p: "pos_at lb p" "p_position p = p_position (l_current lb) + n"
  shows "lb_inv (lb\<lparr>l_current := p\<rparr>)" "lb_chan (lb\<lparr>l_current := p\<rparr>) = Reading (drop n xs)"
proof -
  note r = lb_chan_Reading [OF inv ch]
  have un: "lb_unread lb = p_position (l_limit lb) - p_position (l_current lb)"
    by (rule lb_unread_eq [OF inv r(1)])
  have "p_position (l_current lb) \<le> p_position (l_limit lb)" using inv r(1) by (simp add: lb_inv_def)
  then have le: "p_position p \<le> p_position (l_limit lb)" using n p(2) r(2) un by simp
  show "lb_inv (lb\<lparr>l_current := p\<rparr>)" by (rule lb_inv_current [OF inv p(1) r(1) le])
  have "pos_addr lb p = pos_addr lb (l_current lb) + n"
    using p inv by (simp add: pos_at_def lb_inv_def)
  moreover have "p_position (l_limit lb) - p_position p = lb_unread lb - n"
    using p(2) un by simp
  ultimately show "lb_chan (lb\<lparr>l_current := p\<rparr>) = Reading (drop n xs)"
    using r(1) unfolding r(3)
    by (simp add: lb_chan_def lb_flat_def pos_addr_def drop_take add.commute)
qed

lemma lb_get_takes:
  assumes inv: "lb_inv lb" and ch: "lb_chan lb = Reading xs" and n: "n \<le> length xs"
  shows "\<exists>p. lb_get lb n = Some (Some (take n xs), lb\<lparr>l_current := p\<rparr>) \<and> pos_at lb p \<and>
           p_position p = p_position (l_current lb) + n"
proof -
  let ?cur = "l_current lb"
  let ?a = "pos_addr lb ?cur" and ?rem = "p_remaining ?cur"
  note r = lb_chan_Reading [OF inv ch]
  have ok: "lb_blocks_ok lb" and at: "pos_at lb ?cur" and tot: "lb_total lb < INVALID_VALUE"
    using inv by (simp_all add: lb_inv_def)
  have inb: "pos_in lb ?cur" and ex: "node_exists lb (p_block ?cur)"
    and cr: "p_curr_buf ?cur + ?rem = l_block_size lb"
    using at by (simp_all add: pos_at_def pos_in_def)
  have al: "?a + n < lb_total lb"
    using inv r(1,2) n lb_unread_eq [OF inv r(1)] by (auto simp: lb_inv_def pos_at_def)
  have guard: "\<not> (p_invalid (l_limit lb) \<or> lb_unread lb < n)" using r(1,2) n by simp
  have xs: "take n xs = take n (drop ?a (lb_flat lb))"
    using n r(2) by (subst r(3)) (simp add: min_def)
  note buf = node_buf_Some [OF ex]
  have aeq: "(p_block ?cur - l_first lb) * l_block_size lb + p_curr_buf ?cur = ?a"
    by (simp add: pos_addr_def)
  show ?thesis
  proof (cases "n < ?rem")
    case True
    then have "p_curr_buf ?cur + n \<le> l_block_size lb" using cr by simp
    from node_read [OF ok ex this] True guard buf xs aeq
    have "lb_get lb n = Some (Some (take n xs), lb\<lparr>l_current := pos_advance ?cur n\<rparr>)"
      by (simp add: lb_get_def)
    with pos_advance_at [OF at True al tot] show ?thesis by blast
  next
    case False
    let ?m = "n - ?rem"
    have rd: "mem_read (l_blocks lb ! (p_block ?cur - l_first lb)) (p_curr_buf ?cur) ?rem =
        Some (take ?rem (drop ?a (lb_flat lb)))"
      using node_read [OF ok ex, of "p_curr_buf ?cur" ?rem] cr aeq by simp
    have start: "(Suc (p_block ?cur) - l_first lb) * l_block_size lb = ?a + ?rem"
      by (rule next_block_start [OF inb])
    have pre: "l_first lb \<le> p_block ?cur" "\<not> p_invalid ?cur" "?a + ?rem + ?m < lb_total lb"
      using ex inb al False by (simp_all add: node_exists_def pos_in_def)
    from lb_get_loop_spec [OF ok pre(1,2), unfolded start, OF pre(3)] obtain p' where
      rec: "lb_get_loop lb ?cur ?m = Some (take ?m (drop (?a + ?rem) (lb_flat lb)), p')"
        "pos_in lb p'" "p_position p' = p_position ?cur" "pos_addr lb p' = ?a + ?rem + ?m" by blast
    have join: "take ?rem (drop ?a (lb_flat lb)) @ take ?m (drop (?a + ?rem) (lb_flat lb)) = take n xs"
      using take_add [of ?rem ?m "drop ?a (lb_flat lb)"] False xs by (simp add: add.commute)
    have addr: "pos_addr lb p' = ?a + n" using rec(4) False by simp
    from False guard buf rd rec(1) join
    have "lb_get lb n = Some (Some (take n xs), lb\<lparr>l_current := pos_moved p' n\<rparr>)"
      by (simp add: lb_get_def)
    with pos_moved_at [OF at rec(2,3) addr al tot] show ?thesis by blast
  qed
qed

lemma lb_get_short:
  "lb_inv lb \<Longrightarrow> lb_chan lb = Reading xs \<Longrightarrow> length xs < n \<Longrightarrow> lb_get lb n = Some (None, lb)"
  by (simp add: lb_get_def lb_chan_Reading)

lemma lb_get_refused: "lb_chan lb = Writing xs \<Longrightarrow> lb_get lb n = Some (None, lb)"
  by (simp add: lb_get_def lb_chan_Writing)

lemma lb_put_refused:
  "lb_inv lb \<Longrightarrow> lb_chan lb = Reading xs \<Longrightarrow> lb_put alloc lb bytes = Some (False, lb)"
  by (simp add: lb_put_def lb_chan_Reading(1))

lemma lb_flip_reads:
  assumes inv: "lb_inv lb" and ch: "lb_chan lb = Writing xs"
  shows "\<exists>lb'. lb_flip lb = (True, lb') \<and> lb_inv lb' \<and> lb_chan lb' = Reading xs"
proof -
  let ?lb = "lb\<lparr>l_mark := set_invalid (l_mark lb), l_limit := l_current lb, l_current := l_zero lb\<rparr>"
  have at: "pos_at ?lb q = pos_at lb q" for q by (intro pos_at_frame) simp_all
  have z: "p_block (l_zero lb) = l_first lb" "p_position (l_zero lb) = 0" "pos_at lb (l_current lb)"
    using inv by (simp_all add: lb_inv_def)
  have "lb_inv ?lb"
    using inv by (simp add: lb_inv_def at lb_blocks_ok_def lb_total_def)
  moreover have "\<not> p_invalid (l_current lb)" using z(3) by (simp add: pos_at_def pos_in_def)
  then have "lb_chan ?lb = Reading xs"
    using ch z by (simp add: lb_chan_Writing) (simp add: lb_chan_def pos_addr_def lb_flat_def)
  ultimately show ?thesis using ch by (simp add: lb_flip_def lb_chan_Writing)
qed

text \<open>Enough room for \<open>n\<close> more bytes, with an allocator that does not fail.\<close>

definition lb_room :: "node_alloc \<Rightarrow> linked_buffer \<Rightarrow> nat \<Rightarrow> bool" where
  "lb_room alloc lb n \<longleftrightarrow>
     (\<forall>i. \<exists>m. alloc i = Some m \<and> length m = l_block_size lb) \<and> lb_fits lb n"

lemma lb_room_alloc:
  "lb_room alloc lb n \<Longrightarrow> node_alloc_ok alloc (l_block_size lb) \<and> (\<forall>i. alloc i \<noteq> None) \<and> lb_fits lb n"
  unfolding lb_room_def node_alloc_ok_def by (metis option.distinct(1) option.inject)

interpretation lbc: byte_channel lb_inv lb_chan "lb_room alloc" "lb_put alloc" lb_get lb_flip
  for alloc :: node_alloc
proof (unfold_locales, goal_cases)
  case (1 lb xs bs n)
  note room = lb_room_alloc [OF 1(3)]
  then have "lb_fits lb (length bs)" by (simp add: lb_fits_def)
  with lb_put_spec [OF 1(1,2), of alloc bs] room obtain lb' where lb':
    "lb_put alloc lb bs = Some (True, lb')" "lb_inv lb'" "lb_chan lb' = Writing (xs @ bs)"
    "l_zero lb' = l_zero lb" "l_block_size lb' = l_block_size lb"
    "p_position (l_current lb') = p_position (l_current lb) + length bs" by blast
  moreover have "lb_room alloc lb' n"
    using 1(3) lb' by (simp add: lb_room_def lb_fits_def)
  ultimately show ?case by blast
next
  case (2 lb xs bs) then show ?case by (rule lb_put_refused)
next
  case (3 lb xs n)
  with lb_get_takes [OF 3] lb_read_moves [OF 3] show ?case by blast
next
  case (4 lb xs n) then show ?case by (intro lb_get_short)
next
  case (5 lb xs n) then show ?case by (intro lb_get_refused)
next
  case (6 lb xs) then show ?case by (rule lb_flip_reads)
qed

section \<open>From one chain into another\<close>

text \<open>
  The loop moves what the plain \<open>get\<close> loop would have read. The room was made before, so the
  results of the single puts, which the code drops, are all true.
\<close>

lemma lb_move_loop_refines:
  "lb_get_loop lb p rem = Some (bs, p') \<Longrightarrow> lb_inv buf \<Longrightarrow> lb_chan buf = Writing ys \<Longrightarrow>
   p_position (l_current buf) + length bs < l_usable buf \<Longrightarrow>
   \<exists>buf'. lb_move_loop alloc lb buf p rem = Some (buf', p') \<and> lb_inv buf' \<and>
     lb_chan buf' = Writing (ys @ bs) \<and> lb_after buf (length bs) buf'"
proof (induction lb p rem arbitrary: buf ys bs rule: lb_get_loop.induct)
  case (1 lb p rem)
  let ?tmp = "if rem > l_block_size lb then l_block_size lb else rem"
  from "1.prems"(1) obtain blk where blk: "node_buf lb (Suc (p_block p)) = Some blk"
    by (simp add: lb_get_loop.simps [of lb p rem] split: option.splits)
  with "1.prems"(1) obtain h where h: "mem_read blk 0 ?tmp = Some h"
    by (simp only: lb_get_loop.simps [of lb p rem] Let_def option.case split: option.splits) simp
  show ?case
  proof (cases "rem - ?tmp > 0")
    case False
    with "1.prems"(1) blk h have "bs = h" "p' = pos_into lb p ?tmp"
      by (simp_all only: lb_get_loop.simps [of lb p rem] Let_def option.case if_False option.inject
          prod.inject)
    with lb_put_within [OF "1.prems"(2,3,4), of alloc] blk h False show ?thesis
      by (simp only: lb_move_loop.simps [of alloc lb buf p rem] Let_def option.case if_False) auto
  next
    case True
    with "1.prems"(1) blk h obtain t where
      t: "lb_get_loop lb (pos_into lb p ?tmp) (rem - ?tmp) = Some (t, p')" "bs = h @ t"
      by (simp only: lb_get_loop.simps [of lb p rem] Let_def option.case if_True) auto
    from "1.prems"(4) t(2) have "p_position (l_current buf) + length h < l_usable buf" by simp
    from lb_put_within [OF "1.prems"(2,3) this] obtain buf1 where buf1:
      "lb_put alloc buf h = Some (True, buf1)" "lb_inv buf1" "lb_chan buf1 = Writing (ys @ h)"
      "lb_after buf (length h) buf1" by blast
    have "p_position (l_current buf1) + length t < l_usable buf1"
      using "1.prems"(4) t(2) buf1(4) by (simp add: lb_after_def)
    from "1.IH" [OF blk refl refl h True t(1) buf1(2,3) this] obtain buf2 where
      "lb_move_loop alloc lb buf1 (pos_into lb p ?tmp) (rem - ?tmp) = Some (buf2, p')"
      "lb_inv buf2" "lb_chan buf2 = Writing ((ys @ h) @ t)" "lb_after buf1 (length t) buf2" by blast
    with blk h True buf1(1) t(2) lb_after_trans [OF buf1(4)] show ?thesis
      by (simp only: lb_move_loop.simps [of alloc lb buf p rem] Let_def option.case if_True
          prod.case) simp
  qed
qed

text \<open>With the room made, the transfer moves the next \<open>n\<close> unread bytes.\<close>

lemma lb_get_to_within:
  assumes inv: "lb_inv lb" and ch: "lb_chan lb = Reading xs" and n: "n \<le> length xs"
    and g: "lb_inv g" "lb_chan g = Writing ys" "p_position (l_current g) + n < l_usable g"
    and mk: "lb_make_room alloc buf n = Some (True, g)" "p_invalid (l_limit buf)"
  shows "\<exists>p buf'. lb_get_to alloc lb buf n = Some (True, lb\<lparr>l_current := p\<rparr>, buf') \<and> pos_at lb p \<and>
           p_position p = p_position (l_current lb) + n \<and>
           lb_inv buf' \<and> lb_chan buf' = Writing (ys @ take n xs) \<and> lb_after g n buf'"
proof -
  let ?cur = "l_current lb"
  from lb_get_takes [OF inv ch n] obtain p where p:
    "lb_get lb n = Some (Some (take n xs), lb\<lparr>l_current := p\<rparr>)" "pos_at lb p"
    "p_position p = p_position ?cur + n" by blast
  have guard: "\<not> (p_invalid (l_limit lb) \<or> lb_unread lb < n)"
    using lb_chan_Reading [OF inv ch] n by simp
  obtain blk where blk: "node_buf lb (p_block ?cur) = Some blk"
    using inv by (auto simp: lb_inv_def pos_at_def pos_in_def node_buf_Some)
  have lm: "length (take n xs) = n" using n by simp
  show ?thesis
  proof (cases "n < p_remaining ?cur")
    case True
    with p(1) guard blk have rd: "mem_read blk (p_curr_buf ?cur) n = Some (take n xs)"
      "lb\<lparr>l_current := pos_advance ?cur n\<rparr> = lb\<lparr>l_current := p\<rparr>"
      by (auto simp: lb_get_def)
    from lb_put_within [OF g(1,2), of "take n xs" alloc] g(3) lm obtain b where
      "lb_put alloc g (take n xs) = Some (True, b)" "lb_inv b"
      "lb_chan b = Writing (ys @ take n xs)" "lb_after g n b" by auto
    with True guard blk rd mk p(2,3) show ?thesis
      by (intro exI [of _ p] exI [of _ b]) (simp add: lb_get_to_def)
  next
    case False
    with p(1) guard blk obtain h where
      h: "mem_read blk (p_curr_buf ?cur) (p_remaining ?cur) = Some h"
      by (auto simp: lb_get_def option_bind_Some_iff)
    with False p(1) guard blk obtain t q where t:
      "lb_get_loop lb ?cur (n - p_remaining ?cur) = Some (t, q)" "take n xs = h @ t"
      "lb\<lparr>l_current := pos_moved q n\<rparr> = lb\<lparr>l_current := p\<rparr>"
      by (auto simp: lb_get_def)
    have len: "length h + length t = n" using lm unfolding t(2) by simp
    with g(3) have "p_position (l_current g) + length h < l_usable g" by simp
    from lb_put_within [OF g(1,2) this] obtain b1 where b1:
      "lb_put alloc g h = Some (True, b1)" "lb_inv b1" "lb_chan b1 = Writing (ys @ h)"
      "lb_after g (length h) b1" by blast
    have "p_position (l_current b1) + length t < l_usable b1"
      using b1(4) g(3) len by (simp add: lb_after_def)
    from lb_move_loop_refines [OF t(1) b1(2,3) this] obtain b2 where b2:
      "lb_move_loop alloc lb b1 ?cur (n - p_remaining ?cur) = Some (b2, q)" "lb_inv b2"
      "lb_chan b2 = Writing ((ys @ h) @ t)" "lb_after b1 (length t) b2" by blast
    have "lb_after g n b2" using lb_after_trans [OF b1(4) b2(4)] len by simp
    with False guard blk h mk b1(1) b2 t(2,3) p(2,3) show ?thesis
      by (intro exI [of _ p] exI [of _ b2]) (simp add: lb_get_to_def)
  qed
qed

lemma lb_get_to_moves:
  assumes inv: "lb_inv lb" and ch: "lb_chan lb = Reading xs" and n: "n \<le> length xs"
    and buf: "lb_inv buf" "lb_chan buf = Writing ys" "lb_room alloc buf n"
  shows "\<exists>lb' buf'. lb_get_to alloc lb buf n = Some (True, lb', buf') \<and>
           lb_inv lb' \<and> lb_chan lb' = Reading (drop n xs) \<and>
           lb_inv buf' \<and> lb_chan buf' = Writing (ys @ take n xs)"
proof -
  note al = lb_room_alloc [OF buf(3)]
  obtain r ex where r: "lb_make_room alloc buf n = Some (r, lb_grow buf ex)"
    "lb_inv (lb_grow buf ex)"
    "r \<longrightarrow> p_position (l_current buf) + n < l_usable (lb_grow buf ex)"
    "\<not> r \<longrightarrow> (\<exists>i. alloc i = None)"
    using al lb_make_room_spec [OF buf(1), of alloc n] by blast
  moreover from r(4) al have "r" by blast
  moreover have "lb_chan (lb_grow buf ex) = Writing ys" "p_invalid (l_limit buf)"
    using lb_grow_chan [OF buf(1)] buf(2) by (simp_all add: lb_chan_Writing)
  ultimately obtain p buf' where p:
    "lb_get_to alloc lb buf n = Some (True, lb\<lparr>l_current := p\<rparr>, buf')" "pos_at lb p"
    "p_position p = p_position (l_current lb) + n"
    "lb_inv buf'" "lb_chan buf' = Writing (ys @ take n xs)"
    using lb_get_to_within [OF inv ch n r(2), of ys alloc buf] by auto
  with lb_read_moves [OF inv ch n p(2,3)] show ?thesis by blast
qed

section \<open>Dropping what was read\<close>

lemma lb_free_until_pops:
  "k \<le> length (l_blocks lb) \<Longrightarrow> k \<le> fuel \<Longrightarrow> k * l_block_size lb \<le> l_capacity lb \<Longrightarrow>
   l_capacity lb < two32 \<Longrightarrow>
   lb_free_until fuel lb (l_first lb + k) =
     Some (lb\<lparr>l_first := l_first lb + k, l_blocks := drop k (l_blocks lb),
              l_capacity := l_capacity lb - k * l_block_size lb\<rparr>)"
proof (induction k arbitrary: fuel lb)
  case 0
  then show ?case by (cases fuel) simp_all
next
  case (Suc k)
  let ?lb = "(list_pop_front lb)\<lparr>l_capacity := sub32 (l_capacity lb) (l_block_size lb)\<rparr>"
  from Suc.prems obtain f where f: "fuel = Suc f" "k \<le> f" by (cases fuel) auto
  have cap: "sub32 (l_capacity lb) (l_block_size lb) = l_capacity lb - l_block_size lb"
    using Suc.prems by (simp add: arith32)
  have ne: "l_blocks lb \<noteq> []" using Suc.prems(1) by auto
  have "lb_free_until f ?lb (l_first ?lb + k) = Some (?lb\<lparr>l_first := l_first ?lb + k,
      l_blocks := drop k (l_blocks ?lb), l_capacity := l_capacity ?lb - k * l_block_size ?lb\<rparr>)"
    using Suc.prems f ne cap by (intro Suc.IH) (auto simp: list_pop_front_def)
  with f ne cap show ?case by (simp add: list_pop_front_def drop_Suc algebra_simps)
qed

text \<open>The chain without its first \<open>k\<close> blocks.\<close>

definition lb_drop :: "linked_buffer \<Rightarrow> nat \<Rightarrow> linked_buffer" where
  "lb_drop lb k = lb\<lparr>l_first := l_first lb + k, l_blocks := drop k (l_blocks lb),
                     l_capacity := l_capacity lb - k * l_block_size lb\<rparr>"

lemma lb_drop_flat:
  "lb_blocks_ok lb \<Longrightarrow> lb_flat (lb_drop lb k) = drop (k * l_block_size lb) (lb_flat lb)"
  by (simp add: lb_flat_def lb_drop_def lb_blocks_ok_def drop_concat_blocks)

lemma lb_drop_ok: "lb_blocks_ok lb \<Longrightarrow> lb_blocks_ok (lb_drop lb k)"
  by (auto simp: lb_blocks_ok_def lb_drop_def dest: in_set_dropD)

lemma lb_drop_total: "lb_total (lb_drop lb k) = lb_total lb - k * l_block_size lb"
  by (simp add: lb_total_def lb_drop_def diff_mult_distrib)

lemma lb_drop_addr:
  "l_first lb + k \<le> p_block p \<Longrightarrow> pos_addr (lb_drop lb k) p + k * l_block_size lb = pos_addr lb p"
  by (auto simp: pos_addr_def lb_drop_def le_iff_add algebra_simps)

lemma pos_block_mono:
  assumes "pos_in lb p" "pos_in lb q" "pos_addr lb p < pos_addr lb q"
  shows "p_block p \<le> p_block q"
proof -
  let ?i = "p_block p - l_first lb" and ?j = "p_block q - l_first lb" and ?n = "l_block_size lb"
  have "?i * ?n < ?j * ?n + ?n"
    using assms by (auto simp: pos_in_def pos_addr_def)
  then have "?i * ?n < Suc ?j * ?n" by simp
  then have "?i < Suc ?j" by (simp only: mult_less_cancel2)
  then show ?thesis using assms by (auto simp: pos_in_def node_exists_def)
qed

text \<open>A chain that starts at \<open>z\<close> in its first block and is written up to \<open>c\<close>.\<close>

lemma lb_compacted_inv:
  assumes ok: "lb_blocks_ok lb" and tot: "l_capacity lb = lb_total lb" "lb_total lb < INVALID_VALUE"
    and z: "p_block z = l_first lb" "p_position z = 0" "pos_in lb z" "pos_addr lb z < lb_total lb"
    and c: "pos_in lb c" "pos_addr lb c = p_curr_buf z + p_position c" "pos_addr lb c < lb_total lb"
    and inv: "p_invalid m" "p_invalid l"
  defines "lb' \<equiv> lb\<lparr>l_zero := z, l_current := c, l_usable := lb_total lb - p_curr_buf z,
                       l_mark := m, l_limit := l\<rparr>"
  shows "lb_inv lb'" "lb_chan lb' = Writing (take (p_position c) (drop (p_curr_buf z) (lb_flat lb)))"
proof -
  have "pos_in lb' q = pos_in lb q" "pos_addr lb' q = pos_addr lb q" "lb_total lb' = lb_total lb" for q
    by (simp_all add: lb'_def pos_in_def pos_addr_def node_exists_def lb_total_def)
  moreover have "pos_addr lb z = p_curr_buf z" using z by (simp add: pos_addr_def)
  ultimately show "lb_inv lb'"
    using assms by (simp add: lb_inv_def pos_at_def lb_blocks_ok_def)
  show "lb_chan lb' = Writing (take (p_position c) (drop (p_curr_buf z) (lb_flat lb)))"
    using inv by (simp add: lb_chan_def lb'_def lb_flat_def)
qed

lemma lb_compact_unfold:
  assumes inv: "lb_inv lb" and lim: "\<not> p_invalid (l_limit lb)"
    and z: "z = (if p_position (l_limit lb) = p_position (l_current lb)
                 then pos_new (p_block (l_current lb)) 0 0 (l_block_size lb)
                 else pos_new (p_block (l_current lb)) (p_curr_buf (l_current lb)) 0
                        (p_remaining (l_current lb)))"
    and c: "c = (if p_position (l_limit lb) = p_position (l_current lb) then z
                 else pos_new (p_block (l_limit lb)) (p_curr_buf (l_limit lb)) (lb_unread lb)
                        (p_remaining (l_limit lb)))"
    and k: "k = p_block (l_current lb) - l_first lb"
  shows "lb_compact lb = Some (True, (lb_drop lb k)\<lparr>l_zero := z, l_current := c,
           l_usable := lb_total (lb_drop lb k) - p_curr_buf z,
           l_mark := set_invalid (l_mark lb), l_limit := set_invalid (l_limit lb)\<rparr>)"
proof -
  let ?cur = "l_current lb"
  have cin: "pos_in lb ?cur" and cap: "l_capacity lb = lb_total lb" and tot: "lb_total lb < two32"
    using inv INVALID_less_two32 by (auto simp: lb_inv_def pos_at_def)
  have kl: "k < length (l_blocks lb)" "p_block ?cur = l_first lb + k" "p_block z = p_block ?cur"
    "p_curr_buf z + p_remaining z = l_block_size lb"
    using cin unfolding k z by (auto simp: pos_in_def node_exists_def pos_new_def)
  then have kt: "k * l_block_size lb + l_block_size lb \<le> lb_total lb"
    by (simp add: lb_total_def) (metis Suc_leI mult_Suc mult_le_mono1 add.commute)
  let ?l = "lb\<lparr>l_zero := z, l_current := c\<rparr>"
  have free: "lb_free_until (length (l_blocks lb)) ?l (p_block z) =
      Some (?l\<lparr>l_first := l_first lb + k, l_blocks := drop k (l_blocks lb),
               l_capacity := l_capacity lb - k * l_block_size lb\<rparr>)"
    using lb_free_until_pops [of k ?l "length (l_blocks lb)"] kl kt cap tot by simp
  have us: "sub32 (l_capacity lb - k * l_block_size lb) (l_block_size lb - p_remaining z) =
      lb_total (lb_drop lb k) - p_curr_buf z"
    using cap kl(4) kt tot unfolding lb_drop_total by (subst sub32_small) auto
  have "lb_compact lb = map_option (\<lambda>lb2. (True, lb2\<lparr>l_usable :=
                     sub32 (l_capacity lb2) (l_block_size lb2 - p_remaining (l_zero lb2)),
                     l_mark := set_invalid (l_mark lb2), l_limit := set_invalid (l_limit lb2)\<rparr>))
                 (lb_free_until (length (l_blocks lb)) ?l (p_block z))"
    using lim unfolding lb_compact_def c z lb_unread_def by (simp split del: if_split) auto
  with free us show ?thesis by (simp add: lb_drop_def)
qed

lemma lb_compact_keeps:
  assumes inv: "lb_inv lb" and ch: "lb_chan lb = Reading xs"
  shows "\<exists>lb'. lb_compact lb = Some (True, lb') \<and> lb_inv lb' \<and> lb_chan lb' = Writing xs"
proof -
  let ?cur = "l_current lb" and ?lim = "l_limit lb" and ?n = "l_block_size lb"
  note r = lb_chan_Reading [OF inv ch]
  define k where "k = p_block ?cur - l_first lb"
  let ?d = "lb_drop lb k"
  have ok: "lb_blocks_ok lb" and cin: "pos_in lb ?cur" and lin: "pos_in lb ?lim"
    and le: "p_position ?cur \<le> p_position ?lim"
    and ca: "pos_addr lb ?cur = p_curr_buf (l_zero lb) + p_position ?cur" "pos_addr lb ?cur < lb_total lb"
    and la: "pos_addr lb ?lim = p_curr_buf (l_zero lb) + p_position ?lim" "pos_addr lb ?lim < lb_total lb"
    and tot: "l_capacity lb = lb_total lb" "lb_total lb < INVALID_VALUE"
    using inv r(1) by (auto simp: lb_inv_def pos_at_def)
  have un: "lb_unread lb = p_position ?lim - p_position ?cur" by (rule lb_unread_eq [OF inv r(1)])
  have kb: "l_first lb + k = p_block ?cur" using cin by (simp add: k_def pos_in_def node_exists_def)
  have dok: "lb_blocks_ok ?d" "l_capacity ?d = lb_total ?d" "lb_total ?d < INVALID_VALUE"
    "l_first ?d = p_block ?cur" "l_block_size ?d = ?n"
    using ok tot kb by (auto simp: lb_drop_ok lb_drop_total) (simp_all add: lb_drop_def)
  have din: "node_exists ?d i \<longleftrightarrow> node_exists lb i \<and> p_block ?cur \<le> i" for i
    using kb by (auto simp: node_exists_def lb_drop_def)
  have kt: "k * ?n < lb_total lb" using ca(2) by (simp add: pos_addr_def k_def)
  have caddr: "pos_addr ?d ?cur = p_curr_buf ?cur" "pos_addr ?d ?cur + k * ?n = pos_addr lb ?cur"
    using lb_drop_addr [of lb k ?cur] dok(4) kb by (simp_all add: pos_addr_def)
  show ?thesis
  proof (cases "p_position ?lim = p_position ?cur")
    case True
    let ?z = "pos_new (p_block ?cur) 0 0 ?n"
    have "pos_in ?d ?z" "pos_addr ?d ?z = 0"
      using cin dok by (simp_all add: pos_in_def pos_new_def din pos_addr_def)
    with lb_compacted_inv [OF dok(1,2,3), of ?z ?z "set_invalid (l_mark lb)" "set_invalid ?lim"]
      lb_compact_unfold [OF inv r(1) refl refl k_def] True kt dok un ch r
    show ?thesis by (simp add: pos_new_def lb_drop_total)
  next
    case False
    then have lt: "pos_addr lb ?cur < pos_addr lb ?lim" using le ca la by simp
    then have bl: "p_block ?cur \<le> p_block ?lim" by (rule pos_block_mono [OF cin lin])
    let ?z = "pos_new (p_block ?cur) (p_curr_buf ?cur) 0 (p_remaining ?cur)"
    let ?c = "pos_new (p_block ?lim) (p_curr_buf ?lim) (lb_unread lb) (p_remaining ?lim)"
    have z: "pos_in ?d ?z" "pos_addr ?d ?z = p_curr_buf ?cur"
      using cin dok by (simp_all add: pos_in_def pos_new_def din pos_addr_def)
    have z2: "p_curr_buf ?cur < lb_total ?d"
      using caddr ca(2) kt unfolding lb_drop_total by linarith
    have c: "pos_in ?d ?c" "pos_addr ?d ?c + k * ?n = pos_addr lb ?lim"
      using lin bl dok(5) lb_drop_addr [of lb k ?c] kb
      by (simp_all add: pos_in_def pos_new_def din pos_addr_def)
    have c2: "pos_addr ?d ?c = p_curr_buf ?cur + lb_unread lb" "pos_addr ?d ?c < lb_total ?d"
      using c(2) caddr ca la le un by (simp_all add: lb_drop_total)
    have flat: "drop (p_curr_buf ?cur) (lb_flat ?d) = drop (pos_addr lb ?cur) (lb_flat lb)"
      using caddr by (simp add: lb_drop_flat [OF ok] add.commute)
    from lb_compacted_inv [OF dok(1,2,3), of ?z ?c "set_invalid (l_mark lb)" "set_invalid ?lim"]
      lb_compact_unfold [OF inv r(1) refl refl k_def] False dok(4) z z2 c(1) c2 flat r(3)
    show ?thesis by (simp add: pos_new_def)
  qed
qed

section \<open>Sequences of calls\<close>

text \<open>Every public call on one chain that can change its state.\<close>

datatype lb_op = LMark | LSkip nat | LReset | LClear | LRewind | LFlip | LCompact | LGet nat
  | LPut "byte list" | LPeek nat | LCommitGet "nat \<times> nat" nat | LReserve nat

definition lb_step :: "node_alloc \<Rightarrow> linked_buffer \<Rightarrow> lb_op \<Rightarrow> linked_buffer option" where
  "lb_step alloc lb op =
     (case op of
        LMark \<Rightarrow> Some (lb_set_mark lb)
      | LSkip n \<Rightarrow> map_option snd (lb_skip alloc lb n)
      | LReset \<Rightarrow> Some (snd (lb_reset lb))
      | LClear \<Rightarrow> Some (lb_clear lb)
      | LRewind \<Rightarrow> Some (lb_rewind lb)
      | LFlip \<Rightarrow> Some (snd (lb_flip lb))
      | LCompact \<Rightarrow> map_option snd (lb_compact lb)
      | LGet n \<Rightarrow> map_option snd (lb_get lb n)
      | LPut bs \<Rightarrow> map_option snd (lb_put alloc lb bs)
      | LPeek n \<Rightarrow> map_option snd (lb_peek (\<lambda>lb. lb_get lb n) lb)
      | LCommitGet ptr n \<Rightarrow> map_option snd (lb_commit_get lb ptr n)
      | LReserve n \<Rightarrow> map_option snd (lb_reserve alloc lb n))"

text \<open>
  The caller's duty in \<open>commit_get\<close>: not more bytes than \<open>remaining()\<close>. The call itself checks
  the block only, as the lemma on \<open>direct_get\<close> at the end shows.
\<close>

fun lb_call_ok :: "linked_buffer \<Rightarrow> lb_op \<Rightarrow> bool" where
  "lb_call_ok lb (LCommitGet ptr n) = (p_invalid (l_limit lb) \<or> n \<le> lb_unread lb)"
| "lb_call_ok _ _ = True"

text \<open>The bytes by which a call may move a cursor forward over written data.\<close>

fun lb_demand :: "lb_op \<Rightarrow> nat" where
  "lb_demand (LSkip n) = n"
| "lb_demand (LPut bs) = length bs"
| "lb_demand (LReserve n) = n"
| "lb_demand _ = 0"

text \<open>The cursors in use are frames of one another: moving one keeps what the others see.\<close>

lemma cursor_frame [simp]:
  "pos_at (lb\<lparr>l_current := c\<rparr>) p = pos_at lb p" "pos_at (lb\<lparr>l_mark := c\<rparr>) p = pos_at lb p"
  "pos_at (lb\<lparr>l_limit := c\<rparr>) p = pos_at lb p"
  "lb_total (lb\<lparr>l_current := c\<rparr>) = lb_total lb" "lb_total (lb\<lparr>l_mark := c\<rparr>) = lb_total lb"
  "lb_total (lb\<lparr>l_limit := c\<rparr>) = lb_total lb"
  "lb_blocks_ok (lb\<lparr>l_current := c\<rparr>) = lb_blocks_ok lb"
  "lb_blocks_ok (lb\<lparr>l_mark := c\<rparr>) = lb_blocks_ok lb"
  "lb_blocks_ok (lb\<lparr>l_limit := c\<rparr>) = lb_blocks_ok lb"
  by (simp_all add: pos_at_def pos_in_def pos_addr_def lb_total_def node_exists_def lb_blocks_ok_def)

lemma lb_clear_inv: "lb_inv lb \<Longrightarrow> lb_inv (lb_clear lb) \<and> lb_chan (lb_clear lb) = Writing []"
proof -
  assume inv: "lb_inv lb"
  then have "l_blocks lb \<noteq> []" by (auto simp: lb_inv_def pos_at_def pos_in_def node_exists_def)
  then obtain b bl where bl: "l_blocks lb = b # bl" by (cases "l_blocks lb") auto
  have "l_block_size lb \<le> lb_total lb" by (simp add: lb_total_def bl)
  with inv bl show ?thesis
    by (auto simp: lb_inv_def lb_clear_def lb_chan_def pos_at_def pos_in_def pos_addr_def
        pos_new_def node_exists_def lb_total_def lb_blocks_ok_def)
qed

lemma lb_skip_reads:
  assumes inv: "lb_inv lb" and a: "p_position (l_current lb) + n < l_usable lb"
  shows "\<exists>p. (if n < p_remaining (l_current lb) then Some (pos_advance (l_current lb) n)
              else map_option (\<lambda>p. pos_moved p n)
                     (lb_skip_loop lb (l_current lb) (n - p_remaining (l_current lb)))) = Some p \<and>
            pos_at lb p \<and> p_position p = p_position (l_current lb) + n"
proof -
  let ?cur = "l_current lb"
  have ok: "lb_blocks_ok lb" and at: "pos_at lb ?cur" and tot: "lb_total lb < INVALID_VALUE"
    and al: "pos_addr lb ?cur + n < lb_total lb"
    using inv a by (auto simp: lb_inv_def pos_at_def)
  then have inb: "pos_in lb ?cur" by (simp add: pos_at_def)
  show ?thesis
  proof (cases "n < p_remaining ?cur")
    case True
    with pos_advance_at [OF at True al tot] show ?thesis by simp
  next
    case False
    have start: "(Suc (p_block ?cur) - l_first lb) * l_block_size lb =
        pos_addr lb ?cur + p_remaining ?cur"
      by (rule next_block_start [OF inb])
    have pre: "l_first lb \<le> p_block ?cur" "\<not> p_invalid ?cur"
      "pos_addr lb ?cur + p_remaining ?cur + (n - p_remaining ?cur) < lb_total lb"
      using inb al False by (simp_all add: node_exists_def pos_in_def)
    from lb_skip_loop_spec [OF ok pre(1,2), unfolded start, OF pre(3)] obtain p' where
      p': "lb_skip_loop lb ?cur (n - p_remaining ?cur) = Some p'" "pos_in lb p'"
        "p_position p' = p_position ?cur" "pos_addr lb p' = pos_addr lb ?cur + n"
      using False by auto
    with False pos_moved_at [OF at p'(2-4) al tot] show ?thesis by simp
  qed
qed

lemma lb_skip_drops:
  assumes inv: "lb_inv lb" and ch: "lb_chan lb = Reading xs" and n: "n \<le> length xs"
  shows "\<exists>lb'. lb_skip alloc lb n = Some (True, lb') \<and> lb_inv lb' \<and> lb_chan lb' = Reading (drop n xs)"
proof -
  let ?m = "lb\<lparr>l_mark := l_current lb\<rparr>"
  note r = lb_chan_Reading [OF inv ch]
  have at: "pos_at lb (l_current lb)" and le: "p_position (l_current lb) \<le> p_position (l_limit lb)"
    "p_position (l_limit lb) < l_usable lb"
    using inv r(1) pos_at_position [OF inv, of "l_limit lb"] by (simp_all add: lb_inv_def)
  have m: "lb_inv ?m" using inv at le by (simp add: lb_inv_def)
  have "lb_chan ?m = lb_chan lb" by (simp add: lb_chan_def lb_flat_def pos_addr_def)
  then have mch: "lb_chan ?m = Reading xs" using ch by simp
  have room: "p_position (l_current ?m) + n < l_usable ?m"
    using le n r(2) lb_unread_eq [OF inv r(1)] by simp
  have cm: "l_current ?m = l_current lb" by simp
  from lb_skip_reads [OF m room, unfolded cm] obtain p where p:
    "(if n < p_remaining (l_current lb) then Some (pos_advance (l_current lb) n)
      else map_option (\<lambda>p. pos_moved p n) (lb_skip_loop ?m (l_current lb) (n - p_remaining (l_current lb))))
     = Some p" "pos_at ?m p" "p_position p = p_position (l_current lb) + n" by blast
  then have p3: "p_position p = p_position (l_current ?m) + n" by simp
  have "lb_skip alloc lb n = Some (True, ?m\<lparr>l_current := p\<rparr>)"
    using p(1) r(1,2) n by (auto simp: lb_skip_def split: if_splits)
  with lb_read_moves [OF m mch n p(2) p3] show ?thesis by blast
qed

interpretation lbs: skip_channel lb_inv lb_chan "lb_room alloc" "lb_put alloc" lb_get lb_flip
    "lb_skip alloc"
  for alloc :: node_alloc
proof (unfold_locales, goal_cases)
  case (1 s xs n)
  then show ?case by (rule lb_skip_drops)
next
  case (2 s xs n)
  with lb_chan_Reading [OF 2(1,2)] show ?case by (simp add: lb_skip_def)
qed

text \<open>A high-water mark of the cursors, as for the contiguous buffer.\<close>

definition lb_below :: "nat \<Rightarrow> linked_buffer \<Rightarrow> bool" where
  "lb_below w lb \<longleftrightarrow>
     p_position (l_current lb) \<le> w \<and> (\<not> p_invalid (l_mark lb) \<longrightarrow> p_position (l_mark lb) \<le> w) \<and>
     (\<not> p_invalid (l_limit lb) \<longrightarrow> p_position (l_limit lb) \<le> w)"

definition lb_safe :: "nat \<Rightarrow> nat \<Rightarrow> linked_buffer \<Rightarrow> bool" where
  "lb_safe bs w lb \<longleftrightarrow> lb_inv lb \<and> l_block_size lb = bs \<and> lb_below w lb"

lemma lb_safe_mono: "lb_safe bs w lb \<Longrightarrow> w \<le> w' \<Longrightarrow> lb_safe bs w' lb"
  by (auto simp: lb_safe_def lb_below_def)

lemma lb_skip_safe:
  assumes s: "lb_safe bs w lb" and al: "node_alloc_ok alloc bs" and fits: "lb_fits lb n"
  shows "\<exists>r lb'. lb_skip alloc lb n = Some (r, lb') \<and> lb_safe bs (w + n) lb'"
proof -
  let ?cur = "l_current lb"
  have inv: "lb_inv lb" using s by (simp add: lb_safe_def)
  have skip: "\<exists>r lb'. lb_skip alloc lb n = Some (r, lb') \<and> lb_safe bs (w + n) lb'"
    if g: "lb_skip alloc lb n = (let cur = ?cur; g = g\<lparr>l_mark := cur\<rparr> in
            if n < p_remaining cur then Some (True, g\<lparr>l_current := pos_advance cur n\<rparr>)
            else map_option (\<lambda>p. (True, g\<lparr>l_current := pos_moved p n\<rparr>))
                   (lb_skip_loop g cur (n - p_remaining cur)))"
      and same: "l_current g = ?cur" "l_limit g = l_limit lb" "lb_safe bs w g"
      and room: "p_position ?cur + n < l_usable g"
      and lim: "\<not> p_invalid (l_limit g) \<Longrightarrow> p_position ?cur + n \<le> p_position (l_limit g)" for g
  proof -
    let ?m = "g\<lparr>l_mark := ?cur\<rparr>"
    have m: "lb_inv ?m" using same by (auto simp: lb_safe_def lb_inv_def)
    have cm: "l_current ?m = ?cur" "l_usable ?m = l_usable g" using same by simp_all
    from lb_skip_reads [OF m, of n, unfolded cm, OF room] obtain p where p:
      "(if n < p_remaining ?cur then Some (pos_advance ?cur n)
        else map_option (\<lambda>p. pos_moved p n) (lb_skip_loop ?m ?cur (n - p_remaining ?cur))) = Some p"
      "pos_at ?m p" "p_position p = p_position ?cur + n" by blast
    then have "lb_skip alloc lb n = Some (True, ?m\<lparr>l_current := p\<rparr>)"
      unfolding g by (auto split: if_splits)
    moreover have "lb_safe bs (w + n) (?m\<lparr>l_current := p\<rparr>)"
      using m p(2,3) lim same by (auto simp: lb_safe_def lb_inv_def lb_below_def)
    ultimately show ?thesis by blast
  qed
  show ?thesis
  proof (cases "p_invalid (l_limit lb)")
    case True
    from lb_make_room_spec [OF inv _ fits, of alloc] al s obtain r ex where r:
      "lb_make_room alloc lb n = Some (r, lb_grow lb ex)" "lb_inv (lb_grow lb ex)"
      "r \<longrightarrow> p_position ?cur + n < l_usable (lb_grow lb ex)"
      unfolding lb_safe_def by blast
    have gs: "lb_safe bs w (lb_grow lb ex)" using r(2) s by (simp add: lb_safe_def lb_below_def)
    show ?thesis
    proof (cases r)
      case False
      with r(1) True have "lb_skip alloc lb n = Some (False, lb_grow lb ex)" by (simp add: lb_skip_def)
      with gs show ?thesis using lb_safe_mono [of bs w "lb_grow lb ex" "w + n"] by auto
    next
      case yes: True
      show ?thesis
        by (rule skip [of "lb_grow lb ex"]) (use True yes r gs in \<open>simp_all add: lb_skip_def\<close>)
    qed
  next
    case False
    note un = lb_unread_eq [OF inv False]
    have le: "p_position ?cur \<le> p_position (l_limit lb)" "p_position (l_limit lb) < l_usable lb"
      using inv False pos_at_position [OF inv, of "l_limit lb"] by (simp_all add: lb_inv_def)
    show ?thesis
    proof (cases "lb_unread lb < n")
      case True
      with False s show ?thesis using lb_safe_mono [of bs w lb "w + n"]
        by (intro exI [of _ False] exI [of _ lb]) (simp add: lb_skip_def)
    next
      case no: False
      show ?thesis
        by (rule skip [of lb]) (use False no un le s in \<open>simp_all add: lb_skip_def\<close>)
    qed
  qed
qed

lemma lb_reserve_loop_frame:
  "lb_reserve_loop alloc lb sz = Some y \<Longrightarrow>
   l_mark (snd y) = l_mark lb \<and> l_limit (snd y) = l_limit lb"
  by (rule lb_reserve_loop.raw_induct
        [where P = "\<lambda>_ lb _ y. l_mark (snd y) = l_mark lb \<and> l_limit (snd y) = l_limit lb"])
    (force split: if_splits option.splits simp: list_push_back_def)+

lemma lb_put_loop_frame:
  "lb_put_loop lb p bytes = Some (lb', p') \<Longrightarrow> l_mark lb' = l_mark lb \<and> l_limit lb' = l_limit lb"
proof (induction lb p bytes rule: lb_put_loop.induct)
  case (1 lb p bytes)
  then show ?case
    by (subst (asm) lb_put_loop.simps [of lb p bytes])
      (auto simp: Let_def split: option.splits if_splits)
qed

lemma lb_put_frame:
  "lb_put alloc lb bytes = Some (r, lb') \<Longrightarrow> l_mark lb' = l_mark lb \<and> l_limit lb' = l_limit lb"
  by (auto simp: lb_put_def lb_make_room_def lb_reserve_def option_bind_Some_iff
      dest!: lb_reserve_loop_frame lb_put_loop_frame split: if_splits)

lemma lb_put_safe:
  assumes s: "lb_safe bs w lb" and al: "node_alloc_ok alloc bs" and fits: "lb_fits lb (length bytes)"
  shows "\<exists>r lb'. lb_put alloc lb bytes = Some (r, lb') \<and> lb_safe bs (w + length bytes) lb'"
proof (cases "p_invalid (l_limit lb)")
  case True
  have inv: "lb_inv lb" and bs: "l_block_size lb = bs" using s by (simp_all add: lb_safe_def)
  obtain xs where ch: "lb_chan lb = Writing xs" using True by (simp add: lb_chan_def)
  from lb_put_spec [OF inv ch _ fits, of alloc] al bs
  consider lb' where "lb_put alloc lb bytes = Some (True, lb')" "lb_inv lb'"
      "l_block_size lb' = bs" "p_position (l_current lb') = p_position (l_current lb) + length bytes"
    | lb' where "lb_put alloc lb bytes = Some (False, lb')" "lb_inv lb'"
        "l_block_size lb' = bs" "l_current lb' = l_current lb"
    by auto
  then show ?thesis
    by cases (use s in \<open>auto simp: lb_safe_def lb_below_def dest: lb_put_frame\<close>)
next
  case False
  with s show ?thesis using lb_safe_mono [of bs w lb]
    by (intro exI [of _ False] exI [of _ lb]) (simp add: lb_put_def)
qed

lemma lb_compact_safe:
  assumes s: "lb_safe bs w lb"
  shows "\<exists>r lb'. lb_compact lb = Some (r, lb') \<and> lb_safe bs w lb'"
proof (cases "p_invalid (l_limit lb)")
  case True
  with s show ?thesis by (intro exI [of _ False] exI [of _ lb]) (simp add: lb_compact_def)
next
  case False
  have inv: "lb_inv lb" using s by (simp add: lb_safe_def)
  obtain xs where ch: "lb_chan lb = Reading xs" using False by (simp add: lb_chan_def)
  obtain lb' where lb': "lb_compact lb = Some (True, lb')" "lb_inv lb'" "lb_chan lb' = Writing xs"
    using lb_compact_keeps [OF inv ch] by blast
  moreover have "l_block_size lb' = bs" "p_invalid (l_mark lb')" "p_invalid (l_limit lb')"
    "p_position (l_current lb') \<le> w"
    using lb_compact_unfold [OF inv False refl refl refl] lb'(1) s lb_unread_eq [OF inv False] False
    by (auto simp: lb_drop_def pos_new_def lb_safe_def lb_below_def)
  ultimately show ?thesis
    by (intro exI [of _ True] exI [of _ lb']) (simp add: lb_safe_def lb_below_def)
qed

lemma lb_get_safe:
  assumes s: "lb_safe bs w lb"
  shows "\<exists>r lb'. lb_get lb n = Some (r, lb') \<and> lb_safe bs w lb' \<and>
           lb_safe bs w (lb'\<lparr>l_current := l_current lb\<rparr>)"
proof -
  have inv: "lb_inv lb" using s by (simp add: lb_safe_def)
  have same: "lb\<lparr>l_current := l_current lb\<rparr> = lb" by simp
  show ?thesis
  proof (cases "lb_chan lb")
    case (Writing xs)
    with lb_get_refused [OF Writing] s same show ?thesis by simp
  next
    case (Reading xs)
    show ?thesis
    proof (cases "n \<le> length xs")
      case True
      from lb_get_takes [OF inv Reading True] obtain p where
        "lb_get lb n = Some (Some (take n xs), lb\<lparr>l_current := p\<rparr>)" "pos_at lb p"
        "p_position p = p_position (l_current lb) + n" by blast
      note p = this
      note moved = lb_read_moves(1) [OF inv Reading True p(2,3)]
      have lim: "\<not> p_invalid (l_limit lb)" by (rule lb_chan_Reading(1) [OF inv Reading])
      have "p_position p \<le> p_position (l_limit lb)" using moved lim by (simp add: lb_inv_def)
      with s lim have "p_position p \<le> w" by (simp add: lb_safe_def lb_below_def)
      with moved s have "lb_safe bs w (lb\<lparr>l_current := p\<rparr>)" by (simp add: lb_safe_def lb_below_def)
      with p(1) s same show ?thesis by simp
    next
      case False
      with lb_get_short [OF inv Reading, of n] s same show ?thesis by simp
    qed
  qed
qed

lemma lb_reserve_safe:
  assumes s: "lb_safe bs w lb" and al: "node_alloc_ok alloc bs" and fits: "w + n + 1 + 2 * bs \<le> INVALID_VALUE"
  shows "\<exists>r lb'. lb_reserve alloc lb n = Some (r, lb') \<and> lb_safe bs w lb'"
proof -
  have z: "p_curr_buf (l_zero lb) \<le> bs" and inv: "lb_inv lb" and bs: "l_block_size lb = bs"
    using s by (auto simp: lb_safe_def lb_inv_def pos_at_def pos_in_def)
  have add: "add32 n 1 = n + 1" using fits INVALID_less_two32 by (simp add: arith32)
  have "p_curr_buf (l_zero lb) + (n + 1) + l_block_size lb \<le> INVALID_VALUE"
    using fits z bs by simp
  from lb_reserve_loop_spec [OF inv _ this, of alloc] al bs obtain r ex where
    "lb_reserve_loop alloc lb (n + 1) = Some (r, lb_grow lb ex)" "lb_inv (lb_grow lb ex)" by blast
  then show ?thesis using s
    unfolding lb_reserve_def add
    by (intro exI [of _ r] exI [of _ "lb_grow lb ex"]) (simp add: lb_safe_def lb_below_def)
qed

text \<open>A commit inside the unread bytes moves the cursor over them, in its block or to the next.\<close>

lemma lb_commit_get_safe:
  assumes s: "lb_safe bs w lb" and ok: "p_invalid (l_limit lb) \<or> n \<le> lb_unread lb"
  shows "\<exists>r lb'. lb_commit_get lb ptr n = Some (r, lb') \<and> lb_safe bs w lb'"
proof (cases "p_invalid (l_limit lb) \<or> (p_block (l_current lb), p_curr_buf (l_current lb)) \<noteq> ptr")
  case True
  with s show ?thesis by (intro exI [of _ False] exI [of _ lb]) (auto simp: lb_commit_get_def)
next
  case False
  let ?cur = "l_current lb" and ?lim = "l_limit lb" and ?bs = "l_block_size lb"
  let ?moved = "?cur\<lparr>p_position := add32 (p_position ?cur) n, p_curr_buf := p_curr_buf ?cur + n,
                     p_remaining := sub32 (p_remaining ?cur) n\<rparr>"
  let ?next = "?cur\<lparr>p_block := Suc (p_block ?cur), p_curr_buf := 0, p_remaining := ?bs,
                    p_position := add32 (p_position ?cur) n\<rparr>"
  have inv: "lb_inv lb" using s by (simp add: lb_safe_def)
  have cur: "pos_at lb ?cur" and lim: "pos_at lb ?lim" and tot: "lb_total lb < INVALID_VALUE"
    using inv False by (simp_all add: lb_inv_def)
  have n: "p_position ?cur + n \<le> p_position ?lim"
    using ok False lb_unread_eq [OF inv] inv by (auto simp: lb_inv_def)
  then have add: "add32 (p_position ?cur) n = p_position ?cur + n"
    using pos_at_position [OF inv lim] by (simp add: arith32)
  have addr: "pos_addr lb ?cur + n \<le> pos_addr lb ?lim" "pos_addr lb ?lim < lb_total lb"
    using n cur lim by (simp_all add: pos_at_def)
  have small: "p_remaining ?cur < two32"
  proof -
    have "l_blocks lb \<noteq> []" "p_remaining ?cur \<le> ?bs"
      using cur by (auto simp: pos_at_def pos_in_def node_exists_def)
    then have "p_remaining ?cur \<le> lb_total lb"
      using le_trans [of "p_remaining ?cur" ?bs "length (l_blocks lb) * ?bs"]
      by (cases "l_blocks lb") (simp_all add: lb_total_def)
    with tot INVALID_less_two32 show ?thesis by simp
  qed
  have safe: "lb_safe bs w (lb\<lparr>l_current := p\<rparr>)"
    if "pos_at lb p" "p_position p = p_position ?cur + n" for p
    using lb_inv_current [OF inv that(1)] that(2) n False s by (auto simp: lb_safe_def lb_below_def)
  have moved: "pos_at lb ?moved" if "n \<le> p_remaining ?cur"
    using that cur add addr small
    by (auto simp: pos_at_def pos_in_def pos_addr_def arith32)
  have nxt: "node_exists lb (Suc (p_block ?cur)) \<and> pos_at lb ?next"
    if "n = p_remaining ?cur" "p_block ?cur \<noteq> p_block ?lim"
  proof -
    have "pos_in lb ?cur" using cur by (simp add: pos_at_def)
    from next_block_start [OF this] that(1) addr
    have start: "(Suc (p_block ?cur) - l_first lb) * ?bs = pos_addr lb ?cur + n"
      "(Suc (p_block ?cur) - l_first lb) * ?bs < lb_total lb" by simp_all
    with inv cur have ex: "node_exists lb (Suc (p_block ?cur))"
      by (intro block_start_exists) (auto simp: lb_inv_def pos_at_def pos_in_def node_exists_def)
    then show ?thesis
      using start cur add by (auto simp: pos_at_def pos_in_def pos_addr_def)
  qed
  have within: "n \<le> p_remaining ?cur" if "p_block ?cur = p_block ?lim"
    using that addr(1) cur lim by (auto simp: pos_at_def pos_in_def pos_addr_def)
  show ?thesis
  proof (cases "p_block ?cur = p_block ?lim")
    case True
    with False n add moved within safe [of ?moved] show ?thesis
      by (intro exI [of _ True] exI [of _ "lb\<lparr>l_current := ?moved\<rparr>"]) (simp add: lb_commit_get_def)
  next
    case neq: False
    consider "p_remaining ?cur < n" | "n = p_remaining ?cur" | "n < p_remaining ?cur" by linarith
    then show ?thesis
    proof cases
      case 1
      with False neq s show ?thesis
        by (intro exI [of _ False] exI [of _ lb]) (simp add: lb_commit_get_def)
    next
      case 2
      with False neq nxt safe [of ?next] add show ?thesis
        by (intro exI [of _ True] exI [of _ "lb\<lparr>l_current := ?next\<rparr>"]) (simp add: lb_commit_get_def)
    next
      case 3
      with False neq moved safe [of ?moved] add show ?thesis
        by (intro exI [of _ True] exI [of _ "lb\<lparr>l_current := ?moved\<rparr>"]) (simp add: lb_commit_get_def)
    qed
  qed
qed

lemma lb_fits_below:
  "lb_safe bs w lb \<Longrightarrow> w + n + 1 + 2 * bs \<le> INVALID_VALUE \<Longrightarrow> lb_fits lb n"
  by (auto simp: lb_fits_def lb_safe_def lb_below_def lb_inv_def pos_at_def pos_in_def)

lemma lb_step_safe:
  assumes s: "lb_safe bs w lb" and al: "node_alloc_ok alloc bs" and ok: "lb_call_ok lb op"
    and fits: "w + lb_demand op + 1 + 2 * bs \<le> INVALID_VALUE"
  shows "\<exists>lb'. lb_step alloc lb op = Some lb' \<and> lb_safe bs (w + lb_demand op) lb'"
proof (cases op)
  case (LSkip n)
  with lb_skip_safe [OF s al, of n] lb_fits_below [OF s fits] show ?thesis
    by (auto simp: lb_step_def)
next
  case LCompact
  with lb_compact_safe [OF s] show ?thesis by (auto simp: lb_step_def)
next
  case (LPut bs)
  with lb_put_safe [OF s al, of bs] lb_fits_below [OF s fits] show ?thesis
    by (auto simp: lb_step_def)
next
  case LClear
  with s lb_clear_inv [of lb] show ?thesis
    by (auto simp: lb_step_def lb_safe_def lb_below_def lb_clear_def pos_new_def)
next
  case (LGet n)
  with lb_get_safe [OF s, of n] show ?thesis by (auto simp: lb_step_def)
next
  case (LPeek n)
  obtain r lb' where "lb_get lb n = Some (r, lb')" "lb_safe bs w lb'"
    "lb_safe bs w (lb'\<lparr>l_current := l_current lb\<rparr>)" using lb_get_safe [OF s] by blast
  with LPeek show ?thesis by (cases r) (simp_all add: lb_step_def lb_peek_def)
next
  case (LCommitGet ptr n)
  with lb_commit_get_safe [OF s, of n ptr] ok show ?thesis by (auto simp: lb_step_def)
next
  case (LReserve n)
  with lb_reserve_safe [OF s al, of n] fits lb_safe_mono [of bs w _ "w + n"] show ?thesis
    by (fastforce simp: lb_step_def)
qed (use s in \<open>auto simp: lb_step_def lb_safe_def lb_below_def lb_inv_def lb_set_mark_def lb_reset_def
        lb_rewind_def lb_flip_def\<close>)

text \<open>From one chain into another, with an allocator that may fail.\<close>

lemma lb_get_to_safe:
  assumes s: "lb_safe bs w lb" "lb_safe bs w buf" and al: "node_alloc_ok alloc bs"
    and fits: "w + n + 1 + 2 * bs \<le> INVALID_VALUE"
  shows "\<exists>r lb' buf'. lb_get_to alloc lb buf n = Some (r, lb', buf') \<and> lb_safe bs (w + n) lb' \<and>
           lb_safe bs (w + n) buf'"
proof (cases "p_invalid (l_limit lb) \<or> lb_unread lb < n \<or> \<not> p_invalid (l_limit buf)")
  case True
  with s show ?thesis using lb_safe_mono [of bs w _ "w + n"]
    by (intro exI [of _ False] exI [of _ lb] exI [of _ buf]) (auto simp: lb_get_to_def)
next
  case False
  have inv: "lb_inv lb" "lb_inv buf" and bs: "l_block_size buf = bs"
    using s by (simp_all add: lb_safe_def)
  obtain xs ys where ch: "lb_chan lb = Reading xs" "lb_chan buf = Writing ys"
    using False by (simp add: lb_chan_def)
  have n: "n \<le> length xs" using lb_chan_Reading(2) [OF inv(1) ch(1)] False by simp
  obtain r ex where r: "lb_make_room alloc buf n = Some (r, lb_grow buf ex)"
    "lb_inv (lb_grow buf ex)"
    "r \<longrightarrow> p_position (l_current buf) + n < l_usable (lb_grow buf ex)"
    using lb_make_room_spec [OF inv(2), of alloc n] al bs lb_fits_below [OF s(2) fits] by blast
  have gs: "lb_safe bs w (lb_grow buf ex)" using r(2) s(2) by (simp add: lb_safe_def lb_below_def)
  show ?thesis
  proof (cases r)
    case no: False
    with r(1) False gs s show ?thesis using lb_safe_mono [of bs w _ "w + n"]
      by (intro exI [of _ False] exI [of _ lb] exI [of _ "lb_grow buf ex"])
        (simp add: lb_get_to_def)
  next
    case True
    have "lb_chan (lb_grow buf ex) = Writing ys" using lb_grow_chan [OF inv(2)] ch(2) by simp
    with True r False obtain p buf' where p:
      "lb_get_to alloc lb buf n = Some (True, lb\<lparr>l_current := p\<rparr>, buf')" "pos_at lb p"
      "p_position p = p_position (l_current lb) + n" "lb_inv buf'" "lb_after (lb_grow buf ex) n buf'"
      using lb_get_to_within [OF inv(1) ch(1) n r(2), of ys alloc buf] by auto
    have "lb_safe bs (w + n) (lb\<lparr>l_current := p\<rparr>)"
      using lb_read_moves(1) [OF inv(1) ch(1) n p(2,3)] s(1) p(3)
      by (auto simp: lb_safe_def lb_below_def)
    moreover have "lb_safe bs (w + n) buf'"
      using p(4,5) gs by (auto simp: lb_safe_def lb_below_def lb_after_def)
    ultimately show ?thesis using p(1) by blast
  qed
qed

text \<open>
  Several chains and the calls between them: \<open>GetInto i j n\<close> is \<open>i.get(j, n)\<close> and \<open>j.put(i, n)\<close>,
  \<open>GetAllInto i j\<close> is \<open>i.get(j)\<close> and \<open>j.put(i)\<close>. Every call has an allocator of its own, so any
  allocation of a run may fail.
\<close>

datatype chain_op = On nat lb_op | GetInto nat nat nat | GetAllInto nat nat

fun chain_step :: "node_alloc \<Rightarrow> linked_buffer list \<Rightarrow> chain_op \<Rightarrow> linked_buffer list option" where
  "chain_step alloc lbs (On i op) = map_option (\<lambda>lb'. lbs[i := lb']) (lb_step alloc (lbs ! i) op)"
| "chain_step alloc lbs (GetInto i j n) =
     map_option (\<lambda>(_, lb', buf'). lbs[i := lb', j := buf']) (lb_get_to alloc (lbs ! i) (lbs ! j) n)"
| "chain_step alloc lbs (GetAllInto i j) =
     map_option (\<lambda>(_, lb', buf'). lbs[i := lb', j := buf']) (lb_get_all alloc (lbs ! i) (lbs ! j))"

fun chain_run :: "linked_buffer list \<Rightarrow> (node_alloc \<times> chain_op) list \<Rightarrow> linked_buffer list option" where
  "chain_run lbs [] = Some lbs"
| "chain_run lbs ((alloc, op) # ops) =
     Option.bind (chain_step alloc lbs op) (\<lambda>lbs'. chain_run lbs' ops)"

fun chain_call_ok :: "linked_buffer list \<Rightarrow> chain_op \<Rightarrow> bool" where
  "chain_call_ok lbs (On i op) \<longleftrightarrow> i < length lbs \<and> lb_call_ok (lbs ! i) op"
| "chain_call_ok lbs (GetInto i j n) \<longleftrightarrow> i < length lbs \<and> j < length lbs"
| "chain_call_ok lbs (GetAllInto i j) \<longleftrightarrow> i < length lbs \<and> j < length lbs"

fun chain_calls_ok :: "linked_buffer list \<Rightarrow> (node_alloc \<times> chain_op) list \<Rightarrow> bool" where
  "chain_calls_ok lbs [] = True"
| "chain_calls_ok lbs ((alloc, op) # ops) =
     (chain_call_ok lbs op \<and>
      (case chain_step alloc lbs op of None \<Rightarrow> True | Some lbs' \<Rightarrow> chain_calls_ok lbs' ops))"

text \<open>The bytes the calls of a run ask for.\<close>

fun chain_size :: "linked_buffer list \<Rightarrow> chain_op \<Rightarrow> nat" where
  "chain_size lbs (On i op) = lb_demand op"
| "chain_size lbs (GetInto i j n) = n"
| "chain_size lbs (GetAllInto i j) =
     (if p_invalid (l_limit (lbs ! i)) then 0 else lb_unread (lbs ! i))"

fun chain_asks :: "linked_buffer list \<Rightarrow> (node_alloc \<times> chain_op) list \<Rightarrow> nat" where
  "chain_asks lbs [] = 0"
| "chain_asks lbs ((alloc, op) # ops) =
     chain_size lbs op +
     (case chain_step alloc lbs op of None \<Rightarrow> 0 | Some lbs' \<Rightarrow> chain_asks lbs' ops)"

lemma set_update_both:
  "\<forall>x\<in>set xs. P x \<Longrightarrow> P a \<Longrightarrow> P b \<Longrightarrow> \<forall>x\<in>set (xs[i := a, j := b]). P x"
  using set_update_subset_insert [of "xs[i := a]" j b] set_update_subset_insert [of xs i a] by blast

lemma chain_step_safe:
  assumes s: "\<forall>lb\<in>set lbs. lb_safe bs w lb" and al: "node_alloc_ok alloc bs"
    and ok: "chain_call_ok lbs op" and fits: "w + chain_size lbs op + 1 + 2 * bs \<le> INVALID_VALUE"
  shows "\<exists>lbs'. chain_step alloc lbs op = Some lbs' \<and>
           (\<forall>lb\<in>set lbs'. lb_safe bs (w + chain_size lbs op) lb)"
proof -
  let ?w = "w + chain_size lbs op"
  have rest: "\<forall>lb\<in>set lbs. lb_safe bs ?w lb" using s lb_safe_mono [of bs w _ ?w] by simp
  show ?thesis
  proof (cases op)
    case (On i op')
    with ok s have "lb_safe bs w (lbs ! i)" "lb_call_ok (lbs ! i) op'" by simp_all
    from lb_step_safe [OF this(1) al this(2)] fits On obtain lb' where
      step: "lb_step alloc (lbs ! i) op' = Some lb'" and safe: "lb_safe bs ?w lb'" by auto
    have "\<forall>lb\<in>set (lbs[i := lb']). lb_safe bs ?w lb"
      using set_update_both [OF rest safe safe, of i i] by simp
    with On step show ?thesis by simp
  next
    case (GetInto i j n)
    with ok s have "lb_safe bs w (lbs ! i)" "lb_safe bs w (lbs ! j)" by simp_all
    from lb_get_to_safe [OF this al, of n] fits GetInto obtain r lb' buf' where
      step: "lb_get_to alloc (lbs ! i) (lbs ! j) n = Some (r, lb', buf')"
      and safe: "lb_safe bs ?w lb'" "lb_safe bs ?w buf'" by auto
    from GetInto step set_update_both [OF rest safe, of i j] show ?thesis by simp
  next
    case (GetAllInto i j)
    with ok s have safe: "lb_safe bs w (lbs ! i)" "lb_safe bs w (lbs ! j)" by simp_all
    have "\<exists>r lb' buf'. lb_get_all alloc (lbs ! i) (lbs ! j) = Some (r, lb', buf') \<and>
        lb_safe bs ?w lb' \<and> lb_safe bs ?w buf'"
    proof (cases "p_invalid (l_limit (lbs ! i))")
      case True
      with safe GetAllInto show ?thesis
        by (intro exI [of _ False] exI [of _ "lbs ! i"] exI [of _ "lbs ! j"])
          (simp add: lb_get_all_def lb_get_to_def)
    next
      case False
      with lb_get_to_safe [OF safe al, of "lb_unread (lbs ! i)"] fits GetAllInto show ?thesis
        by (simp add: lb_get_all_def lb_remaining_def)
    qed
    then obtain r lb' buf' where
      step: "lb_get_all alloc (lbs ! i) (lbs ! j) = Some (r, lb', buf')"
      and safe': "lb_safe bs ?w lb'" "lb_safe bs ?w buf'" by blast
    from GetAllInto step set_update_both [OF rest safe', of i j] show ?thesis by simp
  qed
qed

lemma chain_run_safe:
  assumes "\<forall>lb\<in>set lbs. lb_safe bs w lb" "\<forall>(alloc, op)\<in>set ops. node_alloc_ok alloc bs"
    and "chain_calls_ok lbs ops" "w + chain_asks lbs ops + 1 + 2 * bs \<le> INVALID_VALUE"
  shows "\<exists>lbs'. chain_run lbs ops = Some lbs' \<and> (\<forall>lb\<in>set lbs'. lb_inv lb)"
  using assms
proof (induction ops arbitrary: lbs w)
  case Nil then show ?case by (simp add: lb_safe_def)
next
  case (Cons call ops)
  obtain alloc op where call: "call = (alloc, op)" by fastforce
  with Cons.prems obtain lbs1 where lbs1: "chain_step alloc lbs op = Some lbs1"
      "\<forall>lb\<in>set lbs1. lb_safe bs (w + chain_size lbs op) lb"
    using chain_step_safe [of lbs bs w alloc op] by auto
  with Cons.IH [of lbs1 "w + chain_size lbs op"] Cons.prems call show ?case by simp
qed

lemma lb_new_inv:
  assumes "lb_new alloc unit header = Some (Some lb)" "node_alloc_ok alloc (unit - header)"
    and "unit < INVALID_VALUE"
  shows "lb_safe (unit - header) 0 lb" "lb_chan lb = Writing []"
  using assms
  by (auto simp: lb_new_def lb_safe_def lb_below_def lb_inv_def lb_chan_def pos_at_def pos_in_def
      pos_addr_def pos_new_def pos_invalid_def node_exists_def lb_total_def lb_blocks_ok_def
      node_alloc_ok_def split: if_splits option.splits)

section \<open>Properties\<close>

definition demo_nodes :: node_alloc where
  "demo_nodes i = Some [0, 0, 0, 0]"

definition demo_chain :: linked_buffer where
  "demo_chain = \<lparr>l_current = pos_new 0 0 0 4, l_zero = pos_new 0 0 0 4, l_mark = pos_invalid,
     l_limit = pos_invalid, l_block_size = 4, l_capacity = 4, l_usable = 4, l_first = 0,
     l_blocks = [[0, 0, 0, 0]]\<rparr>"

lemma demo_chain_new: "lb_new demo_nodes 12 8 = Some (Some demo_chain)"
  by (simp add: lb_new_def demo_nodes_def demo_chain_def)

lemma demo_nodes_ok: "node_alloc_ok demo_nodes (12 - 8)"
  by (simp add: node_alloc_ok_def demo_nodes_def)

lemma demo_chain_inv: "lb_inv demo_chain" "lb_chan demo_chain = Writing []"
  using lb_new_inv [OF demo_chain_new demo_nodes_ok] by (simp_all add: lb_safe_def INVALID_VALUE_def)

lemma demo_chain_room: "n \<le> 1000 \<Longrightarrow> lb_room demo_nodes demo_chain n"
  by (simp add: lb_room_def demo_nodes_def demo_chain_def lb_fits_def INVALID_VALUE_def pos_new_def)

text \<open>C4. No sequence of public calls on any number of new chained buffers with the same page
  size, in any order and in either mode, transfers from one buffer into another included, and
  whichever allocations fail, follows a \<open>next\<close> pointer past the last block or copies outside a
  block, and every chain's invariant holds at the end, under two conditions: each \<open>commit_get\<close>
  commits at most \<open>remaining()\<close> bytes, and the bytes that the calls \<open>put\<close>, \<open>skip\<close>, \<open>reserve\<close>
  and transfer stay below \<open>2 ^ 32 - 2\<close> less two pages.\<close>

theorem linked_buffer_memory_safe:
  assumes "\<forall>lb\<in>set lbs. \<exists>alloc. lb_new alloc unit header = Some (Some lb) \<and>
             node_alloc_ok alloc (unit - header)"
    and "\<forall>(alloc, op)\<in>set ops. node_alloc_ok alloc (unit - header)"
    and "chain_calls_ok lbs ops"
    and "chain_asks lbs ops + 1 + 2 * unit \<le> INVALID_VALUE"
  shows "\<exists>lbs'. chain_run lbs ops = Some lbs' \<and> (\<forall>lb\<in>set lbs'. lb_inv lb)"
proof (rule chain_run_safe)
  show "\<forall>lb\<in>set lbs. lb_safe (unit - header) 0 lb"
    using lb_new_inv(1) assms(1,4) by (auto dest!: bspec)
qed (use assms in auto)

text \<open>Two chains: one is written, read and drained into the other, whose growth fails first.\<close>

definition demo_chain_calls :: "(node_alloc \<times> chain_op) list" where
  "demo_chain_calls =
     [(demo_nodes, On 0 (LPut [1, 2, 3, 4, 5, 6])), (demo_nodes, On 0 LFlip),
      (demo_nodes, On 0 (LPeek 2)), (demo_nodes, On 0 (LCommitGet (0, 0) 1)),
      (\<lambda>_. None, GetInto 0 1 4), (demo_nodes, On 1 (LReserve 3)), (demo_nodes, GetInto 0 1 2),
      (demo_nodes, GetAllInto 0 1), (demo_nodes, On 0 LCompact)]"

lemma demo_chain_calls_ok:
  "chain_calls_ok [demo_chain, demo_chain] demo_chain_calls"
  "chain_asks [demo_chain, demo_chain] demo_chain_calls = 18"
  by (simp_all add: demo_chain_calls_def lb_step_def demo_chain_def demo_nodes_def pos_new_def
      pos_invalid_def pos_into_def pos_moved_def pos_advance_def set_invalid_def
      node_buf_def node_exists_def mem_read_def mem_write_def arith32 two32_def INVALID_VALUE_def
      lb_make_room_def lb_reserve_def lb_reserve_loop.simps list_push_back_def lb_put_def
      lb_put_loop.simps lb_get_loop.simps lb_move_loop.simps lb_flip_def lb_peek_def lb_get_def
      lb_unread_def lb_commit_get_def lb_get_to_def lb_get_all_def lb_remaining_def lb_compact_def
      list_pop_front_def)

theorem linked_buffer_memory_safe_witness:
  "\<exists>lbs'. chain_run [demo_chain, demo_chain] demo_chain_calls = Some lbs' \<and>
     (\<forall>lb\<in>set lbs'. lb_inv lb)"
proof (rule linked_buffer_memory_safe [of _ 12 8])
  show "\<forall>(alloc, op)\<in>set demo_chain_calls. node_alloc_ok alloc (12 - 8)"
    using demo_nodes_ok by (simp add: demo_chain_calls_def) (simp add: node_alloc_ok_def)
  show "chain_asks [demo_chain, demo_chain] demo_chain_calls + 1 + 2 * 12 \<le> INVALID_VALUE"
    by (simp add: demo_chain_calls_ok(2) INVALID_VALUE_def)
qed (use demo_chain_new demo_nodes_ok demo_chain_calls_ok(1) in auto)

text \<open>C5. Bytes put block by block into a chained buffer come back unchanged and in order after
  \<open>flip\<close>, however the puts and gets straddle the blocks of the chain, and nothing is left.\<close>

theorem linked_buffer_put_flip_get:
  assumes "lb_inv lb" and "lb_chan lb = Writing []" and "lb_room alloc lb (length (concat bss))"
  shows "\<exists>b1 b2 b3. put_each (lb_put alloc) lb bss = Some (True, b1) \<and> lb_flip b1 = (True, b2) \<and>
           get_each lb_get b2 (map length bss) = Some (Some bss, b3) \<and> lb_chan b3 = Reading []"
  using lbc.put_each_flip_get_each [OF assms] by blast

theorem linked_buffer_put_flip_get_witness:
  "\<exists>b1 b2 b3. put_each (lb_put demo_nodes) demo_chain [[1, 2, 3], [4, 5, 6, 7, 8, 9]] = Some (True, b1) \<and>
     lb_flip b1 = (True, b2) \<and>
     get_each lb_get b2 (map length [[1, 2, 3], [4, 5, 6, 7, 8, 9 :: byte]])
       = Some (Some [[1, 2, 3], [4, 5, 6, 7, 8, 9]], b3) \<and>
     lb_chan b3 = Reading []"
  by (rule linked_buffer_put_flip_get [OF demo_chain_inv]) (simp add: demo_chain_room)

text \<open>C6. Moving \<open>n\<close> unread bytes of one chained buffer into another takes them from the front of
  the first and appends them, in order, to what the second holds; both stay well formed.\<close>

theorem linked_buffer_transfer:
  assumes "lb_inv lb" and "lb_chan lb = Reading xs" and "n \<le> length xs"
    and "lb_inv buf" and "lb_chan buf = Writing ys" and "lb_room alloc buf n"
  shows "\<exists>lb' buf'. lb_put_from alloc buf lb n = Some (True, buf', lb') \<and>
           lb_inv lb' \<and> lb_chan lb' = Reading (drop n xs) \<and>
           lb_inv buf' \<and> lb_chan buf' = Writing (ys @ take n xs)"
  using lb_get_to_moves [OF assms] by (auto simp: lb_put_from_def)

definition demo_full :: linked_buffer where
  "demo_full = demo_chain\<lparr>l_blocks := [[1, 2, 3, 4], [5, 6, 7, 8]], l_capacity := 8, l_usable := 8,
                          l_limit := pos_new 1 2 6 2\<rparr>"

lemma demo_full_inv: "lb_inv demo_full" "lb_chan demo_full = Reading [1, 2, 3, 4, 5, 6]"
  by (simp_all add: demo_full_def demo_chain_def lb_inv_def lb_chan_def pos_at_def pos_in_def
      pos_addr_def pos_new_def pos_invalid_def node_exists_def lb_total_def lb_blocks_ok_def
      lb_flat_def INVALID_VALUE_def)

theorem linked_buffer_transfer_witness:
  "\<exists>lb' buf'. lb_put_from demo_nodes demo_chain demo_full 5 = Some (True, buf', lb') \<and>
     lb_inv lb' \<and> lb_chan lb' = Reading (drop 5 [1, 2, 3, 4, 5, 6]) \<and>
     lb_inv buf' \<and> lb_chan buf' = Writing ([] @ take 5 [1, 2, 3, 4, 5, 6])"
  by (rule linked_buffer_transfer [OF demo_full_inv _ demo_chain_inv]) (simp_all add: demo_chain_room)

text \<open>After two blocks are filled exactly, the read limit rests at the end of the second
  block; reading the bytes in two equal parts leaves the cursor at the start of the third. There
  \<open>direct_get\<close> reports a whole block although nothing is left to read, \<open>commit_get\<close> accepts three
  bytes of it, and \<open>remaining()\<close> wraps to \<open>2 ^ 32 - 3\<close>.\<close>

lemma linked_buffer_direct_get_past_limit:
  "\<exists>b1 b2 b3 b4 b5.
     lb_put demo_nodes demo_chain [1, 2, 3, 4, 5, 6, 7, 8] = Some (True, b1) \<and>
     lb_flip b1 = (True, b2) \<and> lb_get b2 4 = Some (Some [1, 2, 3, 4], b3) \<and>
     lb_get b3 4 = Some (Some [5, 6, 7, 8], b4) \<and> lb_remaining b4 = 0 \<and>
     lb_direct_get b4 = Some ((2, 0), 4) \<and> lb_commit_get b4 (2, 0) 3 = Some (True, b5) \<and>
     lb_remaining b5 = 4294967293"
proof -
  have a: "add32 0 8 = 8" "add32 8 1 = 9" "add32 8 (Suc 0) = 9" "add32 4 4 = 8" "add32 8 4 = 12" "add32 0 4 = 4"
    "add32 8 3 = 11" "sub32 8 0 = 8" "sub32 8 4 = 4" "sub32 8 8 = 0" "sub32 8 11 = 4294967293"
    "sub32 4 3 = 1"
    by (simp_all add: add32_def sub32_def two32_def)
  note defs = demo_chain_def demo_nodes_def pos_new_def pos_invalid_def pos_into_def pos_moved_def
    node_buf_def node_exists_def mem_read_def mem_write_def a
  let ?b1 = "demo_chain\<lparr>l_blocks := [[1, 2, 3, 4], [5, 6, 7, 8], [0, 0, 0, 0]], l_capacity := 12,
      l_usable := 12, l_current := pos_new 1 4 8 0\<rparr>"
  let ?g = "demo_chain\<lparr>l_blocks := [[0, 0, 0, 0], [0, 0, 0, 0], [0, 0, 0, 0]], l_capacity := 12,
      l_usable := 12\<rparr>"
  have mk: "lb_make_room demo_nodes demo_chain 8 = Some (True, ?g)"
    by (simp add: defs lb_make_room_def lb_reserve_def lb_reserve_loop.simps list_push_back_def)
  have len: "length [1, 2, 3, 4, 5, 6, 7, 8 :: byte] = 8" by simp
  have "lb_put demo_nodes demo_chain [1, 2, 3, 4, 5, 6, 7, 8] = Some (True, ?b1)"
    unfolding lb_put_def Let_def len mk by (simp add: defs, subst lb_put_loop.simps, simp add: defs)
  moreover let ?b2 = "?b1\<lparr>l_mark := set_invalid pos_invalid, l_limit := pos_new 1 4 8 0,
      l_current := pos_new 0 0 0 4\<rparr>"
  have "lb_flip ?b1 = (True, ?b2)" by (simp add: lb_flip_def defs)
  moreover let ?b3 = "?b2\<lparr>l_current := pos_new 1 0 4 4\<rparr>"
  have "lb_get ?b2 4 = Some (Some [1, 2, 3, 4], ?b3)"
    by (simp add: lb_get_def lb_unread_def lb_get_loop.simps defs)
  moreover let ?b4 = "?b2\<lparr>l_current := pos_new 2 0 8 4\<rparr>"
  have "lb_get ?b3 4 = Some (Some [5, 6, 7, 8], ?b4)"
    by (simp add: lb_get_def lb_unread_def lb_get_loop.simps defs)
  moreover have "lb_remaining ?b4 = 0" "lb_direct_get ?b4 = Some ((2, 0), 4)"
    by (simp_all add: lb_remaining_def lb_direct_get_def lb_unread_def defs)
  moreover let ?b5 = "?b2\<lparr>l_current := pos_new 2 3 11 1\<rparr>"
  have "lb_commit_get ?b4 (2, 0) 3 = Some (True, ?b5)" "lb_remaining ?b5 = 4294967293"
    by (simp_all add: lb_commit_get_def lb_remaining_def lb_unread_def defs)
  ultimately show ?thesis
    by - (rule exI [of _ ?b1], rule exI [of _ ?b2], rule exI [of _ ?b3], rule exI [of _ ?b4],
        rule exI [of _ ?b5], intro conjI)
qed

end
