(* ===== verification/Thrift_Protocol.thy ===== *)
theory Thrift_Protocol
  imports Buffer
begin

text \<open>
  The Thrift binary protocol (\<open>net/thrift_binary_protocol.h\<close>) over a byte buffer. The writer and
  reader methods are parameters of nothing but the buffer's \<open>put\<close>, \<open>get\<close> and \<open>skip\<close>; the results
  of \<open>put\<close> are dropped, and so are those of \<open>get\<close>: a value that was not read is \<open>None\<close> in the
  result of a reader, and a method that then uses it is undefined behaviour (\<open>None\<close> as a whole).
  Signed integers are the words of their bits, a \<open>double\<close> is the word \<open>bitwise_cast\<close> makes of it,
  a \<open>std::string\<close> the list of its bytes.
\<close>

section \<open>Types\<close>

datatype ttype = T_STOP | T_VOID | T_BOOL | T_BYTE | T_DOUBLE | T_I16 | T_I32 | T_U64 | T_I64
  | T_STRING | T_STRUCT | T_MAP | T_SET | T_LIST | T_UTF8 | T_UTF16 | T_unnamed byte

fun ttype_code :: "ttype \<Rightarrow> byte" where
  "ttype_code T_STOP = 0" | "ttype_code T_VOID = 1" | "ttype_code T_BOOL = 2"
| "ttype_code T_BYTE = 3" | "ttype_code T_DOUBLE = 4" | "ttype_code T_I16 = 6"
| "ttype_code T_I32 = 8" | "ttype_code T_U64 = 9" | "ttype_code T_I64 = 10"
| "ttype_code T_STRING = 11" | "ttype_code T_STRUCT = 12" | "ttype_code T_MAP = 13"
| "ttype_code T_SET = 14" | "ttype_code T_LIST = 15" | "ttype_code T_UTF8 = 16"
| "ttype_code T_UTF16 = 17" | "ttype_code (T_unnamed b) = b"

text \<open>The cast \<open>(TType) b\<close>; a code without an enumerator is kept as it is.\<close>

definition ttype_of_code :: "byte \<Rightarrow> ttype" where
  "ttype_of_code b =
     (if b = 0 then T_STOP else if b = 1 then T_VOID else if b = 2 then T_BOOL
      else if b = 3 then T_BYTE else if b = 4 then T_DOUBLE else if b = 6 then T_I16
      else if b = 8 then T_I32 else if b = 9 then T_U64 else if b = 10 then T_I64
      else if b = 11 then T_STRING else if b = 12 then T_STRUCT else if b = 13 then T_MAP
      else if b = 14 then T_SET else if b = 15 then T_LIST else if b = 16 then T_UTF8
      else if b = 17 then T_UTF16 else T_unnamed b)"

datatype message_type = T_CALL | T_REPLY | T_EXCEPTION | T_ONEWAY | M_unnamed u32

fun message_code :: "message_type \<Rightarrow> u32" where
  "message_code T_CALL = 1" | "message_code T_REPLY = 2" | "message_code T_EXCEPTION = 3"
| "message_code T_ONEWAY = 4" | "message_code (M_unnamed w) = w"

definition message_of_code :: "u32 \<Rightarrow> message_type" where
  "message_of_code w =
     (if w = 1 then T_CALL else if w = 2 then T_REPLY else if w = 3 then T_EXCEPTION
      else if w = 4 then T_ONEWAY else M_unnamed w)"

fun named_type :: "ttype \<Rightarrow> bool" where
  "named_type (T_unnamed _) = False" | "named_type _ = True"

fun named_message :: "message_type \<Rightarrow> bool" where
  "named_message (M_unnamed _) = False" | "named_message _ = True"

lemma ttype_of_code_code: "named_type t \<Longrightarrow> ttype_of_code (ttype_code t) = t"
  by (cases t) (simp_all add: ttype_of_code_def)

lemma ttype_code_of_code: "ttype_code (ttype_of_code b) = b"
  by (simp add: ttype_of_code_def)

lemma message_of_code_code: "named_message m \<Longrightarrow> message_of_code (message_code m) = m"
  by (cases m) (simp_all add: message_of_code_def)

definition VERSION_MASK :: u32 where "VERSION_MASK = 0xffff0000"
definition VERSION_1 :: u32 where "VERSION_1 = 0x80010000"

section \<open>Writing\<close>

type_synonym 's putter = "'s \<Rightarrow> byte list \<Rightarrow> (bool \<times> 's) option"
type_synonym 's getter = "'s \<Rightarrow> nat \<Rightarrow> (byte list option \<times> 's) option"
type_synonym 's skipper = "'s \<Rightarrow> nat \<Rightarrow> (bool \<times> 's) option"

text \<open>\<open>wsize += write(...)\<close> twice over.\<close>

definition wseq :: "('s \<Rightarrow> (nat \<times> 's) option) \<Rightarrow> ('s \<Rightarrow> (nat \<times> 's) option) \<Rightarrow> 's \<Rightarrow> (nat \<times> 's) option" where
  "wseq w1 w2 s = Option.bind (w1 s) (\<lambda>(m, s1). map_option (\<lambda>(n, s2). (add32 m n, s2)) (w2 s1))"

text \<open>\<open>put\<close> of one integer, its result dropped.\<close>

definition put_count :: "'s putter \<Rightarrow> byte list \<Rightarrow> 's \<Rightarrow> (nat \<times> 's) option" where
  "put_count put bs s = map_option (\<lambda>(_, s'). (length bs, s')) (put s bs)"

definition writeBool :: "'s putter \<Rightarrow> bool \<Rightarrow> 's \<Rightarrow> (nat \<times> 's) option" where
  "writeBool put value = put_count put (le_bytes 1 (if value then 1 else (0 :: byte)))"

definition writeByte :: "'s putter \<Rightarrow> byte \<Rightarrow> 's \<Rightarrow> (nat \<times> 's) option" where
  "writeByte put b = put_count put (le_bytes 1 b)"

definition writeI16 :: "'s putter \<Rightarrow> u16 \<Rightarrow> 's \<Rightarrow> (nat \<times> 's) option" where
  "writeI16 put i16 = put_count put (num_bytes_16 True i16)"

definition writeI32 :: "'s putter \<Rightarrow> u32 \<Rightarrow> 's \<Rightarrow> (nat \<times> 's) option" where
  "writeI32 put i32 = put_count put (num_bytes_32 True i32)"

definition writeI64 :: "'s putter \<Rightarrow> u64 \<Rightarrow> 's \<Rightarrow> (nat \<times> 's) option" where
  "writeI64 put i64 = put_count put (num_bytes_64 True i64)"

definition writeDouble :: "'s putter \<Rightarrow> u64 \<Rightarrow> 's \<Rightarrow> (nat \<times> 's) option" where
  "writeDouble put bits = put_count put (num_bytes_64 True bits)"

text \<open>The size is cut to 32 bits; the code writes that many bytes of the string.\<close>

definition writeString :: "'s putter \<Rightarrow> byte list \<Rightarrow> 's \<Rightarrow> (nat \<times> 's) option" where
  "writeString put str s =
     (let sz = length str mod two32 in
      Option.bind (writeI32 put (of_nat sz) s) (\<lambda>(result, s1).
        if sz > 0 then map_option (\<lambda>(_, s2). (add32 result sz, s2)) (put s1 (take sz str))
        else Some (add32 result sz, s1)))"

definition writeBinary :: "'s putter \<Rightarrow> byte list \<Rightarrow> 's \<Rightarrow> (nat \<times> 's) option" where
  "writeBinary put str = writeString put str"

definition writeMessageBegin ::
    "'s putter \<Rightarrow> byte list \<Rightarrow> message_type \<Rightarrow> u32 \<Rightarrow> 's \<Rightarrow> (nat \<times> 's) option" where
  "writeMessageBegin put name messageType seqid =
     wseq (wseq (writeI32 put (VERSION_1 OR message_code messageType)) (writeString put name))
       (writeI32 put seqid)"

definition writeFieldBegin :: "'s putter \<Rightarrow> ttype \<Rightarrow> u16 \<Rightarrow> 's \<Rightarrow> (nat \<times> 's) option" where
  "writeFieldBegin put fieldType fieldId =
     wseq (writeByte put (ttype_code fieldType)) (writeI16 put fieldId)"

definition writeFieldStop :: "'s putter \<Rightarrow> 's \<Rightarrow> (nat \<times> 's) option" where
  "writeFieldStop put = writeByte put (ttype_code T_STOP)"

definition writeMapBegin :: "'s putter \<Rightarrow> ttype \<Rightarrow> ttype \<Rightarrow> u32 \<Rightarrow> 's \<Rightarrow> (nat \<times> 's) option" where
  "writeMapBegin put keyType valType sz =
     wseq (wseq (writeByte put (ttype_code keyType)) (writeByte put (ttype_code valType)))
       (writeI32 put sz)"

definition writeListBegin :: "'s putter \<Rightarrow> ttype \<Rightarrow> u32 \<Rightarrow> 's \<Rightarrow> (nat \<times> 's) option" where
  "writeListBegin put elemType sz =
     wseq (writeByte put (ttype_code elemType)) (writeI32 put sz)"

definition writeSetBegin :: "'s putter \<Rightarrow> ttype \<Rightarrow> u32 \<Rightarrow> 's \<Rightarrow> (nat \<times> 's) option" where
  "writeSetBegin put elemType sz =
     wseq (writeByte put (ttype_code elemType)) (writeI32 put sz)"

section \<open>Reading\<close>

text \<open>\<open>get\<close> of one integer, its result dropped: the count and the value, if one was read.\<close>

definition get_count ::
    "'s getter \<Rightarrow> nat \<Rightarrow> (byte list \<Rightarrow> 'a) \<Rightarrow> 's \<Rightarrow> (nat \<times> 'a option \<times> 's) option" where
  "get_count get n conv s = map_option (\<lambda>(r, s'). (n, map_option conv r, s')) (get s n)"

definition readByte :: "'s getter \<Rightarrow> 's \<Rightarrow> (nat \<times> byte option \<times> 's) option" where
  "readByte get = get_count get 1 le_word"

definition readI16 :: "'s getter \<Rightarrow> 's \<Rightarrow> (nat \<times> u16 option \<times> 's) option" where
  "readI16 get = get_count get 2 (bytes_num_16 True)"

definition readI32 :: "'s getter \<Rightarrow> 's \<Rightarrow> (nat \<times> u32 option \<times> 's) option" where
  "readI32 get = get_count get 4 (bytes_num_32 True)"

definition readI64 :: "'s getter \<Rightarrow> 's \<Rightarrow> (nat \<times> u64 option \<times> 's) option" where
  "readI64 get = get_count get 8 (bytes_num_64 True)"

text \<open>Continue with a value that must have been read.\<close>

definition rbind :: "(nat \<times> 'a option \<times> 's) option \<Rightarrow> (nat \<Rightarrow> 'a \<Rightarrow> 's \<Rightarrow> 'b option) \<Rightarrow> 'b option" where
  "rbind r f = Option.bind r (\<lambda>(n, v, s). case v of None \<Rightarrow> None | Some x \<Rightarrow> f n x s)"

definition readBool :: "'s getter \<Rightarrow> 's \<Rightarrow> (nat \<times> bool \<times> 's) option" where
  "readBool get s = rbind (readByte get s) (\<lambda>_ b s'. Some (1, b \<noteq> 0, s'))"

definition readDouble :: "'s getter \<Rightarrow> 's \<Rightarrow> (nat \<times> u64 \<times> 's) option" where
  "readDouble get s = rbind (readI64 get s) (\<lambda>_ bits s'. Some (8, bits, s'))"

text \<open>\<open>str.resize(size)\<close>, then \<open>get\<close> into the string's bytes; a refused \<open>get\<close> leaves them.\<close>

definition string_resize :: "byte list \<Rightarrow> nat \<Rightarrow> byte list" where
  "string_resize str n = take n str @ replicate (n - length str) 0"

definition readStringBody ::
    "'s getter \<Rightarrow> byte list \<Rightarrow> nat \<Rightarrow> 's \<Rightarrow> (nat \<times> byte list \<times> 's) option" where
  "readStringBody get str sz s =
     (if sz = 0 then Some (0, [], s)
      else map_option (\<lambda>(r, s').
             (sz, case r of None \<Rightarrow> string_resize str sz | Some bs \<Rightarrow> bs, s')) (get s sz))"

definition readString :: "'s getter \<Rightarrow> byte list \<Rightarrow> 's \<Rightarrow> (nat \<times> byte list \<times> 's) option" where
  "readString get str s =
     rbind (readI32 get s) (\<lambda>result sz s1.
       map_option (\<lambda>(m, str', s2). (add32 result m, str', s2))
         (readStringBody get str (unat sz) s1))"

definition readBinary :: "'s getter \<Rightarrow> byte list \<Rightarrow> 's \<Rightarrow> (nat \<times> byte list \<times> 's) option" where
  "readBinary get str s = readString get str s"

datatype thrift_error = Bad_version_identifier

definition readMessageBegin :: "'s getter \<Rightarrow> byte list \<Rightarrow> 's
    \<Rightarrow> ((thrift_error + nat \<times> byte list \<times> message_type \<times> u32 option) \<times> 's) option" where
  "readMessageBegin get name s =
     rbind (readI32 get s) (\<lambda>r1 sz s1.
       if sz AND VERSION_MASK \<noteq> VERSION_1 then Some (Inl Bad_version_identifier, s1)
       else Option.bind (readString get name s1) (\<lambda>(r2, name', s2).
              map_option (\<lambda>(r3, seqid, s3).
                  (Inr (add32 (add32 r1 r2) r3, name', message_of_code (sz AND 0xff), seqid), s3))
                (readI32 get s2)))"

definition readFieldBegin :: "'s getter \<Rightarrow> 's \<Rightarrow> (nat \<times> (ttype \<times> u16 option) \<times> 's) option" where
  "readFieldBegin get s =
     rbind (readByte get s) (\<lambda>r1 b s1.
       let fieldType = ttype_of_code b in
       if fieldType = T_STOP then Some (r1, (fieldType, Some 0), s1)
       else map_option (\<lambda>(r2, fieldId, s2). (add32 r1 r2, (fieldType, fieldId), s2)) (readI16 get s1))"

definition readMapBegin :: "'s getter \<Rightarrow> 's \<Rightarrow> (nat \<times> (ttype \<times> ttype \<times> u32) \<times> 's) option" where
  "readMapBegin get s =
     rbind (readByte get s) (\<lambda>r1 k s1.
       rbind (readByte get s1) (\<lambda>r2 v s2.
         rbind (readI32 get s2) (\<lambda>r3 sizei s3.
           Some (add32 (add32 r1 r2) r3, (ttype_of_code k, ttype_of_code v, sizei), s3))))"

definition readListBegin :: "'s getter \<Rightarrow> 's \<Rightarrow> (nat \<times> (ttype \<times> u32) \<times> 's) option" where
  "readListBegin get s =
     rbind (readByte get s) (\<lambda>r1 e s1.
       rbind (readI32 get s1) (\<lambda>r2 sizei s2. Some (add32 r1 r2, (ttype_of_code e, sizei), s2)))"

definition readSetBegin :: "'s getter \<Rightarrow> 's \<Rightarrow> (nat \<times> (ttype \<times> u32) \<times> 's) option" where
  "readSetBegin get s =
     rbind (readByte get s) (\<lambda>r1 e s1.
       rbind (readI32 get s1) (\<lambda>r2 sizei s2. Some (add32 r1 r2, (ttype_of_code e, sizei), s2)))"

section \<open>Skipping\<close>

text \<open>
  \<open>skip(type)\<close> calls itself in its loops. The loops take the nested call as a function; the last
  argument but the state is \<open>result\<close> so far. The loop over the fields of a struct ends at a
  \<open>T_STOP\<close>; its turns and the depth of the nesting are bounded by fuel. \<open>None\<close> is undefined
  behaviour or too little fuel.
\<close>

primrec skip_elems ::
    "('s \<Rightarrow> (nat \<times> 's) option) \<Rightarrow> nat \<Rightarrow> nat \<Rightarrow> 's \<Rightarrow> (nat \<times> 's) option" where
  "skip_elems one 0 result s = Some (result, s)"
| "skip_elems one (Suc n) result s =
     Option.bind (one s) (\<lambda>(m, s1). skip_elems one n (add32 result m) s1)"

primrec skip_pairs ::
    "('s \<Rightarrow> (nat \<times> 's) option) \<Rightarrow> ('s \<Rightarrow> (nat \<times> 's) option) \<Rightarrow> nat \<Rightarrow> nat \<Rightarrow> 's
     \<Rightarrow> (nat \<times> 's) option" where
  "skip_pairs key val 0 result s = Some (result, s)"
| "skip_pairs key val (Suc n) result s =
     Option.bind (key s) (\<lambda>(k, s1). Option.bind (val s1) (\<lambda>(v, s2).
       skip_pairs key val n (add32 (add32 result k) v) s2))"

primrec skip_fields ::
    "nat \<Rightarrow> 's getter \<Rightarrow> (ttype \<Rightarrow> 's \<Rightarrow> (nat \<times> 's) option) \<Rightarrow> nat \<Rightarrow> 's \<Rightarrow> (nat \<times> 's) option" where
  "skip_fields 0 get one result s = None"
| "skip_fields (Suc k) get one result s =
     Option.bind (readFieldBegin get s) (\<lambda>(n, (ftype, fid), s1).
       if ftype = T_STOP then Some (add32 result n, s1)
       else Option.bind (one ftype s1) (\<lambda>(m, s2).
              skip_fields k get one (add32 (add32 result n) m) s2))"

definition skip_fixed :: "'s skipper \<Rightarrow> nat \<Rightarrow> 's \<Rightarrow> (nat \<times> 's) option" where
  "skip_fixed skip n s = map_option (\<lambda>(_, s'). (n, s')) (skip s n)"

primrec thrift_skip :: "nat \<Rightarrow> 's getter \<Rightarrow> 's skipper \<Rightarrow> ttype \<Rightarrow> 's \<Rightarrow> (nat \<times> 's) option" where
  "thrift_skip 0 get skip t s = None"
| "thrift_skip (Suc k) get skip t s =
     (case t of
        T_BOOL \<Rightarrow> skip_fixed skip 1 s
      | T_BYTE \<Rightarrow> skip_fixed skip 1 s
      | T_I16 \<Rightarrow> skip_fixed skip 2 s
      | T_I32 \<Rightarrow> skip_fixed skip 4 s
      | T_I64 \<Rightarrow> skip_fixed skip 8 s
      | T_DOUBLE \<Rightarrow> skip_fixed skip 8 s
      | T_STRING \<Rightarrow>
          rbind (readI32 get s) (\<lambda>result sz s1.
            map_option (\<lambda>(_, s2). (add32 result (unat sz), s2)) (skip s1 (unat sz)))
      | T_STRUCT \<Rightarrow> skip_fields k get (thrift_skip k get skip) 0 s
      | T_MAP \<Rightarrow> Option.bind (readMapBegin get s) (\<lambda>(result, (kt, vt, sz), s1).
                   skip_pairs (thrift_skip k get skip kt) (thrift_skip k get skip vt) (unat sz)
                     result s1)
      | T_SET \<Rightarrow> Option.bind (readSetBegin get s) (\<lambda>(result, (et, sz), s1).
                   skip_elems (thrift_skip k get skip et) (unat sz) result s1)
      | T_LIST \<Rightarrow> Option.bind (readListBegin get s) (\<lambda>(result, (et, sz), s1).
                   skip_elems (thrift_skip k get skip et) (unat sz) result s1)
      | _ \<Rightarrow> Some (0, s))"

section \<open>The wire format\<close>

text \<open>Values of the protocol and their bytes, the format the methods above write piece by piece.\<close>

datatype tvalue = VBool bool | VByte byte | VI16 u16 | VI32 u32 | VI64 u64 | VDouble u64
  | VString "byte list" | VStruct "(u16 \<times> tvalue) list" | VMap ttype ttype "(tvalue \<times> tvalue) list"
  | VSet ttype "tvalue list" | VList ttype "tvalue list"

fun tvalue_type :: "tvalue \<Rightarrow> ttype" where
  "tvalue_type (VBool _) = T_BOOL" | "tvalue_type (VByte _) = T_BYTE"
| "tvalue_type (VI16 _) = T_I16" | "tvalue_type (VI32 _) = T_I32" | "tvalue_type (VI64 _) = T_I64"
| "tvalue_type (VDouble _) = T_DOUBLE" | "tvalue_type (VString _) = T_STRING"
| "tvalue_type (VStruct _) = T_STRUCT" | "tvalue_type (VMap _ _ _) = T_MAP"
| "tvalue_type (VSet _ _) = T_SET" | "tvalue_type (VList _ _) = T_LIST"

definition enc_list_begin :: "ttype \<Rightarrow> nat \<Rightarrow> byte list" where
  "enc_list_begin t n = ttype_code t # num_bytes_32 True (of_nat n)"

definition enc_map_begin :: "ttype \<Rightarrow> ttype \<Rightarrow> nat \<Rightarrow> byte list" where
  "enc_map_begin k v n = ttype_code k # ttype_code v # num_bytes_32 True (of_nat n)"

definition enc_field_begin :: "ttype \<Rightarrow> u16 \<Rightarrow> byte list" where
  "enc_field_begin t i = ttype_code t # num_bytes_16 True i"

definition enc_string :: "byte list \<Rightarrow> byte list" where
  "enc_string str = num_bytes_32 True (of_nat (length str)) @ str"

definition enc_message_begin :: "byte list \<Rightarrow> message_type \<Rightarrow> u32 \<Rightarrow> byte list" where
  "enc_message_begin name m seqid =
     num_bytes_32 True (VERSION_1 OR message_code m) @ enc_string name @ num_bytes_32 True seqid"

fun enc :: "tvalue \<Rightarrow> byte list" where
  "enc (VBool b) = [if b then 1 else 0]"
| "enc (VByte b) = [b]"
| "enc (VI16 x) = num_bytes_16 True x"
| "enc (VI32 x) = num_bytes_32 True x"
| "enc (VI64 x) = num_bytes_64 True x"
| "enc (VDouble x) = num_bytes_64 True x"
| "enc (VString str) = enc_string str"
| "enc (VStruct fs) =
     concat (map (\<lambda>(i, v). enc_field_begin (tvalue_type v) i @ enc v) fs) @ [ttype_code T_STOP]"
| "enc (VMap kt vt ps) =
     enc_map_begin kt vt (length ps) @ concat (map (\<lambda>(k, v). enc k @ enc v) ps)"
| "enc (VSet et vs) = enc_list_begin et (length vs) @ concat (map enc vs)"
| "enc (VList et vs) = enc_list_begin et (length vs) @ concat (map enc vs)"

text \<open>Elements of the declared type, sizes that fit their 32-bit count.\<close>

fun well_typed :: "tvalue \<Rightarrow> bool" where
  "well_typed (VString str) \<longleftrightarrow> length str < two32"
| "well_typed (VStruct fs) \<longleftrightarrow> list_all (\<lambda>(i, v). well_typed v) fs"
| "well_typed (VMap kt vt ps) \<longleftrightarrow> length ps < two32 \<and> named_type kt \<and> named_type vt \<and>
     list_all (\<lambda>(k, v). tvalue_type k = kt \<and> tvalue_type v = vt \<and> well_typed k \<and> well_typed v) ps"
| "well_typed (VSet et vs) \<longleftrightarrow> length vs < two32 \<and> named_type et \<and>
     list_all (\<lambda>v. tvalue_type v = et \<and> well_typed v) vs"
| "well_typed (VList et vs) \<longleftrightarrow> length vs < two32 \<and> named_type et \<and>
     list_all (\<lambda>v. tvalue_type v = et \<and> well_typed v) vs"
| "well_typed _ \<longleftrightarrow> True"

lemma le_bytes_byte [simp]: "le_bytes (Suc 0) (b :: byte) = [b]"
  by (simp add: le_bytes_def)

lemma le_word_byte [simp]: "le_word [b] = (b :: byte)"
  by simp

lemma enc_begin_length [simp]:
  "length (enc_list_begin t n) = 5" "length (enc_map_begin k v n) = 6"
  "length (enc_field_begin t i) = 3" "length (enc_string str) = 4 + length str"
  by (simp_all add: enc_list_begin_def enc_map_begin_def enc_field_begin_def enc_string_def)

lemma enc_pos: "0 < length (enc v)"
  by (cases v) simp_all

lemma tvalue_type_named: "named_type (tvalue_type v)" "tvalue_type v \<noteq> T_STOP"
  by (cases v; simp)+

lemma unat_of_nat_size [simp]: "n < two32 \<Longrightarrow> unat (of_nat n :: u32) = n"
  by (simp add: unat_of_nat two32_def)

lemma add32_mod_eq [simp]:
  "add32 a (b mod two32) = add32 a b" "add32 (a mod two32) b = add32 a b" "add32 a b mod two32 = add32 a b"
  "add32 (add32 a b) c = add32 a (b + c)" "add32 a (add32 b c) = add32 a (b + c)"
  by (simp_all add: add32_def mod_simps add.assoc)

lemma add32_mod_sum [simp]:
  "add32 a (b mod two32 + c) = add32 a (b + c)" "add32 a (b + c mod two32) = add32 a (b + c)"
  by (metis add32_mod_eq(1) mod_add_left_eq, metis add32_mod_eq(1) mod_add_right_eq)

section \<open>The codec over any channel\<close>

context byte_channel
begin

text \<open>A writer that appends \<open>bs\<close> and counts them; a reader that takes \<open>bs\<close> and yields \<open>a\<close>.\<close>

definition appends :: "('s \<Rightarrow> (nat \<times> 's) option) \<Rightarrow> byte list \<Rightarrow> bool" where
  "appends w bs \<longleftrightarrow> (\<forall>s xs n. inv s \<longrightarrow> chan s = Writing xs \<longrightarrow> room s (length bs + n) \<longrightarrow>
     (\<exists>s'. w s = Some (length bs mod two32, s') \<and> inv s' \<and> chan s' = Writing (xs @ bs) \<and> room s' n))"

definition takes :: "('s \<Rightarrow> (nat \<times> 'a \<times> 's) option) \<Rightarrow> byte list \<Rightarrow> 'a \<Rightarrow> bool" where
  "takes r bs a \<longleftrightarrow> (\<forall>s ys. inv s \<longrightarrow> chan s = Reading (bs @ ys) \<longrightarrow>
     (\<exists>s'. r s = Some (length bs mod two32, a, s') \<and> inv s' \<and> chan s' = Reading ys))"

lemma appendsD:
  "appends w bs \<Longrightarrow> inv s \<Longrightarrow> chan s = Writing xs \<Longrightarrow> room s (length bs + n) \<Longrightarrow>
   \<exists>s'. w s = Some (length bs mod two32, s') \<and> inv s' \<and> chan s' = Writing (xs @ bs) \<and> room s' n"
  by (auto simp: appends_def)

lemma takesD:
  "takes r bs a \<Longrightarrow> inv s \<Longrightarrow> chan s = Reading (bs @ ys) \<Longrightarrow>
   \<exists>s'. r s = Some (length bs mod two32, a, s') \<and> inv s' \<and> chan s' = Reading ys"
  by (auto simp: takes_def)

lemma appends_put: "length bs < two32 \<Longrightarrow> appends (put_count put bs) bs"
  unfolding appends_def put_count_def using put_append by fastforce

lemma appends_seq:
  assumes "appends w1 b1" "appends w2 b2"
  shows "appends (wseq w1 w2) (b1 @ b2)"
  unfolding appends_def
proof (intro allI impI)
  fix s xs n
  assume s: "inv s" "chan s = Writing xs" "room s (length (b1 @ b2) + n)"
  then have "room s (length b1 + (length b2 + n))" by (simp add: add.assoc)
  from appendsD [OF assms(1) s(1,2) this] obtain s1 where s1: "w1 s = Some (length b1 mod two32, s1)"
    "inv s1" "chan s1 = Writing (xs @ b1)" "room s1 (length b2 + n)" by blast
  from appendsD [OF assms(2) s1(2-4)] obtain s2 where "w2 s1 = Some (length b2 mod two32, s2)"
    "inv s2" "chan s2 = Writing ((xs @ b1) @ b2)" "room s2 n" by blast
  with s1(1) show "\<exists>s'. wseq w1 w2 s = Some (length (b1 @ b2) mod two32, s') \<and> inv s' \<and>
      chan s' = Writing (xs @ b1 @ b2) \<and> room s' n"
    by (simp add: wseq_def add32_def mod_add_eq)
qed

lemma two32_small [simp]: "n \<le> 8 \<Longrightarrow> n < two32" "n \<le> 8 \<Longrightarrow> n mod two32 = n" "two32 \<noteq> Suc 0"
  by (simp_all add: two32_def)

lemma writes_fixed:
  "appends (writeBool put b) [if b then 1 else 0]" "appends (writeByte put x8) [x8]"
  "appends (writeI16 put x16) (num_bytes_16 True x16)"
  "appends (writeI32 put x32) (num_bytes_32 True x32)"
  "appends (writeI64 put x64) (num_bytes_64 True x64)"
  "appends (writeDouble put x64) (num_bytes_64 True x64)"
  unfolding writeBool_def writeByte_def writeI16_def writeI32_def writeI64_def writeDouble_def
  by (simp_all add: appends_put)

lemma writes_string:
  assumes "length str < two32"
  shows "appends (writeString put str) (enc_string str)"
proof -
  have eq: "writeString put str s = wseq (writeI32 put (of_nat (length str)))
      (if str = [] then (\<lambda>s. Some (0, s)) else put_count put str) s" for s
    using assms by (simp add: writeString_def wseq_def put_count_def case_prod_unfold option.map_comp
        comp_def split: option.splits)
  have "appends (if str = [] then (\<lambda>s. Some (0, s)) else put_count put str) str"
    using appends_put [OF assms] by (auto simp: appends_def)
  from appends_seq [OF writes_fixed(4) this] show ?thesis
    unfolding appends_def eq by (simp add: enc_string_def)
qed

lemma writes_headers:
  "appends (writeFieldBegin put t i) (enc_field_begin t i)"
  "appends (writeListBegin put t (of_nat n)) (enc_list_begin t n)"
  "appends (writeSetBegin put t (of_nat n)) (enc_list_begin t n)"
  "appends (writeMapBegin put k v (of_nat n)) (enc_map_begin k v n)"
  "appends (writeFieldStop put) [ttype_code T_STOP]"
  using appends_seq [OF writes_fixed(2) writes_fixed(3), of "ttype_code t" i]
    appends_seq [OF writes_fixed(2) writes_fixed(4), of "ttype_code t" "of_nat n"]
    appends_seq [OF appends_seq [OF writes_fixed(2) writes_fixed(2)] writes_fixed(4),
      of "ttype_code k" "ttype_code v" "of_nat n"] writes_fixed(2)
  by (simp_all add: writeFieldBegin_def writeListBegin_def writeSetBegin_def writeMapBegin_def
      writeFieldStop_def enc_field_begin_def enc_list_begin_def enc_map_begin_def)

lemma writes_message:
  "length name < two32 \<Longrightarrow>
   appends (writeMessageBegin put name m seqid) (enc_message_begin name m seqid)"
  using appends_seq [OF appends_seq [OF writes_fixed(4) writes_string] writes_fixed(4)]
  by (simp add: writeMessageBegin_def enc_message_begin_def)

text \<open>Readers: what each takes from the front of the unread bytes.\<close>

lemma takes_get:
  "length bs = n \<Longrightarrow> n \<le> 8 \<Longrightarrow> takes (get_count get n conv) bs (Some (conv bs))"
  unfolding takes_def get_count_def using get_prefix by fastforce

lemma reads_fixed:
  "takes (readByte get) [b] (Some b)"
  "takes (readI16 get) (num_bytes_16 True x16) (Some x16)"
  "takes (readI32 get) (num_bytes_32 True x32) (Some x32)"
  "takes (readI64 get) (num_bytes_64 True x64) (Some x64)"
  using takes_get [of "[b]" 1 "le_word :: byte list \<Rightarrow> byte"]
    takes_get [of "num_bytes_16 True x16" 2 "bytes_num_16 True"]
    takes_get [of "num_bytes_32 True x32" 4 "bytes_num_32 True"]
    takes_get [of "num_bytes_64 True x64" 8 "bytes_num_64 True"]
  by (simp_all add: readByte_def readI16_def readI32_def readI64_def)

lemma reads_bool_double:
  "takes (readBool get) [if b then 1 else 0] b" "takes (readDouble get) (num_bytes_64 True x) x"
proof -
  show "takes (readBool get) [if b then 1 else 0] b"
    using reads_fixed(1) [of "if b then 1 else 0"]
    by (fastforce simp: takes_def readBool_def rbind_def)
  show "takes (readDouble get) (num_bytes_64 True x) x"
    using reads_fixed(4) [of x] by (fastforce simp: takes_def readDouble_def rbind_def)
qed

lemma reads_string_body:
  "length str < two32 \<Longrightarrow> takes (readStringBody get old (length str)) str str"
  unfolding takes_def readStringBody_def using get_prefix by fastforce

lemma reads_string:
  assumes "length str < two32"
  shows "takes (readString get old) (enc_string str) str"
  unfolding takes_def
proof (intro allI impI)
  fix s ys
  assume s: "inv s" "chan s = Reading (enc_string str @ ys)"
  then have "chan s = Reading (num_bytes_32 True (of_nat (length str)) @ (str @ ys))"
    by (simp add: enc_string_def)
  from takesD [OF reads_fixed(3) s(1) this] obtain s1 where
    s1: "readI32 get s = Some (4, Some (of_nat (length str)), s1)" "inv s1" "chan s1 = Reading (str @ ys)"
    by auto
  from takesD [OF reads_string_body [OF assms] s1(2,3), of old] s1(1) assms
  show "\<exists>s'. readString get old s = Some (length (enc_string str) mod two32, str, s') \<and>
      inv s' \<and> chan s' = Reading ys"
    by (auto simp: readString_def rbind_def add32_def)
qed

lemma reads_field:
  assumes "named_type t"
  shows "t \<noteq> T_STOP \<Longrightarrow> takes (readFieldBegin get) (enc_field_begin t i) (t, Some i)"
    and "takes (readFieldBegin get) [ttype_code T_STOP] (T_STOP, Some 0)"
proof -
  assume t: "t \<noteq> T_STOP"
  have eq: "enc_field_begin t i = [ttype_code t] @ num_bytes_16 True i" by (simp add: enc_field_begin_def)
  show "takes (readFieldBegin get) (enc_field_begin t i) (t, Some i)"
    unfolding takes_def
  proof (intro allI impI)
    fix s ys
    assume s: "inv s" "chan s = Reading (enc_field_begin t i @ ys)"
    then have "chan s = Reading ([ttype_code t] @ (num_bytes_16 True i @ ys))" by (simp add: eq)
    from takesD [OF reads_fixed(1) s(1) this] obtain s1 where
      s1: "readByte get s = Some (1, Some (ttype_code t), s1)" "inv s1"
        "chan s1 = Reading (num_bytes_16 True i @ ys)" by auto
    from takesD [OF reads_fixed(2) s1(2,3)] s1(1) t assms
    show "\<exists>s'. readFieldBegin get s = Some (length (enc_field_begin t i) mod two32, (t, Some i), s') \<and>
        inv s' \<and> chan s' = Reading ys"
      by (auto simp: readFieldBegin_def rbind_def ttype_of_code_code arith32)
  qed
next
  show "takes (readFieldBegin get) [ttype_code T_STOP] (T_STOP, Some 0)"
    using reads_fixed(1) [of 0]
    by (fastforce simp: takes_def readFieldBegin_def rbind_def ttype_of_code_def)
qed

lemma reads_list:
  assumes "named_type t" "n < two32"
  shows "takes (readListBegin get) (enc_list_begin t n) (t, of_nat n)"
    "takes (readSetBegin get) (enc_list_begin t n) (t, of_nat n)"
proof -
  show l: "takes (readListBegin get) (enc_list_begin t n) (t, of_nat n)"
    unfolding takes_def
  proof (intro allI impI)
    fix s ys
    assume s: "inv s" "chan s = Reading (enc_list_begin t n @ ys)"
    then have "chan s = Reading ([ttype_code t] @ (num_bytes_32 True (of_nat n) @ ys))"
      by (simp add: enc_list_begin_def)
    from takesD [OF reads_fixed(1) s(1) this] obtain s1 where
      s1: "readByte get s = Some (1, Some (ttype_code t), s1)" "inv s1"
        "chan s1 = Reading (num_bytes_32 True (of_nat n) @ ys)" by auto
    from takesD [OF reads_fixed(3) s1(2,3)] s1(1) assms(1)
    show "\<exists>s'. readListBegin get s = Some (length (enc_list_begin t n) mod two32, (t, of_nat n), s') \<and>
        inv s' \<and> chan s' = Reading ys"
      by (auto simp: readListBegin_def rbind_def ttype_of_code_code arith32)
  qed
  moreover have "readSetBegin get = readListBegin get"
    by (simp add: fun_eq_iff readSetBegin_def readListBegin_def)
  ultimately show "takes (readSetBegin get) (enc_list_begin t n) (t, of_nat n)" by simp
qed

lemma reads_map:
  assumes "named_type k" "named_type v" "n < two32"
  shows "takes (readMapBegin get) (enc_map_begin k v n) (k, v, of_nat n)"
  unfolding takes_def
proof (intro allI impI)
  fix s ys
  assume s: "inv s" "chan s = Reading (enc_map_begin k v n @ ys)"
  then have "chan s = Reading ([ttype_code k] @ ([ttype_code v] @ (num_bytes_32 True (of_nat n) @ ys)))"
    by (simp add: enc_map_begin_def)
  from takesD [OF reads_fixed(1) s(1) this] obtain s1 where
    s1: "readByte get s = Some (1, Some (ttype_code k), s1)" "inv s1"
      "chan s1 = Reading ([ttype_code v] @ (num_bytes_32 True (of_nat n) @ ys))" by auto
  from takesD [OF reads_fixed(1) s1(2,3)] obtain s2 where
    s2: "readByte get s1 = Some (1, Some (ttype_code v), s2)" "inv s2"
      "chan s2 = Reading (num_bytes_32 True (of_nat n) @ ys)" by auto
  from takesD [OF reads_fixed(3) s2(2,3)] s1(1) s2(1) assms(1,2)
  show "\<exists>s'. readMapBegin get s = Some (length (enc_map_begin k v n) mod two32, (k, v, of_nat n), s') \<and>
      inv s' \<and> chan s' = Reading ys"
    by (auto simp: readMapBegin_def rbind_def ttype_of_code_code arith32)
qed

text \<open>The version survives the message type, the message type the version.\<close>

lemma message_word:
  assumes "named_message m"
  shows "(VERSION_1 OR message_code m) AND VERSION_MASK = VERSION_1"
    "(VERSION_1 OR message_code m) AND 0xff = message_code m"
  using assms by (cases m; simp add: VERSION_1_def VERSION_MASK_def)+

lemma reads_message:
  assumes "length name < two32" "named_message m"
  shows "inv s \<Longrightarrow> chan s = Reading (enc_message_begin name m seqid @ ys) \<Longrightarrow>
    \<exists>s'. readMessageBegin get old s =
        Some (Inr (length (enc_message_begin name m seqid) mod two32, name, m, Some seqid), s') \<and>
      inv s' \<and> chan s' = Reading ys"
proof -
  let ?w = "VERSION_1 OR message_code m"
  assume s: "inv s" "chan s = Reading (enc_message_begin name m seqid @ ys)"
  then have "chan s = Reading (num_bytes_32 True ?w @ (enc_string name @ (num_bytes_32 True seqid @ ys)))"
    by (simp add: enc_message_begin_def)
  from takesD [OF reads_fixed(3) s(1) this] obtain s1 where
    s1: "readI32 get s = Some (4, Some ?w, s1)" "inv s1"
      "chan s1 = Reading (enc_string name @ (num_bytes_32 True seqid @ ys))" by auto
  from takesD [OF reads_string [OF assms(1)] s1(2,3)] obtain s2 where
    s2: "readString get old s1 = Some ((4 + length name) mod two32, name, s2)" "inv s2"
      "chan s2 = Reading (num_bytes_32 True seqid @ ys)" by auto
  from takesD [OF reads_fixed(3) s2(2,3)] obtain s3 where
    s3: "readI32 get s2 = Some (4, Some seqid, s3)" "inv s3" "chan s3 = Reading ys" by auto
  have "length (enc_message_begin name m seqid) = 8 + (4 + length name)"
    by (simp add: enc_message_begin_def)
  moreover have "add32 (add32 4 ((4 + length name) mod two32)) 4 = (8 + (4 + length name)) mod two32"
    by (simp add: add32_def mod_simps)
  ultimately show ?thesis
    using s1(1) s2(1) s3 message_word [OF assms(2)] message_of_code_code [OF assms(2)]
    by (simp add: readMessageBegin_def rbind_def)
qed

end

section \<open>Skipping over any channel\<close>

lemma concat_length_member: "x \<in> set xs \<Longrightarrow> length (f x) \<le> length (concat (map f xs))"
  by (induction xs) auto

lemma concat_length_count: "\<forall>x\<in>set xs. n \<le> length (f x) \<Longrightarrow> n * length xs \<le> length (concat (map f xs))"
  by (induction xs) auto

context skip_channel
begin

definition skips :: "('s \<Rightarrow> (nat \<times> 's) option) \<Rightarrow> byte list \<Rightarrow> bool" where
  "skips w bs \<longleftrightarrow> (\<forall>s ys. inv s \<longrightarrow> chan s = Reading (bs @ ys) \<longrightarrow>
     (\<exists>s'. w s = Some (length bs mod two32, s') \<and> inv s' \<and> chan s' = Reading ys))"

lemma skipsD:
  "skips w bs \<Longrightarrow> inv s \<Longrightarrow> chan s = Reading (bs @ ys) \<Longrightarrow>
   \<exists>s'. w s = Some (length bs mod two32, s') \<and> inv s' \<and> chan s' = Reading ys"
  by (auto simp: skips_def)

lemma skips_fixed: "length bs \<le> 8 \<Longrightarrow> n = length bs \<Longrightarrow> skips (skip_fixed skip n) bs"
  unfolding skips_def skip_fixed_def using skip_prefix by fastforce

lemma thrift_skip_fixed:
  "thrift_skip (Suc k) get skip T_BOOL = skip_fixed skip 1"
  "thrift_skip (Suc k) get skip T_BYTE = skip_fixed skip 1"
  "thrift_skip (Suc k) get skip T_I16 = skip_fixed skip 2"
  "thrift_skip (Suc k) get skip T_I32 = skip_fixed skip 4"
  "thrift_skip (Suc k) get skip T_I64 = skip_fixed skip 8"
  "thrift_skip (Suc k) get skip T_DOUBLE = skip_fixed skip 8"
  by (simp_all add: fun_eq_iff)

lemma skips_elems:
  "\<forall>x\<in>set xs. skips one (e x) \<Longrightarrow> inv s \<Longrightarrow> chan s = Reading (concat (map e xs) @ ys) \<Longrightarrow> r < two32 \<Longrightarrow>
   \<exists>s'. skip_elems one (length xs) r s = Some (add32 r (length (concat (map e xs))), s') \<and>
     inv s' \<and> chan s' = Reading ys"
proof (induction xs arbitrary: r s)
  case (Cons x xs)
  then have "skips one (e x)" "chan s = Reading (e x @ (concat (map e xs) @ ys))" by simp_all
  from skipsD [OF this(1) Cons.prems(2) this(2)] obtain s1 where
    s1: "one s = Some (length (e x) mod two32, s1)" "inv s1" "chan s1 = Reading (concat (map e xs) @ ys)"
    by blast
  have ih: "\<forall>x\<in>set xs. skips one (e x)" using Cons.prems(1) by simp
  from Cons.IH [OF ih s1(2,3), of "add32 r (length (e x))"] s1(1) show ?case by (auto simp: add.assoc)
qed (simp add: arith32)

lemma skips_pairs:
  "\<forall>(k, v)\<in>set ps. skips key (e k) \<and> skips val (e v) \<Longrightarrow> inv s \<Longrightarrow>
   chan s = Reading (concat (map (\<lambda>(k, v). e k @ e v) ps) @ ys) \<Longrightarrow> r < two32 \<Longrightarrow>
   \<exists>s'. skip_pairs key val (length ps) r s =
       Some (add32 r (length (concat (map (\<lambda>(k, v). e k @ e v) ps))), s') \<and>
     inv s' \<and> chan s' = Reading ys"
proof (induction ps arbitrary: r s)
  case (Cons p ps)
  let ?rest = "concat (map (\<lambda>(k, v). e k @ e v) ps)"
  obtain k v where p: "p = (k, v)" by (cases p)
  then have kv: "skips key (e k)" "skips val (e v)" and ch: "chan s = Reading (e k @ (e v @ (?rest @ ys)))"
    using Cons.prems(1,3) by simp_all
  from skipsD [OF kv(1) Cons.prems(2) ch] obtain s1 where
    s1: "key s = Some (length (e k) mod two32, s1)" "inv s1" "chan s1 = Reading (e v @ (?rest @ ys))" by blast
  from skipsD [OF kv(2) s1(2,3)] obtain s2 where
    s2: "val s1 = Some (length (e v) mod two32, s2)" "inv s2" "chan s2 = Reading (?rest @ ys)" by blast
  have ih: "\<forall>(k, v)\<in>set ps. skips key (e k) \<and> skips val (e v)" using Cons.prems(1) by simp
  from Cons.IH [OF ih s2(2,3), of "add32 r (length (e k) + length (e v))"] s1(1) s2(1) p
  show ?case by (auto simp: add.assoc)
qed (simp add: arith32)

lemma skips_fields:
  "\<forall>(i, v)\<in>set fs. skips (one (tvalue_type v)) (e v) \<Longrightarrow> inv s \<Longrightarrow>
   chan s = Reading (concat (map (\<lambda>(i, v). enc_field_begin (tvalue_type v) i @ e v) fs) @
     [ttype_code T_STOP] @ ys) \<Longrightarrow> r < two32 \<Longrightarrow> length fs < k \<Longrightarrow>
   \<exists>s'. skip_fields k get one r s = Some (add32 r (length (concat (map (\<lambda>(i, v).
       enc_field_begin (tvalue_type v) i @ e v) fs)) + 1), s') \<and> inv s' \<and> chan s' = Reading ys"
proof (induction fs arbitrary: r s k)
  case Nil
  then obtain k' where "k = Suc k'" by (cases k) auto
  moreover obtain s' where "readFieldBegin get s = Some (1, (T_STOP, Some 0), s')" "inv s'"
      "chan s' = Reading ys"
    using takesD [OF reads_field(2), of T_STOP s ys] Nil.prems by auto
  ultimately show ?case by simp
next
  case (Cons f fs)
  let ?rest = "concat (map (\<lambda>(i, v). enc_field_begin (tvalue_type v) i @ e v) fs)"
  obtain i v where f: "f = (i, v)" by (cases f)
  obtain k' where k: "k = Suc k'" "length fs < k'" using Cons.prems(5) by (cases k) auto
  let ?t = "tvalue_type v"
  have one: "skips (one ?t) (e v)"
    and ch: "chan s = Reading (enc_field_begin ?t i @ (e v @ (?rest @ [ttype_code T_STOP] @ ys)))"
    using Cons.prems(1,3) f by simp_all
  from takesD [OF reads_field(1) Cons.prems(2) ch] tvalue_type_named [of v] obtain s1 where
    s1: "readFieldBegin get s = Some (3, (?t, Some i), s1)" "inv s1"
      "chan s1 = Reading (e v @ (?rest @ [ttype_code T_STOP] @ ys))" by auto
  from skipsD [OF one s1(2,3)] obtain s2 where
    s2: "one ?t s1 = Some (length (e v) mod two32, s2)" "inv s2"
      "chan s2 = Reading (?rest @ [ttype_code T_STOP] @ ys)" by blast
  have ih: "\<forall>(i, v)\<in>set fs. skips (one (tvalue_type v)) (e v)" using Cons.prems(1) by simp
  from Cons.IH [OF ih s2(2,3) _ k(2), of "add32 r (3 + length (e v))"] s1(1) s2(1) f k(1)
    tvalue_type_named(2) [of v]
  show ?case by (auto simp: add.assoc)
qed

lemma skips_seq:
  assumes rd: "takes rd (enc_list_begin et (length vs)) (et, of_nat (length vs) :: u32)"
    and len: "length vs < two32" and one: "\<And>v. v \<in> set vs \<Longrightarrow> skips (one et) (enc v)"
  shows "skips (\<lambda>s. Option.bind (rd s) (\<lambda>(result, (et, sz), s1). skip_elems (one et) (unat sz) result s1))
           (enc_list_begin et (length vs) @ concat (map enc vs))"
  unfolding skips_def
proof (intro allI impI)
  fix s ys
  assume s: "inv s" "chan s = Reading ((enc_list_begin et (length vs) @ concat (map enc vs)) @ ys)"
  then have "chan s = Reading (enc_list_begin et (length vs) @ (concat (map enc vs) @ ys))" by simp
  from takesD [OF rd s(1) this] obtain s1 where
    s1: "rd s = Some (5, (et, of_nat (length vs)), s1)" "inv s1"
      "chan s1 = Reading (concat (map enc vs) @ ys)" by auto
  have "\<forall>v\<in>set vs. skips (one et) (enc v)" using one by blast
  from skips_elems [OF this s1(2,3), of 5] s1(1) len
  show "\<exists>s'. Option.bind (rd s) (\<lambda>(result, (et, sz), s1). skip_elems (one et) (unat sz) result s1) =
      Some (length (enc_list_begin et (length vs) @ concat (map enc vs)) mod two32, s') \<and> inv s' \<and>
      chan s' = Reading ys"
    by (auto simp: add32_def)
qed

text \<open>As much fuel as the value has bytes, and one more, is enough.\<close>

lemma skips_value:
  "well_typed v \<Longrightarrow> length (enc v) < k \<Longrightarrow> skips (thrift_skip k get skip (tvalue_type v)) (enc v)"
proof (induction v arbitrary: k rule: enc.induct)
  case (7 str)
  then obtain k' where k: "k = Suc k'" by (cases k) auto
  have len: "length str < two32" using "7.prems" by simp
  show ?case unfolding skips_def
  proof (intro allI impI)
    fix s ys
    assume s: "inv s" "chan s = Reading (enc (VString str) @ ys)"
    then have "chan s = Reading (num_bytes_32 True (of_nat (length str)) @ (str @ ys))"
      by (simp add: enc_string_def)
    from takesD [OF reads_fixed(3) s(1) this] obtain s1 where
      s1: "readI32 get s = Some (4, Some (of_nat (length str)), s1)" "inv s1"
        "chan s1 = Reading (str @ ys)" by auto
    from skip_prefix [OF s1(2,3)] s1(1) len k
    show "\<exists>s'. thrift_skip k get skip (tvalue_type (VString str)) s =
        Some (length (enc (VString str)) mod two32, s') \<and> inv s' \<and> chan s' = Reading ys"
      by (auto simp: rbind_def add32_def)
  qed
next
  case (8 fs)
  then obtain k' where k: "k = Suc k'" by (cases k) auto
  let ?e = "\<lambda>(i, v). enc_field_begin (tvalue_type v) i @ enc v"
  have len: "length (concat (map ?e fs)) < k'" using "8.prems"(2) k by simp
  have one: "\<forall>(i, v)\<in>set fs. skips (thrift_skip k' get skip (tvalue_type v)) (enc v)"
  proof clarify
    fix i v assume v: "(i, v) \<in> set fs"
    then have "length (enc v) < k'" using concat_length_member [OF v, of ?e] len by simp
    moreover have "well_typed v" using "8.prems"(1) v by (auto simp: list_all_iff)
    ultimately show "skips (thrift_skip k' get skip (tvalue_type v)) (enc v)"
      using "8.IH" [OF v refl] by simp
  qed
  have "\<forall>f\<in>set fs. 1 \<le> length (?e f)" by auto
  then have cnt: "length fs < k'" using concat_length_count [of fs 1 ?e] len by simp
  show ?case
    unfolding skips_def k using skips_fields [OF one _ _ _ cnt, of _ _ 0] by (auto simp: add32_def)
next
  case (9 kt vt ps)
  then obtain k' where k: "k = Suc k'" by (cases k) auto
  let ?e = "\<lambda>(k, v). enc k @ enc v"
  have wt: "length ps < two32" "named_type kt" "named_type vt" "\<forall>(k, v)\<in>set ps. tvalue_type k = kt \<and>
      tvalue_type v = vt \<and> well_typed k \<and> well_typed v"
    using "9.prems"(1) by (auto simp: list_all_iff)
  have len: "length (concat (map ?e ps)) < k'" using "9.prems"(2) k by simp
  have one: "\<forall>(k, v)\<in>set ps. skips (thrift_skip k' get skip kt) (enc k) \<and>
      skips (thrift_skip k' get skip vt) (enc v)"
  proof clarify
    fix x y assume p: "(x, y) \<in> set ps"
    then have "length (enc x) < k'" "length (enc y) < k'"
      using concat_length_member [OF p, of ?e] len by simp_all
    with p wt(4) "9.IH"(1) [OF p refl, of k'] "9.IH"(2) [OF p refl, of k']
    show "skips (thrift_skip k' get skip kt) (enc x) \<and> skips (thrift_skip k' get skip vt) (enc y)"
      by fastforce
  qed
  show ?case unfolding skips_def
  proof (intro allI impI)
    fix s ys
    assume s: "inv s" "chan s = Reading (enc (VMap kt vt ps) @ ys)"
    then have "chan s = Reading (enc_map_begin kt vt (length ps) @ (concat (map ?e ps) @ ys))" by simp
    from takesD [OF reads_map [OF wt(2,3,1)] s(1) this] obtain s1 where
      s1: "readMapBegin get s = Some (6, (kt, vt, of_nat (length ps)), s1)" "inv s1"
        "chan s1 = Reading (concat (map ?e ps) @ ys)" by auto
    from skips_pairs [OF one s1(2,3), of 6] s1(1) wt(1) k
    show "\<exists>s'. thrift_skip k get skip (tvalue_type (VMap kt vt ps)) s =
        Some (length (enc (VMap kt vt ps)) mod two32, s') \<and> inv s' \<and> chan s' = Reading ys"
      by (auto simp: add32_def)
  qed
next
  case (10 et vs)
  then obtain k' where k: "k = Suc k'" by (cases k) auto
  have wt: "length vs < two32" "named_type et" "\<forall>v\<in>set vs. tvalue_type v = et \<and> well_typed v"
    and len: "length (concat (map enc vs)) < k'"
    using "10.prems" k by (auto simp: list_all_iff)
  have "skips (thrift_skip k' get skip et) (enc v)" if v: "v \<in> set vs" for v
    using "10.IH" [OF v, of k'] wt(3) v concat_length_member [OF v, of enc] len by auto
  from skips_seq [OF reads_list(2) [OF wt(2,1)] wt(1)] this show ?case by (simp add: k)
next
  case (11 et vs)
  then obtain k' where k: "k = Suc k'" by (cases k) auto
  have wt: "length vs < two32" "named_type et" "\<forall>v\<in>set vs. tvalue_type v = et \<and> well_typed v"
    and len: "length (concat (map enc vs)) < k'"
    using "11.prems" k by (auto simp: list_all_iff)
  have "skips (thrift_skip k' get skip et) (enc v)" if v: "v \<in> set vs" for v
    using "11.IH" [OF v, of k'] wt(3) v concat_length_member [OF v, of enc] len by auto
  from skips_seq [OF reads_list(1) [OF wt(2,1)] wt(1)] this show ?case by (simp add: k)
qed (case_tac k; simp; auto intro: skips_fixed simp: thrift_skip_fixed)+

end

section \<open>Properties\<close>

lemma buf_room_size: "buf_room alloc b n \<Longrightarrow> n < two32"
  using INVALID_less_two32 by (simp add: buf_room_def buf_fits_def)

lemma buf_reading_size: "buf_inv b \<Longrightarrow> buf_chan b = Reading xs \<Longrightarrow> length xs < two32"
  using buf_reading_length [of b xs] buf_inv_less(3) [of b] by (fastforce simp: buf_chan_Reading)

text \<open>C7. A message header written to an empty buffer, flipped and read comes back whole: name, type
  and sequence number, with both calls counting the same \<open>12\<close> bytes plus the name, and nothing left
  over.\<close>

theorem thrift_message_roundtrip:
  assumes "buf_inv b" and "buf_chan b = Writing []" and "buf_room alloc b (length name + 12)"
    and "named_message m"
  shows "\<exists>b1 b2 b3. writeMessageBegin (buf_put alloc) name m seqid b = Some (length name + 12, b1) \<and>
           buf_flip b1 = (True, b2) \<and>
           readMessageBegin buf_get old b2 = Some (Inr (length name + 12, name, m, Some seqid), b3) \<and>
           buf_chan b3 = Reading []"
proof -
  let ?e = "enc_message_begin name m seqid"
  have len: "length ?e = length name + 12" by (simp add: enc_message_begin_def)
  then have room: "buf_room alloc b (length ?e + 0)" and small: "length name < two32"
    "length ?e mod two32 = length name + 12"
    using assms(3) buf_room_size [OF assms(3)] by simp_all
  from bufc.appendsD [OF bufc.writes_message [OF small(1)] assms(1,2) room] obtain b1 where
    b1: "writeMessageBegin (buf_put alloc) name m seqid b = Some (length name + 12, b1)" "buf_inv b1"
      "buf_chan b1 = Writing ?e" using small(2) by auto
  from bufc.flip_read [OF b1(2,3)] obtain b2 where
    b2: "buf_flip b1 = (True, b2)" "buf_inv b2" "buf_chan b2 = Reading (?e @ [])" by auto
  from bufc.reads_message [OF small(1) assms(4) b2(2,3)] b1(1) b2(1) small(2) show ?thesis by auto
qed

theorem thrift_message_roundtrip_witness:
  "\<exists>b1 b2 b3. writeMessageBegin (buf_put demo_alloc) [112, 117, 116] T_ONEWAY 7 demo_buffer =
       Some (length [112, 117, 116 :: byte] + 12, b1) \<and> buf_flip b1 = (True, b2) \<and>
     readMessageBegin buf_get [] b2 =
       Some (Inr (length [112, 117, 116 :: byte] + 12, [112, 117, 116], T_ONEWAY, Some 7), b3) \<and>
     buf_chan b3 = Reading []"
proof -
  have "buf_room demo_alloc demo_buffer (length [112, 117, 116 :: byte] + 12)"
    by (simp add: buf_room_def buf_fits_def demo_alloc_ok INVALID_VALUE_def demo_buffer_def)
  from thrift_message_roundtrip [OF demo_buffer_inv this, of T_ONEWAY] show ?thesis by simp
qed

text \<open>C8. Skipping a value of any type, however structs, maps, sets and lists nest in it, consumes
  exactly its encoding and returns its length, with as much fuel as the value has bytes plus one.\<close>

theorem thrift_skip_consumes:
  assumes "buf_inv b" and "buf_chan b = Reading (enc v @ rest)" and "well_typed v"
    and "length (enc v) < fuel"
  shows "\<exists>b'. thrift_skip fuel buf_get (buf_skip alloc) (tvalue_type v) b = Some (length (enc v), b') \<and>
           buf_inv b' \<and> buf_chan b' = Reading rest"
  using bufs.skipsD [OF bufs.skips_value [OF assms(3,4)] assms(1,2), of alloc]
    buf_reading_size [OF assms(1,2)] by simp

definition demo_value :: tvalue where
  "demo_value = VStruct [(1, VBool True), (2, VList T_BYTE [VByte 5, VByte 6])]"

definition demo_wire :: "byte list" where
  "demo_wire = [2, 0, 1, 1, 15, 0, 2, 3, 0, 0, 0, 2, 5, 6, 0]"

lemma demo_words:
  "num_bytes_32 True 0 = [0, 0, 0, 0]" "num_bytes_32 True 2 = [0, 0, 0, 2]"
  "num_bytes_32 True 3 = [0, 0, 0, 3]"
  by (simp_all add: num_bytes_32_def le_bytes_def bswap_32_def upt_conv_Cons)

lemma demo_value_enc: "enc demo_value = demo_wire"
proof -
  note demo_words(2)
  moreover have "num_bytes_16 True 1 = [0, 1]" "num_bytes_16 True 2 = [0, 2]"
    by (simp_all add: num_bytes_16_def le_bytes_def bswap_16_def upt_conv_Cons)
  ultimately show ?thesis
    by (simp add: demo_value_def demo_wire_def enc_field_begin_def enc_list_begin_def)
qed

theorem thrift_skip_consumes_witness:
  "\<exists>b'. thrift_skip 16 buf_get (buf_skip demo_alloc) T_STRUCT
           (demo_buffer\<lparr>b_limit := 16, b_capacity := 16, b_buf := demo_wire @ [9]\<rparr>) = Some (15, b') \<and>
        buf_inv b' \<and> buf_chan b' = Reading [9]"
proof -
  let ?b = "demo_buffer\<lparr>b_limit := 16, b_capacity := 16, b_buf := demo_wire @ [9]\<rparr>"
  have "length demo_wire = 15" by (simp add: demo_wire_def)
  then have "buf_inv ?b" "buf_chan ?b = Reading (enc demo_value @ [9])"
    unfolding demo_value_enc
    by (auto simp: buf_inv_def demo_buffer_def buf_chan_def INVALID_VALUE_def intro: exI [of _ 2])
  from thrift_skip_consumes [OF this, of 16] show ?thesis
    using demo_value_enc \<open>length demo_wire = 15\<close> by (simp add: demo_value_def)
qed

text \<open>A header whose version word is not \<open>0x8001\<close> is refused with the exception, and only
  that word has been consumed.\<close>

lemma thrift_bad_version_refused:
  assumes "buf_inv b" and "buf_chan b = Reading (num_bytes_32 True w @ rest)"
    and "w AND VERSION_MASK \<noteq> VERSION_1"
  shows "\<exists>b'. readMessageBegin buf_get name b = Some (Inl Bad_version_identifier, b') \<and>
           buf_inv b' \<and> buf_chan b' = Reading rest"
  using bufc.takesD [OF bufc.reads_fixed(3) assms(1,2)] assms(3)
  by (auto simp: readMessageBegin_def rbind_def)

text \<open>A string whose declared size exceeds the unread bytes is not reported: the result of
  \<open>get\<close> is dropped, the string is the old one resized to the declared size, the returned count
  includes bytes that were never consumed, and the buffer only lost the size word.\<close>

lemma thrift_truncated_string_accepted:
  assumes "buf_inv b" and "buf_chan b = Reading (num_bytes_32 True sz @ rest)"
    and "length rest < unat sz"
  shows "\<exists>b'. readString buf_get str b = Some (add32 4 (unat sz), string_resize str (unat sz), b') \<and>
           buf_chan b' = Reading rest"
proof -
  from bufc.takesD [OF bufc.reads_fixed(3) assms(1,2)] obtain b' where
    b': "readI32 buf_get b = Some (4, Some sz, b')" "buf_inv b'" "buf_chan b' = Reading rest" by auto
  have "unat sz < two32" using unsigned_less [of sz] by (simp add: two32_def)
  from bufc.get_short [OF b'(2,3) assms(3) this] b' assms(3) show ?thesis
    by (simp add: readString_def rbind_def readStringBody_def)
qed

end
