(* ===== verification/Block_Allocator.thy ===== *)
theory Block_Allocator
  imports Prelude
begin

text \<open>
  What a client of a block allocator relies on, whichever of the pools of \<open>mempool.c\<close> it uses: a
  block handed out is nobody else's until it is given back. The state of the allocator includes
  the memory it threads its lists through; clients may write into the blocks they hold, which the
  allocator sees as a change of its memory. The caching slab and the fixed-size-block pool both
  provide the contract.
\<close>

datatype ('e, 'p, 'w) block_op = Alloc 'e | Free 'p | Write 'p 'w

text \<open>A run: the allocator's state, the blocks in use, and the answers to the allocations so far.\<close>

fun block_run :: "('e \<Rightarrow> 's \<Rightarrow> 'p option \<times> 's) \<Rightarrow> ('p \<Rightarrow> 's \<Rightarrow> 's) \<Rightarrow> ('p \<Rightarrow> 'w \<Rightarrow> 's \<Rightarrow> 's)
    \<Rightarrow> ('e, 'p, 'w) block_op list \<Rightarrow> 's \<times> 'p set \<Rightarrow> ('p option \<times> 'p set) list \<times> 's \<times> 'p set" where
  "block_run alloc free store [] (s, used) = ([], s, used)"
| "block_run alloc free store (Alloc e # ops) (s, used) =
     (let (r, s1) = alloc e s;
          used1 = (case r of None \<Rightarrow> used | Some p \<Rightarrow> insert p used);
          (rs, s2) = block_run alloc free store ops (s1, used1)
      in ((r, used) # rs, s2))"
| "block_run alloc free store (Free p # ops) (s, used) =
     block_run alloc free store ops (if p \<in> used then (free p s, used - {p}) else (s, used))"
| "block_run alloc free store (Write p x # ops) (s, used) =
     block_run alloc free store ops (if p \<in> used then (store p x s, used) else (s, used))"

locale block_allocator =
  fixes inv :: "'s \<Rightarrow> 'p set \<Rightarrow> bool"
    and ok :: "'e \<Rightarrow> 'p set \<Rightarrow> bool"
    and alloc :: "'e \<Rightarrow> 's \<Rightarrow> 'p option \<times> 's"
    and free :: "'p \<Rightarrow> 's \<Rightarrow> 's"
    and store :: "'p \<Rightarrow> 'w \<Rightarrow> 's \<Rightarrow> 's"
  assumes alloc_fresh: "inv s used \<Longrightarrow> ok e used \<Longrightarrow> alloc e s = (Some p, s') \<Longrightarrow>
      p \<notin> used \<and> inv s' (insert p used)"
    and alloc_none: "inv s used \<Longrightarrow> alloc e s = (None, s') \<Longrightarrow> inv s' used"
    and free_block: "inv s used \<Longrightarrow> p \<in> used \<Longrightarrow> inv (free p s) (used - {p})"
    and store_block: "inv s used \<Longrightarrow> p \<in> used \<Longrightarrow> inv (store p x s) used"
begin

text \<open>The environment supplies to every allocation what the contract asks for.\<close>

fun env_ok :: "('e, 'p, 'w) block_op list \<Rightarrow> 's \<times> 'p set \<Rightarrow> bool" where
  "env_ok [] (s, used) \<longleftrightarrow> True"
| "env_ok (Alloc e # ops) (s, used) \<longleftrightarrow> ok e used \<and>
     (case alloc e s of (r, s1) \<Rightarrow> env_ok ops (s1, case r of None \<Rightarrow> used | Some p \<Rightarrow> insert p used))"
| "env_ok (Free p # ops) (s, used) \<longleftrightarrow>
     env_ok ops (if p \<in> used then (free p s, used - {p}) else (s, used))"
| "env_ok (Write p x # ops) (s, used) \<longleftrightarrow>
     env_ok ops (if p \<in> used then (store p x s, used) else (s, used))"

lemma run_exclusive:
  "inv s used \<Longrightarrow> env_ok ops (s, used) \<Longrightarrow> block_run alloc free store ops (s, used) = (rs, s', used') \<Longrightarrow>
   inv s' used' \<and> (\<forall>(r, u) \<in> set rs. \<forall>p. r = Some p \<longrightarrow> p \<notin> u)"
proof (induction ops "(s, used)" arbitrary: s used rs rule: env_ok.induct)
  case (2 e ops s used)
  obtain r s1 where a: "alloc e s = (r, s1)" by (cases "alloc e s")
  let ?used1 = "case r of None \<Rightarrow> used | Some p \<Rightarrow> insert p used"
  obtain rs1 where rec: "block_run alloc free store ops (s1, ?used1) = (rs1, s', used')" "rs = (r, used) # rs1"
    using "2.prems"(3) a by (auto split: prod.splits)
  have i: "inv s1 ?used1" and f: "\<forall>p. r = Some p \<longrightarrow> p \<notin> used"
    using "2.prems"(1,2) a alloc_fresh alloc_none by (auto split: option.splits)
  from "2.hyps" [of r s1 rs1] i a "2.prems"(2) rec f show ?case by auto
next
  case (3 p ops s used)
  then show ?case using free_block by (auto split: if_splits)
next
  case (4 p x ops s used)
  then show ?case using store_block by (auto split: if_splits)
qed auto

end

end
