(* ===== verification/Xslab.thy ===== *)
theory Xslab
  imports Block_Allocator
begin

text \<open>
  The caching block allocator \<open>g_xslab_t\<close> (\<open>mempool.c\<close>): freed blocks are kept on a list that is
  threaded through the blocks themselves. The memory is a map from addresses to the first word of
  the block there; \<open>0\<close> is \<open>NULL\<close>. What \<open>malloc\<close> returns is an argument of the call, and a call
  yields, beside the new state, the blocks it gave back to \<open>free\<close>. The product of an amount and
  the \<open>double\<close> \<open>keep\<close>, cut to an \<open>int32_t\<close>, is an argument of \<open>shrink\<close>. The two amounts count blocks
  that are in memory, of 8 bytes and more: as numbers without bound they are those of the \<open>int32_t\<close>
  fields while fewer than 2^31 blocks are kept.
\<close>

section \<open>State and operations\<close>

type_synonym addr = nat
type_synonym words = "addr \<Rightarrow> addr"

record xslab =
  x_head :: addr
  x_usable_amount :: nat
  x_shrink_amount :: nat
  x_alloc_size :: int

definition sizeof_ptr :: int where
  "sizeof_ptr = 8"

text \<open>\<open>size < sizeof(void*)\<close> compares as unsigned: a negative \<open>size\<close> is not raised.\<close>

definition xslab_init :: "addr \<Rightarrow> int \<Rightarrow> xslab option" where
  "xslab_init malloced sz =
     (if malloced = 0 then None
      else Some \<lparr>x_head = 0, x_usable_amount = 0, x_shrink_amount = 0,
                 x_alloc_size = (if 0 \<le> sz \<and> sz < sizeof_ptr then sizeof_ptr else sz)\<rparr>)"

definition xslab_alloc :: "addr \<Rightarrow> words \<Rightarrow> xslab \<Rightarrow> addr \<times> xslab" where
  "xslab_alloc malloced mem slab =
     (if x_usable_amount slab > 0
      then (x_head slab, slab\<lparr>x_head := mem (x_head slab), x_usable_amount := x_usable_amount slab - 1\<rparr>)
      else (malloced, slab))"

definition xslab_free :: "addr \<Rightarrow> words \<Rightarrow> xslab \<Rightarrow> addr list \<times> words \<times> xslab" where
  "xslab_free ptr mem slab =
     (if x_shrink_amount slab = 0
      then ([], mem(ptr := x_head slab), slab\<lparr>x_head := ptr, x_usable_amount := x_usable_amount slab + 1\<rparr>)
      else ([ptr], mem, slab\<lparr>x_shrink_amount := x_shrink_amount slab - 1\<rparr>))"

definition xslab_shrink :: "nat \<Rightarrow> xslab \<Rightarrow> xslab" where
  "xslab_shrink kept slab = slab\<lparr>x_shrink_amount := x_usable_amount slab - kept\<rparr>"

text \<open>The blocks \<open>destroy\<close> frees, in order (the slab itself is freed after them).\<close>

fun xslab_destroy_loop :: "nat \<Rightarrow> words \<Rightarrow> addr \<Rightarrow> addr list" where
  "xslab_destroy_loop 0 mem head = []"
| "xslab_destroy_loop (Suc n) mem head = head # xslab_destroy_loop n mem (mem head)"

definition xslab_destroy :: "words \<Rightarrow> xslab \<Rightarrow> addr list" where
  "xslab_destroy mem slab = xslab_destroy_loop (x_usable_amount slab) mem (x_head slab)"

section \<open>Invariant\<close>

text \<open>\<open>chain mem head ps\<close>: following the first words from \<open>head\<close> visits the blocks \<open>ps\<close>.\<close>

fun chain :: "words \<Rightarrow> addr \<Rightarrow> addr list \<Rightarrow> bool" where
  "chain mem head [] \<longleftrightarrow> True"
| "chain mem head (p # ps) \<longleftrightarrow> head = p \<and> chain mem (mem p) ps"

lemma chain_frame: "(\<And>p. p \<in> set ps \<Longrightarrow> mem' p = mem p) \<Longrightarrow> chain mem' h ps = chain mem h ps"
  by (induction ps arbitrary: h) auto

lemma destroy_loop_chain: "chain mem h ps \<Longrightarrow> xslab_destroy_loop (length ps) mem h = ps"
  by (induction ps arbitrary: h) auto

text \<open>
  The cached blocks are distinct, none of them \<open>NULL\<close>, and none in use by a client (\<open>used\<close>).
\<close>

definition xslab_inv :: "words \<Rightarrow> xslab \<Rightarrow> addr list \<Rightarrow> addr set \<Rightarrow> bool" where
  "xslab_inv mem slab cached used \<longleftrightarrow>
     chain mem (x_head slab) cached \<and> length cached = x_usable_amount slab \<and> distinct cached \<and>
     0 \<notin> set cached \<and> set cached \<inter> used = {} \<and> 0 \<notin> used"

lemma xslab_alloc_cached:
  assumes "xslab_inv mem slab (p # ps) used"
  shows "xslab_alloc m mem slab = (p, slab\<lparr>x_head := mem p, x_usable_amount := length ps\<rparr>)"
    and "xslab_inv mem (slab\<lparr>x_head := mem p, x_usable_amount := length ps\<rparr>) ps (insert p used)"
  using assms by (auto simp: xslab_inv_def xslab_alloc_def)

lemma xslab_alloc_malloc: "xslab_inv mem slab [] used \<Longrightarrow> xslab_alloc m mem slab = (m, slab)"
  by (simp add: xslab_inv_def xslab_alloc_def)

lemma xslab_free_caches:
  assumes "xslab_inv mem slab ps used" "p \<in> used" "x_shrink_amount slab = 0"
  shows "\<exists>mem' slab'. xslab_free p mem slab = ([], mem', slab') \<and> xslab_inv mem' slab' (p # ps) (used - {p}) \<and>
           (\<forall>q. q \<noteq> p \<longrightarrow> mem' q = mem q)"
proof -
  have "chain (mem(p := x_head slab)) (x_head slab) ps"
    using assms by (subst chain_frame [of ps _ mem]) (auto simp: xslab_inv_def)
  then show ?thesis using assms by (auto simp: xslab_free_def xslab_inv_def)
qed

text \<open>A client may write what it likes into the blocks it holds.\<close>

lemma xslab_client_write:
  "xslab_inv mem slab ps used \<Longrightarrow> (\<And>p. p \<notin> used \<Longrightarrow> mem' p = mem p) \<Longrightarrow> xslab_inv mem' slab ps used"
  unfolding xslab_inv_def by (subst chain_frame [of ps mem' mem]) auto

section \<open>The allocator contract\<close>

text \<open>The memory and the slab together; \<open>malloc\<close> never returns a block in use.\<close>

definition xslab_state_inv :: "words \<times> xslab \<Rightarrow> addr set \<Rightarrow> bool" where
  "xslab_state_inv s used \<longleftrightarrow> (\<exists>ps. xslab_inv (fst s) (snd s) ps used)"

definition xslab_alloc_op :: "addr \<Rightarrow> words \<times> xslab \<Rightarrow> addr option \<times> words \<times> xslab" where
  "xslab_alloc_op malloced = (\<lambda>(mem, slab). case xslab_alloc malloced mem slab of
     (p, slab') \<Rightarrow> (if p = 0 then None else Some p, mem, slab'))"

definition xslab_free_op :: "addr \<Rightarrow> words \<times> xslab \<Rightarrow> words \<times> xslab" where
  "xslab_free_op p = (\<lambda>(mem, slab). snd (xslab_free p mem slab))"

definition xslab_write_op :: "addr \<Rightarrow> addr \<Rightarrow> words \<times> xslab \<Rightarrow> words \<times> xslab" where
  "xslab_write_op p x = (\<lambda>(mem, slab). (mem(p := x), slab))"

definition xslab_malloc_ok :: "addr \<Rightarrow> addr set \<Rightarrow> bool" where
  "xslab_malloc_ok m used \<longleftrightarrow> m \<notin> used"

interpretation xs: block_allocator xslab_state_inv xslab_malloc_ok xslab_alloc_op xslab_free_op
    xslab_write_op
proof (unfold_locales, goal_cases)
  case (1 s used m p s')
  obtain mem slab where s: "s = (mem, slab)" by (cases s)
  then obtain ps where i: "xslab_inv mem slab ps used" using 1(1) by (auto simp: xslab_state_inv_def)
  show ?case
  proof (cases ps)
    case Nil
    with i 1(2,3) show ?thesis
      by (auto simp: s xslab_alloc_op_def xslab_alloc_malloc xslab_malloc_ok_def xslab_state_inv_def
          xslab_inv_def split: if_splits intro: exI [of _ "[]"])
  next
    case (Cons q qs)
    with i have q: "q \<noteq> 0" "q \<notin> used" by (auto simp: xslab_inv_def)
    with xslab_alloc_cached [OF i [unfolded Cons]] 1(3) show ?thesis
      by (auto simp: s xslab_alloc_op_def xslab_state_inv_def)
  qed
next
  case (2 s used m s')
  obtain mem slab where s: "s = (mem, slab)" by (cases s)
  then obtain ps where i: "xslab_inv mem slab ps used" using 2(1) by (auto simp: xslab_state_inv_def)
  show ?case
  proof (cases ps)
    case Nil
    with i 2 show ?thesis
      by (auto simp: s xslab_alloc_op_def xslab_alloc_malloc split: if_splits)
  next
    case (Cons q qs)
    with i have q: "q \<noteq> 0" by (auto simp: xslab_inv_def)
    with xslab_alloc_cached [OF i [unfolded Cons]] 2(2) show ?thesis
      by (auto simp: s xslab_alloc_op_def)
  qed
next
  case (3 s used p)
  obtain mem slab where s: "s = (mem, slab)" by (cases s)
  then obtain ps where i: "xslab_inv mem slab ps used" using 3(1) by (auto simp: xslab_state_inv_def)
  show ?case
  proof (cases "x_shrink_amount slab = 0")
    case True
    from xslab_free_caches [OF i 3(2) True] show ?thesis
      by (auto simp: s xslab_free_op_def xslab_state_inv_def)
  next
    case False
    with i show ?thesis
      by (auto simp: s xslab_free_op_def xslab_free_def xslab_state_inv_def xslab_inv_def)
  qed
next
  case (4 s used p x)
  obtain mem slab where s: "s = (mem, slab)" by (cases s)
  then obtain ps where i: "xslab_inv mem slab ps used" using 4(1) by (auto simp: xslab_state_inv_def)
  have "xslab_inv (mem(p := x)) slab ps used"
    by (rule xslab_client_write [OF i]) (use 4(2) in auto)
  then show ?case by (auto simp: s xslab_write_op_def xslab_state_inv_def)
qed

lemma xslab_init_inv: "xslab_init m sz = Some slab \<Longrightarrow> xslab_state_inv (mem, slab) {}"
  by (auto simp: xslab_init_def xslab_state_inv_def xslab_inv_def split: if_splits intro: exI [of _ "[]"])

section \<open>Properties\<close>

text \<open>C9. In any sequence of allocations, frees of held blocks and writes by the clients into the
  blocks they hold, on a slab that was just initialised, no allocation hands out a block that is
  in use, provided \<open>malloc\<close> itself does not.\<close>

theorem xslab_exclusive:
  assumes "xslab_init m sz = Some slab" and "xs.env_ok ops ((mem, slab), {})"
    and "block_run xslab_alloc_op xslab_free_op xslab_write_op ops ((mem, slab), {}) = (rs, s', used')"
    and "(Some p, used) \<in> set rs"
  shows "p \<notin> used"
  using xs.run_exclusive [OF xslab_init_inv [OF assms(1)] assms(2,3)] assms(4) by auto

definition demo_slab :: xslab where
  "demo_slab = \<lparr>x_head = 0, x_usable_amount = 0, x_shrink_amount = 0, x_alloc_size = 16\<rparr>"

theorem xslab_exclusive_witness:
  "(16 :: addr) \<notin> {32}"
proof (rule xslab_exclusive)
  let ?ops = "[Alloc 16, Alloc 32, Write 16 7, Free 16, Alloc 48]"
  show "xslab_init 8 16 = Some demo_slab" by (simp add: xslab_init_def demo_slab_def sizeof_ptr_def)
  show "xs.env_ok ?ops ((\<lambda>_. 0, demo_slab), {})"
    by (simp add: xslab_alloc_op_def xslab_alloc_def xslab_free_op_def xslab_free_def xslab_write_op_def
        xslab_malloc_ok_def demo_slab_def)
  show "block_run xslab_alloc_op xslab_free_op xslab_write_op ?ops ((\<lambda>_. 0, demo_slab), {}) =
      ([(Some 16, {}), (Some 32, {16}), (Some 16, {32})], ((\<lambda>_. 0)(16 := 7, 16 := 0),
         demo_slab\<lparr>x_head := 0, x_usable_amount := 0\<rparr>), {16, 32})"
    by (simp add: xslab_alloc_op_def xslab_alloc_def xslab_free_op_def xslab_free_def xslab_write_op_def
        demo_slab_def insert_commute)
  show "(Some 16, {32}) \<in> set [(Some 16, {}), (Some 32, {16}), (Some 16, {32 :: addr})]" by simp
qed

text \<open>A shrink request that keeps \<open>kept\<close> of the cached blocks does not touch the cached ones:
  the next \<open>usable - kept\<close> blocks given back go to \<open>free\<close>, and only after them are blocks cached
  again.\<close>

lemma xslab_shrink_releases:
  assumes "length ps = x_usable_amount slab - kept" and "kept \<le> x_usable_amount slab"
  shows "fold (\<lambda>p (freed, mem, slab). let (f, mem', slab') = xslab_free p mem slab
                                      in (freed @ f, mem', slab')) (ps @ [q])
           ([], mem, xslab_shrink kept slab) =
         (ps, mem(q := x_head slab),
          slab\<lparr>x_head := q, x_usable_amount := x_usable_amount slab + 1, x_shrink_amount := 0\<rparr>)"
proof -
  let ?f = "\<lambda>p (freed, mem, slab). let (f, mem', slab') = xslab_free p mem slab in (freed @ f, mem', slab')"
  have "fold ?f ps (fs, mem, slab\<lparr>x_shrink_amount := length ps\<rparr>) =
      (fs @ ps, mem, slab\<lparr>x_shrink_amount := 0\<rparr>)" for fs and slab :: xslab
  proof (induction ps arbitrary: fs)
    case (Cons p ps)
    have "?f p (fs, mem, slab\<lparr>x_shrink_amount := length (p # ps)\<rparr>) =
        (fs @ [p], mem, slab\<lparr>x_shrink_amount := length ps\<rparr>)" by (simp add: xslab_free_def)
    with Cons.IH [of "fs @ [p]"] show ?case by simp
  qed simp
  from this [of "[]" slab] assms(1) show ?thesis by (simp add: xslab_shrink_def xslab_free_def)
qed

text \<open>\<open>destroy\<close> gives every cached block back to \<open>free\<close>, each exactly once.\<close>

lemma xslab_destroy_frees_cached:
  assumes "xslab_inv mem slab ps used"
  shows "xslab_destroy mem slab = ps \<and> distinct (xslab_destroy mem slab)"
  using assms destroy_loop_chain [of mem "x_head slab" ps] by (auto simp: xslab_inv_def xslab_destroy_def)

end
