(* ===== verification/Fsb.thy ===== *)
theory Fsb
  imports Block_Allocator
begin

text \<open>
  The fixed-size-block pool \<open>g_fsb_*\<close> (\<open>mempool.c\<close>): an array of blocks, each behind an 8-byte
  header holding its number and a magic (zero while the block is free), and a ring of the numbers
  of the free blocks with one more slot than there are blocks. A pointer is the offset from
  \<open>FS_GET_BLOCK_POOL\<close>; the headers are a list, the words at any other offset (application data)
  come from a parameter. Keys are the two header words: number below, magic above.
\<close>

section \<open>State\<close>

record fsb =
  f_block_size :: nat
  f_block_count :: nat
  f_begin :: nat
  f_end :: nat
  f_next_magic :: u32
  f_ids :: "nat list"
  f_headers :: "(u32 \<times> u32) list"

definition sizeof_fsb_pool :: int where "sizeof_fsb_pool = 48"
definition sizeof_fsb_block :: int where "sizeof_fsb_block = 8"
definition sizeof_long :: int where "sizeof_long = 8"

text \<open>
  The \<open>sizeof\<close> terms make the size arithmetic \<open>unsigned long\<close>: it wraps at \<open>2 ^ 64\<close>, and the result
  becomes a \<open>long\<close> again.
\<close>

definition to_ulong :: "int \<Rightarrow> int" where "to_ulong x = x mod 2 ^ 64"
definition to_long :: "int \<Rightarrow> int" where "to_long x = (x + 2 ^ 63) mod 2 ^ 64 - 2 ^ 63"

definition fsb_needed :: "int \<Rightarrow> int \<Rightarrow> int" where
  "fsb_needed block_size block_count =
     to_long (to_ulong ((block_size + sizeof_long + sizeof_fsb_block) * block_count + sizeof_fsb_pool))"

text \<open>\<open>None\<close>: the division by zero of a negative block size.\<close>

definition fsb_available :: "int \<Rightarrow> int \<Rightarrow> int option" where
  "fsb_available tot block_size =
     (let tot = to_long (to_ulong (tot - sizeof_fsb_pool));
          per = to_ulong (block_size + sizeof_long + sizeof_fsb_block)
      in if per = 0 then None else Some (to_long (to_ulong tot div per)))"

text \<open>
  The size check of \<open>g_fsb_init\<close> trusts \<open>g_fsb_needed\<close>, which may have wrapped. \<open>None\<close> is undefined
  behaviour: the pool head, the ring and the blocks laid out by the macros do not all lie inside
  the memory given. \<open>Some None\<close> is \<open>NULL\<close>. \<open>raw\<close> is what the ring's memory held before: only its
  last slot keeps it.
\<close>

definition fsb_lies_in :: "int \<Rightarrow> int \<Rightarrow> int \<Rightarrow> bool" where
  "fsb_lies_in tot block_size block_count \<longleftrightarrow>
     sizeof_fsb_pool + sizeof_long * block_count + (block_size + sizeof_fsb_block) * block_count \<le> tot"

definition fsb_init :: "nat list \<Rightarrow> int \<Rightarrow> int \<Rightarrow> int \<Rightarrow> fsb option option" where
  "fsb_init raw tot block_size block_count =
     (if block_size > 0 \<and> block_count > 0 \<and> tot \<ge> fsb_needed block_size block_count
      then (if fsb_lies_in tot block_size block_count
            then Some (Some
              \<lparr>f_block_size = nat (block_size + sizeof_fsb_block), f_block_count = nat block_count,
               f_begin = 0, f_end = nat block_count, f_next_magic = 0,
               f_ids = [0..<nat block_count] @ drop (nat block_count) raw,
               f_headers = replicate (nat block_count) (0, 0)\<rparr>)
            else None)
      else Some None)"

definition fsb_size :: "fsb \<Rightarrow> nat" where
  "fsb_size pool = f_block_size pool - 8"

definition fsb_count :: "fsb \<Rightarrow> nat" where
  "fsb_count pool = f_block_count pool"

definition fsb_used :: "fsb \<Rightarrow> int" where
  "fsb_used pool =
     (let l = int (f_begin pool) - int (f_end pool)
      in if l > 0 then l - 1 else int (f_block_count pool) + l)"

text \<open>Offsets: the header of block \<open>bid\<close>, its data, and the number of the block around an address.\<close>

definition fsb_header_off :: "fsb \<Rightarrow> nat \<Rightarrow> int" where
  "fsb_header_off pool bid = int (bid * f_block_size pool)"

definition fsb_data_off :: "fsb \<Rightarrow> nat \<Rightarrow> int" where
  "fsb_data_off pool bid = fsb_header_off pool bid + 8"

definition fsb_block_id :: "fsb \<Rightarrow> int \<Rightarrow> int" where
  "fsb_block_id pool off =
     (if off < 0 then - (- off div int (f_block_size pool)) else off div int (f_block_size pool))"

definition fsb_is_header :: "fsb \<Rightarrow> int \<Rightarrow> bool" where
  "fsb_is_header pool off \<longleftrightarrow>
     0 \<le> off \<and> off mod int (f_block_size pool) = 0 \<and>
     nat (off div int (f_block_size pool)) < f_block_count pool"

definition fsb_header_at :: "(int \<Rightarrow> u32 \<times> u32) \<Rightarrow> fsb \<Rightarrow> int \<Rightarrow> u32 \<times> u32" where
  "fsb_header_at foreign pool off =
     (if fsb_is_header pool off then f_headers pool ! nat (off div int (f_block_size pool)) else foreign off)"

section \<open>Operations\<close>

definition next_magic :: "u32 \<Rightarrow> u32" where
  "next_magic m = (if m + 1 = 0 then 1 else m + 1)"

definition ring_next :: "fsb \<Rightarrow> nat \<Rightarrow> nat" where
  "ring_next pool i = (if i + 1 = f_block_count pool + 1 then 0 else i + 1)"

definition fsb_alloc :: "fsb \<Rightarrow> int option \<times> fsb" where
  "fsb_alloc pool =
     (let b = f_begin pool in
      if b \<noteq> f_end pool
      then (let bid = f_ids pool ! b; magic = next_magic (f_next_magic pool)
            in (Some (fsb_data_off pool bid),
                pool\<lparr>f_begin := ring_next pool b, f_next_magic := magic,
                     f_headers := (f_headers pool)[bid := (of_nat bid, magic)]\<rparr>))
      else (None, pool))"

definition fsb_check :: "(int \<Rightarrow> u32 \<times> u32) \<Rightarrow> fsb \<Rightarrow> int \<Rightarrow> bool" where
  "fsb_check foreign pool block =
     (let (hid, magic) = fsb_header_at foreign pool (block - 8); bid = fsb_block_id pool block
      in bid \<ge> 0 \<and> bid < int (f_block_count pool) \<and> bid = sint hid \<and> magic \<noteq> 0)"

text \<open>\<open>None\<close>: the words of the application passed for a header, and the call overwrites them.\<close>

definition fsb_free :: "(int \<Rightarrow> u32 \<times> u32) \<Rightarrow> fsb \<Rightarrow> int \<Rightarrow> (int \<times> fsb) option" where
  "fsb_free foreign pool block =
     (if fsb_check foreign pool block
      then (if fsb_is_header pool (block - 8)
            then (let bid = nat (fsb_block_id pool block); e = f_end pool
                  in Some (0, pool\<lparr>f_headers := (f_headers pool)[bid := (0, 0)],
                                   f_ids := (f_ids pool)[e := bid], f_end := ring_next pool e\<rparr>))
            else None)
      else Some (-1, pool))"

definition fsb_getkey :: "(int \<Rightarrow> u32 \<times> u32) \<Rightarrow> fsb \<Rightarrow> int \<Rightarrow> u32 \<times> u32" where
  "fsb_getkey foreign pool block =
     (if fsb_check foreign pool block then fsb_header_at foreign pool (block - 8) else (0, 0))"

definition fsb_getblock :: "fsb \<Rightarrow> u32 \<times> u32 \<Rightarrow> int option" where
  "fsb_getblock pool key =
     (let (kid, magic) = key in
      if magic \<noteq> 0 \<and> sint kid \<ge> 0 \<and> sint kid < int (f_block_count pool)
      then (let bid = nat (sint kid) in
            if f_headers pool ! bid = key then Some (fsb_data_off pool bid) else None)
      else None)"

section \<open>The ring\<close>

definition ring :: "nat list \<Rightarrow> nat \<Rightarrow> nat \<Rightarrow> nat list" where
  "ring ids b n = map (\<lambda>k. ids ! ((b + k) mod length ids)) [0..<n]"

definition ring_size :: "nat \<Rightarrow> nat \<Rightarrow> nat \<Rightarrow> nat" where
  "ring_size s b e = (e + s - b) mod s"

lemma ring_length [simp]: "length (ring ids b n) = n"
  by (simp add: ring_def)

lemma ring_pop:
  assumes "b < length ids"
  shows "ring ids b (Suc n) = ids ! b # ring ids ((b + 1) mod length ids) n"
  using assms by (simp add: ring_def upt_conv_Cons map_Suc_upt [symmetric] mod_simps del: upt_Suc)

lemma ring_push:
  assumes "b < length ids" "n < length ids" "e = (b + n) mod length ids"
  shows "ring (ids[e := x]) b (Suc n) = ring ids b n @ [x]"
proof -
  have "e \<noteq> (b + k) mod length ids" if "k < n" for k
  proof
    assume "e = (b + k) mod length ids"
    then have "(b + n) mod length ids = (b + k) mod length ids" using assms(3) by simp
    then have "length ids dvd (b + n) - (b + k)" using that by (simp add: mod_eq_dvd_iff_nat)
    then show False using that assms(2) by (auto dest: dvd_imp_le)
  qed
  moreover have "e < length ids" using assms by (metis mod_less_divisor not_less_zero neq0_conv)
  ultimately show ?thesis using assms(3) by (simp add: ring_def)
qed

lemma ring_size_pop:
  assumes "b < s" "e < s" "b \<noteq> e"
  shows "ring_size s b e = Suc (ring_size s ((b + 1) mod s) e)"
proof (cases "b + 1 = s")
  case True
  then have "ring_size s b e = (e + 1) mod s" "ring_size s ((b + 1) mod s) e = e"
    using assms by (simp_all add: ring_size_def)
  then show ?thesis using assms True by simp
next
  case False
  then have b: "(b + 1) mod s = b + 1" using assms by simp
  show ?thesis
  proof (cases "b < e")
    case True
    then have "ring_size s b e = e - b" "ring_size s (b + 1) e = e - (b + 1)"
      using assms by (simp_all add: ring_size_def mod_if)
    with True b show ?thesis by simp
  next
    case le: False
    then have "ring_size s b e = e + s - b" "ring_size s (b + 1) e = e + s - (b + 1)"
      using assms False by (simp_all add: ring_size_def)
    with b assms show ?thesis by simp
  qed
qed

lemma ring_size_push:
  assumes "b < s" "e < s" "ring_size s b e < s - 1"
  shows "ring_size s b ((e + 1) mod s) = Suc (ring_size s b e)" "e = (b + ring_size s b e) mod s"
proof -
  have "(b + ring_size s b e) mod s = (b + (e + s - b)) mod s" by (simp add: ring_size_def mod_simps)
  with assms show "e = (b + ring_size s b e) mod s" by simp
  have sb: "x + s - b = x + (s - b)" for x using assms(1) by simp
  have "ring_size s b ((e + 1) mod s) = (e + 1 + (s - b)) mod s"
    unfolding ring_size_def sb by (rule mod_add_left_eq)
  also have "\<dots> = (ring_size s b e + 1) mod s"
    unfolding ring_size_def sb mod_add_left_eq by (simp add: add.commute add.left_commute)
  finally show "ring_size s b ((e + 1) mod s) = Suc (ring_size s b e)" using assms(3) by simp
qed

section \<open>Invariant\<close>

definition fsb_free_ids :: "fsb \<Rightarrow> nat list" where
  "fsb_free_ids pool =
     ring (f_ids pool) (f_begin pool) (ring_size (f_block_count pool + 1) (f_begin pool) (f_end pool))"

text \<open>
  The ring holds the numbers of the free blocks, each once; the header of a free block is zero, that
  of a block in use holds its number and a magic.
\<close>

definition fsb_inv :: "fsb \<Rightarrow> nat set \<Rightarrow> bool" where
  "fsb_inv pool used \<longleftrightarrow>
     8 < f_block_size pool \<and> f_block_count pool < 2 ^ 31 \<and>
     length (f_ids pool) = f_block_count pool + 1 \<and> length (f_headers pool) = f_block_count pool \<and>
     f_begin pool \<le> f_block_count pool \<and> f_end pool \<le> f_block_count pool \<and>
     distinct (fsb_free_ids pool) \<and> set (fsb_free_ids pool) = {..<f_block_count pool} - used \<and>
     used \<subseteq> {..<f_block_count pool} \<and>
     (\<forall>i<f_block_count pool. if i \<in> used then fst (f_headers pool ! i) = of_nat i \<and> snd (f_headers pool ! i) \<noteq> 0
                              else f_headers pool ! i = (0, 0))"

lemma ring_next_mod: "i \<le> f_block_count pool \<Longrightarrow> ring_next pool i = (i + 1) mod (f_block_count pool + 1)"
  by (simp add: ring_next_def)

lemma next_magic_nonzero: "next_magic m \<noteq> 0"
  by (simp add: next_magic_def)

lemma fsb_free_ids_card:
  assumes "fsb_inv pool used"
  shows "length (fsb_free_ids pool) + card used = f_block_count pool"
proof -
  have fin: "used \<subseteq> {..<f_block_count pool}" "finite used"
    using assms finite_subset by (auto simp: fsb_inv_def)
  have "length (fsb_free_ids pool) = card ({..<f_block_count pool} - used)"
    using assms distinct_card [of "fsb_free_ids pool"] by (simp add: fsb_inv_def)
  also have "\<dots> = f_block_count pool - card used" using fin by (simp add: card_Diff_subset)
  finally show ?thesis using card_mono [OF _ fin(1)] by simp
qed

lemma ring_size_zero: "b < s \<Longrightarrow> e < s \<Longrightarrow> ring_size s b e = 0 \<longleftrightarrow> b = e"
  using ring_size_pop [of b s e] by (cases "b = e") (simp_all add: ring_size_def)

lemma fsb_alloc_empty:
  assumes "fsb_inv pool used"
  shows "f_begin pool = f_end pool \<longleftrightarrow> card used = f_block_count pool"
proof -
  have "f_begin pool = f_end pool \<longleftrightarrow> length (fsb_free_ids pool) = 0"
    using assms ring_size_zero [of "f_begin pool" "f_block_count pool + 1" "f_end pool"]
    by (simp add: fsb_inv_def fsb_free_ids_def)
  then show ?thesis using fsb_free_ids_card [OF assms] by auto
qed

text \<open>Allocation takes the front of the queue of free blocks.\<close>

lemma fsb_alloc_takes:
  assumes inv: "fsb_inv pool used" and ne: "card used \<noteq> f_block_count pool"
  shows "\<exists>bid pool'. fsb_alloc pool = (Some (fsb_data_off pool bid), pool') \<and>
           fsb_free_ids pool = bid # fsb_free_ids pool' \<and> bid < f_block_count pool \<and> bid \<notin> used \<and>
           fsb_inv pool' (insert bid used) \<and> f_block_size pool' = f_block_size pool \<and>
           f_block_count pool' = f_block_count pool \<and>
           f_next_magic pool' = next_magic (f_next_magic pool) \<and>
           f_headers pool' = (f_headers pool)[bid := (of_nat bid, next_magic (f_next_magic pool))]"
proof -
  let ?s = "f_block_count pool + 1"
  let ?bid = "f_ids pool ! f_begin pool"
  let ?p = "pool\<lparr>f_begin := ring_next pool (f_begin pool), f_next_magic := next_magic (f_next_magic pool),
      f_headers := (f_headers pool)[?bid := (of_nat ?bid, next_magic (f_next_magic pool))]\<rparr>"
  have be: "f_begin pool < ?s" "f_end pool < ?s" "f_begin pool \<noteq> f_end pool" "length (f_ids pool) = ?s"
    using inv ne fsb_alloc_empty [OF inv] by (auto simp: fsb_inv_def)
  have nx: "ring_next pool (f_begin pool) = (f_begin pool + 1) mod ?s"
    using be by (simp add: ring_next_mod)
  have q: "fsb_free_ids pool = ?bid # fsb_free_ids ?p"
    using ring_size_pop [OF be(1-3)] ring_pop [of "f_begin pool" "f_ids pool"] be
    by (simp add: fsb_free_ids_def nx)
  have bid: "?bid < f_block_count pool" "?bid \<notin> used" "distinct (fsb_free_ids pool)"
    using q inv by (auto simp: fsb_inv_def)
  have "set (fsb_free_ids ?p) = {..<f_block_count pool} - insert ?bid used"
  proof -
    have "insert ?bid (set (fsb_free_ids ?p)) = {..<f_block_count pool} - used" "?bid \<notin> set (fsb_free_ids ?p)"
      using q inv bid(3) by (metis list.simps(15) fsb_inv_def, metis distinct.simps(2))
    then show ?thesis by blast
  qed
  moreover have "distinct (fsb_free_ids ?p)" using q bid(3) by (metis distinct.simps(2))
  moreover have "ring_next pool (f_begin pool) \<le> f_block_count pool"
    using be unfolding nx by (metis Suc_eq_plus1 less_Suc_eq_le mod_less_divisor zero_less_Suc)
  ultimately have "fsb_inv ?p (insert ?bid used)"
    using inv bid(1,2) next_magic_nonzero by (auto simp: fsb_inv_def nth_list_update)
  then show ?thesis
    using q bid(1,2) be(3) by (intro exI [of _ ?bid] exI [of _ ?p]) (simp add: fsb_alloc_def)
qed

section \<open>Addresses of blocks\<close>

lemma fsb_data_off_inj:
  "8 < f_block_size pool \<Longrightarrow> fsb_data_off pool i = fsb_data_off pool j \<longleftrightarrow> i = j"
  by (simp add: fsb_data_off_def fsb_header_off_def)

lemma fsb_data_off_block:
  assumes "8 < f_block_size pool" "i < f_block_count pool"
  shows "fsb_block_id pool (fsb_data_off pool i) = int i"
    "fsb_is_header pool (fsb_data_off pool i - 8)"
    "fsb_header_at foreign pool (fsb_data_off pool i - 8) = f_headers pool ! i"
proof -
  let ?b = "int (f_block_size pool)"
  have "(int i * ?b + 8) div ?b = int i"
    using assms(1) by (simp add: div_add1_eq)
  moreover have "0 \<le> int i * ?b" by simp
  then have nn: "\<not> int i * ?b + 8 < 0" by linarith
  ultimately show "fsb_block_id pool (fsb_data_off pool i) = int i"
    using nn by (simp add: fsb_block_id_def fsb_data_off_def fsb_header_off_def)
  show "fsb_is_header pool (fsb_data_off pool i - 8)"
    "fsb_header_at foreign pool (fsb_data_off pool i - 8) = f_headers pool ! i"
    using assms by (simp_all add: fsb_is_header_def fsb_header_at_def fsb_data_off_def fsb_header_off_def)
qed

lemma sint_small: "i < 2 ^ 31 \<Longrightarrow> sint (of_nat i :: u32) = int i"
  by (simp add: signed_of_nat signed_take_bit_int_eq_self)

lemma fsb_check_iff:
  assumes inv: "fsb_inv pool used" and i: "i < f_block_count pool"
  shows "fsb_check foreign pool (fsb_data_off pool i) \<longleftrightarrow> i \<in> used"
proof -
  have sz: "8 < f_block_size pool" "f_block_count pool < 2 ^ 31" using inv by (auto simp: fsb_inv_def)
  have s: "sint (of_nat i :: u32) = int i" using i sz(2) by (intro sint_small) simp
  have h: "if i \<in> used then fst (f_headers pool ! i) = of_nat i \<and> snd (f_headers pool ! i) \<noteq> 0
           else f_headers pool ! i = (0, 0)"
    using inv i by (auto simp: fsb_inv_def)
  then show ?thesis
    using fsb_data_off_block(1) [OF sz(1) i] fsb_data_off_block(3) [OF sz(1) i, of foreign] i s
    by (auto simp: fsb_check_def split: if_splits prod.splits)
qed

text \<open>Freeing a block in use puts its number at the back of the queue.\<close>

lemma fsb_free_returns:
  assumes inv: "fsb_inv pool used" and i: "i \<in> used"
  shows "\<exists>pool'. fsb_free foreign pool (fsb_data_off pool i) = Some (0, pool') \<and>
           fsb_free_ids pool' = fsb_free_ids pool @ [i] \<and> fsb_inv pool' (used - {i}) \<and>
           f_block_size pool' = f_block_size pool \<and> f_block_count pool' = f_block_count pool \<and>
           f_next_magic pool' = f_next_magic pool \<and> f_headers pool' = (f_headers pool)[i := (0, 0)]"
proof -
  let ?s = "f_block_count pool + 1"
  have ic: "i < f_block_count pool" "finite used" using inv i by (auto simp: fsb_inv_def dest: finite_subset)
  let ?p = "pool\<lparr>f_headers := (f_headers pool)[i := (0, 0)],
      f_ids := (f_ids pool)[f_end pool := i], f_end := ring_next pool (f_end pool)\<rparr>"
  have be: "f_begin pool < ?s" "f_end pool < ?s" "length (f_ids pool) = ?s" "8 < f_block_size pool"
    using inv by (auto simp: fsb_inv_def)
  have "0 < card used" using ic(2) i by (auto simp: card_gt_0_iff)
  then have few: "ring_size ?s (f_begin pool) (f_end pool) < ?s - 1"
    using fsb_free_ids_card [OF inv] by (simp add: fsb_free_ids_def)
  have nx: "ring_next pool (f_end pool) = (f_end pool + 1) mod ?s"
    using be by (simp add: ring_next_mod)
  have q: "fsb_free_ids ?p = fsb_free_ids pool @ [i]"
    using ring_push [of "f_begin pool" "f_ids pool", OF _ _ ring_size_push(2) [OF be(1,2) few, folded be(3)], of i]
      be few ring_size_push(1) [OF be(1,2) few]
    by (simp add: fsb_free_ids_def nx)
  have "i \<notin> set (fsb_free_ids pool)" using inv i by (auto simp: fsb_inv_def)
  moreover have "ring_next pool (f_end pool) \<le> f_block_count pool"
    using be unfolding nx by (metis Suc_eq_plus1 less_Suc_eq_le mod_less_divisor zero_less_Suc)
  ultimately have "fsb_inv ?p (used - {i})"
    using inv i ic q unfolding fsb_inv_def by (auto simp: nth_list_update)
  moreover have "fsb_free foreign pool (fsb_data_off pool i) = Some (0, ?p)"
    using fsb_check_iff [OF inv ic(1), of foreign] i fsb_data_off_block [OF be(4) ic(1)]
    by (simp add: fsb_free_def)
  ultimately show ?thesis using q by (intro exI [of _ ?p]) simp
qed

lemma fsb_free_refused:
  "fsb_inv pool used \<Longrightarrow> i < f_block_count pool \<Longrightarrow> i \<notin> used \<Longrightarrow>
   fsb_free foreign pool (fsb_data_off pool i) = Some (-1, pool)"
  by (simp add: fsb_free_def fsb_check_iff)

section \<open>The allocator contract\<close>

text \<open>
  Blocks are named by their pointers; a client's write into its block leaves the headers and the
  ring alone (see \<open>fsb_blocks_disjoint\<close>).
\<close>

definition fsb_state_inv :: "nat \<Rightarrow> nat \<Rightarrow> fsb \<Rightarrow> int set \<Rightarrow> bool" where
  "fsb_state_inv bs n pool used \<longleftrightarrow>
     f_block_size pool = bs \<and> f_block_count pool = n \<and>
     (\<exists>ids. fsb_inv pool ids \<and> used = fsb_data_off pool ` ids)"

definition fsb_alloc_op :: "unit \<Rightarrow> fsb \<Rightarrow> int option \<times> fsb" where
  "fsb_alloc_op _ = fsb_alloc"

definition fsb_free_op :: "(int \<Rightarrow> u32 \<times> u32) \<Rightarrow> int \<Rightarrow> fsb \<Rightarrow> fsb" where
  "fsb_free_op foreign p pool = (case fsb_free foreign pool p of None \<Rightarrow> pool | Some (_, pool') \<Rightarrow> pool')"

definition fsb_write_op :: "int \<Rightarrow> byte list \<Rightarrow> fsb \<Rightarrow> fsb" where
  "fsb_write_op p data pool = pool"

lemma fsb_data_off_cong: "f_block_size p = f_block_size q \<Longrightarrow> fsb_data_off p = fsb_data_off q"
  by (simp add: fun_eq_iff fsb_data_off_def fsb_header_off_def)

interpretation fsb: block_allocator "fsb_state_inv bs n" "\<lambda>_ _. True" fsb_alloc_op "fsb_free_op foreign"
    fsb_write_op
  for bs n foreign
proof (unfold_locales, goal_cases)
  case (1 s used e p s')
  then obtain ids where ids: "fsb_inv s ids" "used = fsb_data_off s ` ids" "f_block_size s = bs"
      "f_block_count s = n" by (auto simp: fsb_state_inv_def)
  have "card ids \<noteq> f_block_count s"
    using 1(3) fsb_alloc_empty [OF ids(1)] by (auto simp: fsb_alloc_op_def fsb_alloc_def)
  from fsb_alloc_takes [OF ids(1) this] obtain bid where a: "fsb_alloc s = (Some (fsb_data_off s bid), s')"
      "bid \<notin> ids" "fsb_inv s' (insert bid ids)" "f_block_size s' = bs" "f_block_count s' = n"
      "p = fsb_data_off s bid"
    using 1(3) ids(3,4) by (auto simp: fsb_alloc_op_def)
  have "8 < f_block_size s" using ids(1) by (simp add: fsb_inv_def)
  with a ids show ?case
    by (auto simp: fsb_state_inv_def fsb_data_off_inj fsb_data_off_cong [of s' s]
        intro!: exI [of _ "insert bid ids"])
next
  case (2 s used e s')
  then show ?case by (auto simp: fsb_alloc_op_def fsb_alloc_def split: if_splits)
next
  case (3 s used p)
  then obtain ids i where ids: "fsb_inv s ids" "used = fsb_data_off s ` ids" "f_block_size s = bs"
      "f_block_count s = n" "i \<in> ids" "p = fsb_data_off s i" by (auto simp: fsb_state_inv_def)
  have sz: "8 < f_block_size s" using ids(1) by (simp add: fsb_inv_def)
  from fsb_free_returns [OF ids(1,5), of foreign] obtain s' where s':
    "fsb_free foreign s (fsb_data_off s i) = Some (0, s')" "fsb_inv s' (ids - {i})" "f_block_size s' = bs"
    "f_block_count s' = n" using ids(3,4) by auto
  have "used - {p} = fsb_data_off s' ` (ids - {i})"
    unfolding ids(2,6) fsb_data_off_cong [of s' s, unfolded s'(3) ids(3), OF refl]
    using sz by (auto simp: fsb_data_off_inj)
  with s' show ?case by (auto simp: fsb_free_op_def ids(6) fsb_state_inv_def)
next
  case (4 s used p x)
  then show ?case by (simp add: fsb_write_op_def)
qed

lemma fsb_init_inv:
  assumes init: "fsb_init raw tot bs n = Some (Some pool)" and raw: "length raw = nat n + 1" and n: "n < 2 ^ 31"
  shows "fsb_inv pool {}" "f_block_size pool = nat bs + 8" "f_block_count pool = nat n" "0 < n"
proof -
  obtain m where m: "n = int m" "0 < m" using init by (cases n) (auto simp: fsb_init_def split: if_splits)
  have p: "0 < bs" "pool = \<lparr>f_block_size = nat bs + 8, f_block_count = m, f_begin = 0, f_end = m,
      f_next_magic = 0, f_ids = [0..<m] @ drop m raw, f_headers = replicate m (0, 0)\<rparr>"
    using init m by (auto simp: fsb_init_def sizeof_fsb_block_def nat_add_distrib split: if_splits)
  have "ring_size (m + 1) 0 m = m"
    using mod_add_self2 [of m "m + 1"] by (simp add: ring_size_def)
  then have "fsb_free_ids pool = [0..<m]"
    using raw m by (auto simp: p fsb_free_ids_def ring_def nth_append intro!: nth_equalityI)
  then show "fsb_inv pool {}" using raw m n p by (auto simp: fsb_inv_def)
  show "f_block_size pool = nat bs + 8" "f_block_count pool = nat n" "0 < n" using m p by simp_all
qed

lemma fsb_env_ok: "fsb.env_ok foreign ops (pool, used)"
proof (induction ops arbitrary: pool used)
  case (Cons op ops)
  then show ?case by (cases op) (auto split: prod.splits)
qed simp

text \<open>Without a wrap, \<open>g_fsb_needed\<close> is the plain sum.\<close>

lemma fsb_needed_exact:
  assumes "0 < bs" "0 < n" "(bs + 16) * n + 48 < 2 ^ 63"
  shows "fsb_needed bs n = (bs + 16) * n + 48"
proof -
  have "0 \<le> (bs + 16) * n" using assms(1,2) by simp
  moreover have "(bs + sizeof_long + sizeof_fsb_block) * n + sizeof_fsb_pool = (bs + 16) * n + 48"
    by (simp add: sizeof_long_def sizeof_fsb_block_def sizeof_fsb_pool_def algebra_simps)
  ultimately show ?thesis
    using assms(3) by (simp add: fsb_needed_def to_long_def to_ulong_def)
qed

section \<open>Keys\<close>

lemma fsb_key_in_use:
  assumes "fsb_inv pool used" "i \<in> used"
  shows "fsb_getkey foreign pool (fsb_data_off pool i) = f_headers pool ! i"
    "snd (f_headers pool ! i) \<noteq> 0" "fsb_getblock pool (f_headers pool ! i) = Some (fsb_data_off pool i)"
proof -
  have i: "i < f_block_count pool" "8 < f_block_size pool" "f_block_count pool < 2 ^ 31"
    using assms by (auto simp: fsb_inv_def)
  have h: "fst (f_headers pool ! i) = of_nat i" "snd (f_headers pool ! i) \<noteq> 0"
    using assms i(1) by (auto simp: fsb_inv_def)
  then show "snd (f_headers pool ! i) \<noteq> 0" by simp
  show "fsb_getkey foreign pool (fsb_data_off pool i) = f_headers pool ! i"
    using fsb_check_iff [OF assms(1) i(1)] assms(2) fsb_data_off_block [OF i(2,1)]
    by (simp add: fsb_getkey_def)
  have "sint (of_nat i :: u32) = int i" using i by (intro sint_small) simp
  moreover obtain m where "f_headers pool ! i = (of_nat i, m)" by (metis h(1) prod.collapse)
  ultimately show "fsb_getblock pool (f_headers pool ! i) = Some (fsb_data_off pool i)"
    using h i(1) by (simp add: fsb_getblock_def)
qed

lemma fsb_getblock_header: "fsb_getblock pool key = Some p \<Longrightarrow> f_block_count pool = length (f_headers pool)
    \<Longrightarrow> key \<in> set (f_headers pool)"
  by (auto simp: fsb_getblock_def in_set_conv_nth split: prod.splits if_splits)
     (metis nat_less_iff of_nat_less_iff nat_0_le)

text \<open>The magics go round through all non-zero words.\<close>

lemma next_magic_iterate:
  assumes "m \<noteq> 0"
  shows "unat ((next_magic ^^ k) m) = (unat m - 1 + k) mod (2 ^ 32 - 1) + 1"
proof (induction k)
  case 0
  have "unat m < 2 ^ LENGTH(32)" by (rule unsigned_less)
  moreover have "0 < unat m" using assms by (simp add: unat_gt_0)
  ultimately show ?case by simp
next
  case (Suc k)
  let ?x = "(next_magic ^^ k) m" and ?y = "(unat m - 1 + k) mod (2 ^ 32 - 1)"
  have y: "?y < 2 ^ 32 - 1" by (rule mod_less_divisor) simp
  have x: "unat ?x = ?y + 1" by (rule Suc.IH)
  show ?case
  proof (cases "?y + 1 = 2 ^ 32 - 1")
    case True
    then have "?x = - 1" using x by (simp add: word_unat_eq_iff unsigned_minus_1_eq_mask mask_eq_exp_minus_1)
    then have "(next_magic ^^ Suc k) m = 1" by (simp add: next_magic_def)
    moreover have "(unat m - 1 + Suc k) mod (2 ^ 32 - 1) = (?y + 1) mod (2 ^ 32 - 1)"
      by (simp add: mod_simps)
    ultimately show ?thesis unfolding True by simp
  next
    case False
    then have lt: "?y + 2 < 2 ^ 32" using y by simp
    then have "unat (?x + 1) = ?y + 2" using x by (simp add: unat_word_ariths)
    then have "unat (next_magic ?x) = ?y + 2" by (auto simp: next_magic_def)
    moreover have "(unat m - 1 + Suc k) mod (2 ^ 32 - 1) = (?y + 1) mod (2 ^ 32 - 1)"
      by (simp add: mod_simps)
    ultimately show ?thesis using lt by simp
  qed
qed

lemma mod_shift_moves: "a < n \<Longrightarrow> 0 < k \<Longrightarrow> k < n \<Longrightarrow> (a + k) mod n \<noteq> a" for n :: nat
  by (cases "a + k < n") (simp_all add: le_mod_geq)

lemma next_magic_fresh:
  assumes "m \<noteq> 0" "0 < k" "k < 2 ^ 32 - 1"
  shows "(next_magic ^^ k) m \<noteq> m"
proof
  assume eq: "(next_magic ^^ k) m = m"
  have "unat m < 2 ^ LENGTH(32)" by (rule unsigned_less)
  then have "unat m - 1 < 2 ^ 32 - 1" using assms(1) by (simp add: unat_gt_0)
  from mod_shift_moves [OF this assms(2,3)] next_magic_iterate [OF assms(1), of k] eq
  show False by (metis add_diff_cancel_right')
qed

text \<open>
  Allocations (\<open>None\<close>) and frees of any pointer (\<open>Some p\<close>) one after another; \<open>None\<close> as the result
  once a free has taken words of the application for a header.
\<close>

fun fsb_run :: "(int \<Rightarrow> u32 \<times> u32) \<Rightarrow> int option list \<Rightarrow> fsb \<Rightarrow> fsb option" where
  "fsb_run foreign [] pool = Some pool"
| "fsb_run foreign (None # ops) pool = fsb_run foreign ops (snd (fsb_alloc pool))"
| "fsb_run foreign (Some p # ops) pool =
     Option.bind (fsb_free foreign pool p) (\<lambda>(_, pool'). fsb_run foreign ops pool')"

definition fsb_allocs :: "int option list \<Rightarrow> nat" where
  "fsb_allocs ops = length (filter (\<lambda>x. x = None) ops)"

text \<open>A free that goes through is the free of a block in use.\<close>

lemma fsb_free_cases:
  assumes inv: "fsb_inv pool used" and free: "fsb_free foreign pool p = Some (r, pool')"
  obtains (refused) "r = -1" "pool' = pool"
  | (freed) i where "i \<in> used" "p = fsb_data_off pool i" "r = 0" "fsb_inv pool' (used - {i})"
      "f_block_size pool' = f_block_size pool" "f_next_magic pool' = f_next_magic pool"
      "f_headers pool' = (f_headers pool)[i := (0, 0)]"
proof (cases "fsb_check foreign pool p")
  case False
  with free show thesis by (intro refused) (simp_all add: fsb_free_def)
next
  case True
  let ?b = "int (f_block_size pool)" and ?i = "nat ((p - 8) div int (f_block_size pool))"
  have h: "0 \<le> p - 8" "(p - 8) mod ?b = 0" "?i < f_block_count pool"
    using True free by (auto simp: fsb_free_def fsb_is_header_def split: if_splits)
  have b: "8 < f_block_size pool" using inv by (simp add: fsb_inv_def)
  have "(p - 8) div ?b * ?b = p - 8" using h(2) div_mult_mod_eq [of "p - 8" ?b] by simp
  moreover have "0 \<le> (p - 8) div ?b" using h(1) b by (simp add: pos_imp_zdiv_nonneg_iff)
  ultimately have p: "p = fsb_data_off pool ?i"
    by (simp add: fsb_data_off_def fsb_header_off_def)
  with True have i: "?i \<in> used" using fsb_check_iff [OF inv h(3), of foreign] by simp
  from fsb_free_returns [OF inv i, of foreign] free p show thesis
    by (intro freed [OF i p]) auto
qed

text \<open>What a run keeps: a block in use that is not freed keeps its header, and the magic moves on by
  at most one for every allocation.\<close>

lemma fsb_run_keeps:
  assumes "fsb_inv pool used" "i \<in> used" "fsb_run foreign ops pool = Some pool'"
    and "Some (fsb_data_off pool i) \<notin> set ops"
  shows "\<exists>used' k. fsb_inv pool' used' \<and> i \<in> used' \<and> f_headers pool' ! i = f_headers pool ! i \<and>
           fsb_data_off pool' i = fsb_data_off pool i \<and> k \<le> fsb_allocs ops \<and>
           f_next_magic pool' = (next_magic ^^ k) (f_next_magic pool)"
  using assms
proof (induction ops arbitrary: pool used)
  case Nil
  then show ?case by (intro exI [of _ used] exI [of _ 0]) (simp add: fsb_allocs_def)
next
  case (Cons op ops)
  have step: ?case if p1: "fsb_inv pool1 used1" "i \<in> used1" "fsb_run foreign ops pool1 = Some pool'"
      "f_block_size pool1 = f_block_size pool" "f_headers pool1 ! i = f_headers pool ! i"
      "f_next_magic pool1 = (next_magic ^^ j) (f_next_magic pool)" "j + fsb_allocs ops \<le> fsb_allocs (op # ops)"
    for pool1 used1 j
  proof -
    have off: "fsb_data_off pool1 = fsb_data_off pool" by (rule fsb_data_off_cong [OF p1(4)])
    from Cons.IH [OF p1(1-3)] Cons.prems(4) off obtain used' k where
      "fsb_inv pool' used'" "i \<in> used'" "f_headers pool' ! i = f_headers pool1 ! i"
      "fsb_data_off pool' i = fsb_data_off pool1 i" "k \<le> fsb_allocs ops"
      "f_next_magic pool' = (next_magic ^^ k) (f_next_magic pool1)" by auto
    with p1 off show ?thesis
      by (intro exI [of _ used'] exI [of _ "k + j"]) (simp add: funpow_add)
  qed
  show ?case
  proof (cases op)
    case (Some p)
    with Cons.prems(3) obtain r pool1 where f: "fsb_free foreign pool p = Some (r, pool1)"
      "fsb_run foreign ops pool1 = Some pool'" by (auto simp: option_bind_Some_iff)
    from Cons.prems(1) f(1) show ?thesis
    proof (cases rule: fsb_free_cases)
      case refused
      with f Cons.prems Some show ?thesis by (intro step [of pool used 0]) (simp_all add: fsb_allocs_def)
    next
      case (freed l)
      then have "l \<noteq> i" using Cons.prems(4) Some by auto
      with freed f Cons.prems Some show ?thesis
        by (intro step [of pool1 "used - {l}" 0]) (simp_all add: fsb_allocs_def)
    qed
  next
    case None
    show ?thesis
    proof (cases "f_begin pool = f_end pool")
      case True
      with Cons.prems None show ?thesis
        by (intro step [of pool used 0]) (simp_all add: fsb_alloc_def fsb_allocs_def)
    next
      case False
      with fsb_alloc_empty [OF Cons.prems(1)] fsb_alloc_takes [OF Cons.prems(1)]
      obtain bid pool1 where a: "fsb_alloc pool = (Some (fsb_data_off pool bid), pool1)" "bid \<notin> used"
        "fsb_inv pool1 (insert bid used)" "f_block_size pool1 = f_block_size pool"
        "f_next_magic pool1 = next_magic (f_next_magic pool)"
        "f_headers pool1 = (f_headers pool)[bid := (of_nat bid, next_magic (f_next_magic pool))]" by blast
      then have "bid \<noteq> i" using Cons.prems(2) by blast
      with a Cons.prems None show ?thesis
        by (intro step [of pool1 "insert bid used" 1]) (simp_all add: fsb_allocs_def)
    qed
  qed
qed

text \<open>A key in no header stays in none until its magic comes round again.\<close>

lemma fsb_run_fresh:
  assumes "m \<noteq> 0" "(k, m) \<notin> set (f_headers pool)" "length (f_headers pool) = f_block_count pool"
    and "f_next_magic pool = (next_magic ^^ j) m" "j + fsb_allocs ops < 2 ^ 32 - 1"
    and "fsb_run foreign ops pool = Some pool'"
  shows "(k, m) \<notin> set (f_headers pool') \<and> length (f_headers pool') = f_block_count pool'"
  using assms
proof (induction ops arbitrary: pool j)
  case (Cons op ops)
  show ?case
  proof (cases op)
    case None
    then have n: "fsb_allocs (op # ops) = Suc (fsb_allocs ops)" by (simp add: fsb_allocs_def)
    show ?thesis
    proof (cases "f_begin pool = f_end pool")
      case True
      with Cons.IH [of pool j] Cons.prems None n show ?thesis by (simp add: fsb_alloc_def)
    next
      case False
      have "(next_magic ^^ Suc j) m \<noteq> m" by (rule next_magic_fresh) (use Cons.prems n in simp_all)
      then have "(k, m) \<notin> set (f_headers (snd (fsb_alloc pool)))"
        using Cons.prems(2,4) False
        by (auto simp: fsb_alloc_def dest: set_update_subsetI set_update_subset_insert [THEN subsetD])
      with Cons.IH [of "snd (fsb_alloc pool)" "Suc j"] Cons.prems None n False show ?thesis
        by (simp add: fsb_alloc_def)
    qed
  next
    case (Some p)
    with Cons.prems(6) obtain r pool1 where f: "fsb_free foreign pool p = Some (r, pool1)"
      "fsb_run foreign ops pool1 = Some pool'" by (auto simp: option_bind_Some_iff)
    have "(k, m) \<notin> set (f_headers pool1)" "length (f_headers pool1) = f_block_count pool1"
      "f_next_magic pool1 = f_next_magic pool"
      using f(1) Cons.prems(1-3) by (auto simp: fsb_free_def
          dest: set_update_subset_insert [THEN subsetD] split: if_splits)
    with Cons.IH [of pool1 j] Cons.prems f(2) Some show ?thesis by (simp add: fsb_allocs_def)
  qed
qed simp

lemma fsb_getblock_absent:
  "key \<notin> set (f_headers pool) \<Longrightarrow> length (f_headers pool) = f_block_count pool \<Longrightarrow>
   fsb_getblock pool key = None"
  using fsb_getblock_header [of pool key] by (cases "fsb_getblock pool key") auto

text \<open>A key names its block: it stands in no other header.\<close>

lemma fsb_key_only_there:
  assumes inv: "fsb_inv pool used" and i: "i \<in> used"
  shows "f_headers pool ! i \<notin> set ((f_headers pool)[i := (0, 0)])"
proof
  let ?h = "f_headers pool"
  assume "?h ! i \<in> set (?h[i := (0, 0)])"
  then obtain l where l: "l < length ?h" "?h[i := (0, 0)] ! l = ?h ! i" by (auto simp: in_set_conv_nth)
  have ic: "i < f_block_count pool" "length ?h = f_block_count pool" "f_block_count pool < 2 ^ 31"
    using inv i by (auto simp: fsb_inv_def)
  have hi: "fst (?h ! i) = of_nat i" "snd (?h ! i) \<noteq> 0" using inv i ic by (auto simp: fsb_inv_def)
  have li: "l \<noteq> i"
  proof
    assume "l = i"
    then have "(0, 0) = ?h ! i" using l ic by simp
    then show False using hi(2) by (metis snd_conv)
  qed
  then have hl: "?h ! l = ?h ! i" using l(2) by simp
  have "if l \<in> used then fst (?h ! l) = of_nat l \<and> snd (?h ! l) \<noteq> 0 else ?h ! l = (0, 0)"
    using inv l(1) ic by (simp add: fsb_inv_def)
  moreover have "snd (?h ! l) \<noteq> 0" using hi(2) hl by simp
  ultimately have "fst (?h ! l) = of_nat l" by (cases "l \<in> used") simp_all
  then have "(of_nat l :: u32) = of_nat i" using hi(1) hl by simp
  moreover have "sint (of_nat l :: u32) = int l" "sint (of_nat i :: u32) = int i"
    using l(1) ic by (simp_all add: sint_small)
  ultimately show False using li by simp
qed

section \<open>Properties\<close>

text \<open>C10. In any sequence of allocations and frees of held blocks on a freshly initialised pool, no
  allocation hands out a block that is in use.\<close>

theorem fsb_exclusive:
  assumes "fsb_init raw tot bs n = Some (Some pool)" and "length raw = nat n + 1" and "n < 2 ^ 31"
    and "block_run fsb_alloc_op (fsb_free_op foreign) fsb_write_op ops (pool, {}) = (rs, pool', used')"
    and "(Some p, used) \<in> set rs"
  shows "p \<notin> used"
proof -
  have "fsb_state_inv (nat bs + 8) (nat n) pool {}"
    using fsb_init_inv [OF assms(1-3)] by (auto simp: fsb_state_inv_def)
  from fsb.run_exclusive [OF this fsb_env_ok assms(4)] assms(5) show ?thesis by auto
qed

definition demo_pool :: fsb where
  "demo_pool = \<lparr>f_block_size = 24, f_block_count = 2, f_begin = 0, f_end = 2, f_next_magic = 0,
     f_ids = [0, 1, 9], f_headers = [(0, 0), (0, 0)]\<rparr>"

lemma demo_pool_init: "fsb_init [7, 8, 9] 112 16 2 = Some (Some demo_pool)"
  by (simp add: fsb_init_def fsb_needed_def fsb_lies_in_def to_long_def to_ulong_def demo_pool_def
      sizeof_fsb_block_def sizeof_long_def sizeof_fsb_pool_def numeral_2_eq_2)

lemma demo_pool_inv: "fsb_inv demo_pool {}" "f_block_count demo_pool = 2"
  using fsb_init_inv(1,3) [OF demo_pool_init] by simp_all

theorem fsb_exclusive_witness: "(8 :: int) \<notin> {32}"
proof -
  let ?ops = "[Alloc (), Alloc (), Alloc (), Free 8, Alloc ()] :: (unit, int, byte list) block_op list"
  have 1: "fsb_alloc demo_pool = (Some 8, demo_pool\<lparr>f_begin := Suc 0, f_next_magic := 1,
      f_headers := [(0, 1), (0, 0)]\<rparr>)" (is "_ = (_, ?p1)")
    by (simp add: demo_pool_def fsb_alloc_def fsb_data_off_def fsb_header_off_def ring_next_def next_magic_def)
  have 2: "fsb_alloc ?p1 = (Some 32, demo_pool\<lparr>f_begin := 2, f_next_magic := 2,
      f_headers := [(0, 1), (1, 2)]\<rparr>)" (is "_ = (_, ?p2)")
    by (simp add: demo_pool_def fsb_alloc_def fsb_data_off_def fsb_header_off_def ring_next_def next_magic_def)
  have 3: "fsb_alloc ?p2 = (None, ?p2)" by (simp add: demo_pool_def fsb_alloc_def)
  have 4: "fsb_free (\<lambda>_. (0, 0)) ?p2 8 = Some (0, demo_pool\<lparr>f_begin := 2, f_end := 0, f_next_magic := 2,
      f_ids := [0, Suc 0, 0], f_headers := [(0, 0), (1, 2)]\<rparr>)" (is "_ = Some (_, ?p3)")
    by (simp add: demo_pool_def fsb_free_def fsb_check_def fsb_header_at_def fsb_is_header_def
        fsb_block_id_def ring_next_def)
  have 5: "fsb_alloc ?p3 = (Some 8, demo_pool\<lparr>f_begin := 0, f_end := 0, f_next_magic := 3,
      f_ids := [0, Suc 0, 0], f_headers := [(0, 3), (1, 2)]\<rparr>)" (is "_ = (_, ?p4)")
    by (simp add: demo_pool_def fsb_alloc_def fsb_data_off_def fsb_header_off_def ring_next_def next_magic_def)
  have "block_run fsb_alloc_op (fsb_free_op (\<lambda>_. (0, 0))) fsb_write_op ?ops (demo_pool, {}) =
      ([(Some 8, {}), (Some 32, {8}), (None, {32, 8}), (Some 8, {32, 8} - {8})], ?p4, insert 8 ({32, 8} - {8}))"
    by (simp add: fsb_alloc_op_def fsb_free_op_def 1 2 3 4 5)
  from fsb_exclusive [OF demo_pool_init _ _ this, of 8 "{32, 8} - {8}"] show ?thesis by simp
qed

text \<open>\<open>g_fsb_used\<close> counts the blocks in use, and an allocation fails exactly when they are all
  of them.\<close>

lemma fsb_alloc_fails_when_full:
  assumes "fsb_inv pool used"
  shows "fsb_used pool = int (card used) \<and>
         (fst (fsb_alloc pool) = None \<longleftrightarrow> card used = f_block_count pool)"
proof
  show "fst (fsb_alloc pool) = None \<longleftrightarrow> card used = f_block_count pool"
    using fsb_alloc_empty [OF assms] by (simp add: fsb_alloc_def)
  let ?s = "f_block_count pool + 1"
  have be: "f_begin pool < ?s" "f_end pool < ?s" using assms by (simp_all add: fsb_inv_def)
  have len: "ring_size ?s (f_begin pool) (f_end pool) + card used = f_block_count pool"
    using fsb_free_ids_card [OF assms] by (simp add: fsb_free_ids_def)
  show "fsb_used pool = int (card used)"
  proof (cases "f_end pool < f_begin pool")
    case True
    then have "ring_size ?s (f_begin pool) (f_end pool) = f_end pool + ?s - f_begin pool"
      using be by (simp add: ring_size_def)
    with True len be show ?thesis by (simp add: fsb_used_def)
  next
    case False
    then have "ring_size ?s (f_begin pool) (f_end pool) = f_end pool - f_begin pool"
      using be by (simp add: ring_size_def mod_if)
    with False len be show ?thesis by (simp add: fsb_used_def)
  qed
qed

text \<open>The key of a block just allocated leads back to the block; once the block is freed the key
  leads nowhere, and freeing the block again is refused without a trace.\<close>

lemma fsb_key_life:
  assumes "fsb_inv pool used" and "card used \<noteq> f_block_count pool"
  shows "\<exists>p pool1 pool2 key. fsb_alloc pool = (Some p, pool1) \<and> fsb_getkey foreign pool1 p = key \<and>
           fsb_getblock pool1 key = Some p \<and> fsb_free foreign pool1 p = Some (0, pool2) \<and>
           fsb_getblock pool2 key = None \<and> fsb_getkey foreign pool2 p = (0, 0) \<and>
           fsb_free foreign pool2 p = Some (-1, pool2)"
proof -
  from fsb_alloc_takes [OF assms] obtain bid pool1 where a: "fsb_alloc pool = (Some (fsb_data_off pool bid), pool1)"
    "bid < f_block_count pool" "fsb_inv pool1 (insert bid used)" "f_block_size pool1 = f_block_size pool"
    "f_block_count pool1 = f_block_count pool" "bid \<notin> used" by blast
  have p: "fsb_data_off pool = fsb_data_off pool1" by (rule fsb_data_off_cong [OF a(4) [symmetric]])
  note k = fsb_key_in_use [OF a(3) insertI1]
  from fsb_free_returns [OF a(3), of bid foreign] obtain pool2 where f:
    "fsb_free foreign pool1 (fsb_data_off pool1 bid) = Some (0, pool2)"
    "fsb_inv pool2 used" "f_block_size pool2 = f_block_size pool1" "f_block_count pool2 = f_block_count pool1"
    "f_headers pool2 = (f_headers pool1)[bid := (0, 0)]"
    using a(6) by auto
  have p2: "fsb_data_off pool1 = fsb_data_off pool2" by (rule fsb_data_off_cong [OF f(3) [symmetric]])
  have c: "\<not> fsb_check foreign pool2 (fsb_data_off pool2 bid)"
    using fsb_check_iff [OF f(2)] a f(4) by simp
  have h: "fst (f_headers pool1 ! bid) = of_nat bid" "bid < length (f_headers pool1)" "bid < 2 ^ 31"
    using a by (auto simp: fsb_inv_def)
  then have "fsb_getblock pool2 (f_headers pool1 ! bid) = None"
    using k(2) f(5) sint_small [OF h(3)] by (auto simp: fsb_getblock_def split: prod.splits)
  with a(1) k f(1) c show ?thesis
    unfolding p p2 by (simp add: fsb_getkey_def fsb_free_def)
qed

text \<open>C11. The key of a block just allocated leads back to it as long as it is not freed, whatever
  else is allocated and freed meanwhile; the free then succeeds, and from that moment the key leads
  nowhere, whatever is allocated (the same block included) and freed afterwards, as long as fewer
  than \<open>2 ^ 32 - 1\<close> allocations follow the block's own, after which its magic comes back.\<close>

theorem fsb_stale_key_dead:
  assumes "fsb_inv pool used" and "fsb_alloc pool = (Some p, pool1)"
    and "fsb_run foreign ops pool1 = Some pool2" and "Some p \<notin> set ops"
    and "fsb_allocs ops + fsb_allocs ops' < 2 ^ 32 - 1"
  defines "key \<equiv> fsb_getkey foreign pool1 p"
  shows "fsb_getblock pool2 key = Some p \<and>
         (\<exists>pool3. fsb_free foreign pool2 p = Some (0, pool3) \<and>
            (\<forall>pool4. fsb_run foreign ops' pool3 = Some pool4 \<longrightarrow> fsb_getblock pool4 key = None))"
proof -
  have "card used \<noteq> f_block_count pool"
    using assms(2) fsb_alloc_empty [OF assms(1)] by (auto simp: fsb_alloc_def)
  from fsb_alloc_takes [OF assms(1) this] assms(2) obtain i where a: "p = fsb_data_off pool i"
    "fsb_inv pool1 (insert i used)" "f_block_size pool1 = f_block_size pool" "i < f_block_count pool"
    "f_next_magic pool1 = next_magic (f_next_magic pool)"
    "f_headers pool1 = (f_headers pool)[i := (of_nat i, next_magic (f_next_magic pool))]" by auto
  have p: "p = fsb_data_off pool1 i" using a(1) fsb_data_off_cong [OF a(3)] by simp
  have key: "key = f_headers pool1 ! i" "key = (of_nat i, f_next_magic pool1)"
    using fsb_key_in_use(1) [OF a(2), of i foreign] a assms(1)
    by (simp_all add: key_def p [symmetric] fsb_inv_def)
  from fsb_run_keeps [OF a(2) insertI1 assms(3)] assms(4) p obtain used2 k where r:
    "fsb_inv pool2 used2" "i \<in> used2" "f_headers pool2 ! i = key" "p = fsb_data_off pool2 i"
    "k \<le> fsb_allocs ops" "f_next_magic pool2 = (next_magic ^^ k) (f_next_magic pool1)"
    using key(1) by auto
  from fsb_free_returns [OF r(1,2), of foreign] obtain pool3 where f:
    "fsb_free foreign pool2 p = Some (0, pool3)" "fsb_inv pool3 (used2 - {i})"
    "f_next_magic pool3 = f_next_magic pool2" "f_headers pool3 = (f_headers pool2)[i := (0, 0)]"
    using r(4) by auto
  have gone: "key \<notin> set (f_headers pool3)"
    using fsb_key_only_there [OF r(1,2)] r(3) f(4) by simp
  have "fsb_getblock pool4 key = None" if "fsb_run foreign ops' pool3 = Some pool4" for pool4
  proof -
    have "f_next_magic pool1 \<noteq> 0" "length (f_headers pool3) = f_block_count pool3"
      using a(5) next_magic_nonzero f(2) by (simp_all add: fsb_inv_def)
    with fsb_run_fresh [of "f_next_magic pool1" "of_nat i" pool3 k ops' foreign pool4]
    have "key \<notin> set (f_headers pool4)" "length (f_headers pool4) = f_block_count pool4"
      using gone that key(2) r(5,6) f(3) assms(5) by simp_all
    then show ?thesis by (rule fsb_getblock_absent)
  qed
  with f(1) show ?thesis using fsb_key_in_use(3) [OF r(1,2)] r(3,4) by auto
qed

theorem fsb_stale_key_dead_witness:
  "\<exists>pool2 pool3. fsb_run (\<lambda>_. (0, 0)) [None, None, Some 32] (snd (fsb_alloc demo_pool)) = Some pool2 \<and>
     fsb_getblock pool2 (0, 1) = Some 8 \<and> fsb_free (\<lambda>_. (0, 0)) pool2 8 = Some (0, pool3) \<and>
     (\<forall>pool4. fsb_run (\<lambda>_. (0, 0)) [None, None] pool3 = Some pool4 \<longrightarrow> fsb_getblock pool4 (0, 1) = None)"
proof -
  let ?f = "\<lambda>_ :: int. (0, 0) :: u32 \<times> u32"
  have 1: "fsb_alloc demo_pool = (Some 8, demo_pool\<lparr>f_begin := Suc 0, f_next_magic := 1,
      f_headers := [(0, 1), (0, 0)]\<rparr>)" (is "_ = (_, ?p1)")
    by (simp add: demo_pool_def fsb_alloc_def fsb_data_off_def fsb_header_off_def ring_next_def next_magic_def)
  have 2: "fsb_run ?f [None, None, Some 32] ?p1 = Some (demo_pool\<lparr>f_begin := 2, f_end := 0,
      f_next_magic := 2, f_ids := [0, 1, 1], f_headers := [(0, 1), (0, 0)]\<rparr>)" (is "_ = Some ?p2")
    by (simp add: demo_pool_def fsb_alloc_def fsb_data_off_def fsb_header_off_def ring_next_def
        next_magic_def fsb_free_def fsb_check_def fsb_header_at_def fsb_is_header_def fsb_block_id_def)
  have 3: "fsb_getkey ?f ?p1 8 = (0, 1)"
    by (simp add: demo_pool_def fsb_getkey_def fsb_check_def fsb_header_at_def fsb_is_header_def
        fsb_block_id_def)
  from fsb_stale_key_dead [OF demo_pool_inv(1) 1 2, of "[None, None]", unfolded 3] 1 2 show ?thesis
    by (auto simp: fsb_allocs_def)
qed

text \<open>C12. For every size whose computation does not wrap (\<open>(block_size + 16) * block_count + 48\<close>
  below \<open>2 ^ 63\<close>), the memory \<open>g_fsb_needed\<close> asks for is enough: \<open>g_fsb_init\<close> succeeds on any memory
  that large, its header, ring and blocks end inside that memory, no two blocks (with their
  headers) share a byte, and no block reaches into the ring; offsets here count from
  \<open>FS_GET_BLOCK_POOL\<close>.\<close>

theorem fsb_blocks_disjoint:
  assumes "0 < bs" and "0 < n" and "(bs + 16) * n + 48 < 2 ^ 63" and "fsb_needed bs n \<le> tot"
  shows "\<exists>pool. fsb_init raw tot bs n = Some (Some pool) \<and> int (f_block_count pool) = n \<and>
           (\<forall>i < f_block_count pool. 0 \<le> fsb_header_off pool i \<and>
              sizeof_fsb_pool + sizeof_long * n + fsb_data_off pool i + bs \<le> fsb_needed bs n) \<and>
           (\<forall>i j. i < j \<longrightarrow> fsb_data_off pool i + bs \<le> fsb_header_off pool j)"
proof -
  let ?pool = "\<lparr>f_block_size = nat (bs + sizeof_fsb_block), f_block_count = nat n, f_begin = 0,
      f_end = nat n, f_next_magic = 0, f_ids = [0..<nat n] @ drop (nat n) raw,
      f_headers = replicate (nat n) (0, 0)\<rparr>"
  have need: "fsb_needed bs n = (bs + 16) * n + 48" by (rule fsb_needed_exact [OF assms(1-3)])
  have p: "f_block_size ?pool = nat (bs + 8)" by (simp add: sizeof_fsb_block_def)
  have "fsb_init raw tot bs n = Some (Some ?pool)"
    using assms need by (simp add: fsb_init_def fsb_lies_in_def sizeof_fsb_block_def sizeof_long_def
        sizeof_fsb_pool_def algebra_simps)
  moreover have "0 \<le> fsb_header_off ?pool i \<and>
      sizeof_fsb_pool + sizeof_long * n + fsb_data_off ?pool i + bs \<le> fsb_needed bs n"
    if "i < f_block_count ?pool" for i
  proof -
    have "int i + 1 \<le> n" using that by simp
    then have "(int i + 1) * (bs + 8) \<le> n * (bs + 8)" using assms(1) by (intro mult_right_mono) auto
    then show ?thesis
      using need p assms(1) by (simp add: fsb_data_off_def fsb_header_off_def sizeof_fsb_pool_def
          sizeof_long_def algebra_simps)
  qed
  moreover have "fsb_data_off ?pool i + bs \<le> fsb_header_off ?pool j" if "i < j" for i j :: nat
  proof -
    have "(int i + 1) * (bs + 8) \<le> int j * (bs + 8)" using that assms(1) by (intro mult_right_mono) auto
    then show ?thesis
      using p assms(1) by (simp add: fsb_data_off_def fsb_header_off_def algebra_simps)
  qed
  ultimately show ?thesis using assms(2) by (intro exI [of _ ?pool]) simp
qed

theorem fsb_blocks_disjoint_witness:
  "\<exists>pool. fsb_init [7, 8, 9] 112 16 2 = Some (Some pool) \<and> int (f_block_count pool) = 2 \<and>
     (\<forall>i < f_block_count pool. 0 \<le> fsb_header_off pool i \<and>
        sizeof_fsb_pool + sizeof_long * 2 + fsb_data_off pool i + 16 \<le> fsb_needed 16 2) \<and>
     (\<forall>i j. i < j \<longrightarrow> fsb_data_off pool i + 16 \<le> fsb_header_off pool j)"
  by (rule fsb_blocks_disjoint) (simp_all add: fsb_needed_exact)

text \<open>Beyond that bound the check is void: 16 blocks of \<open>2 ^ 60\<close> bytes need only 304 bytes, and
  \<open>g_fsb_init\<close> goes on to write block headers far behind them.\<close>

lemma fsb_needed_wraps:
  "fsb_needed (2 ^ 60) 16 = 304" "fsb_init raw 304 (2 ^ 60) 16 = None"
  by (simp_all add: fsb_init_def fsb_needed_def fsb_lies_in_def to_long_def to_ulong_def
      sizeof_fsb_block_def sizeof_long_def sizeof_fsb_pool_def)

end
