(* ===== verification/Timer.thy ===== *)
theory Timer
  imports Prelude
begin

text \<open>
  The hierarchical timing wheel \<open>g_timer_t\<close> (\<open>timer.c\<close>): four wheels of 256 slots. A slot's
  circular list is the list of its nodes from \<open>list_head->next\<close> on; a node is named by its handle,
  which the pool hands out (an argument of \<open>start\<close>, \<open>None\<close> for \<open>NULL\<close>), and \<open>n_pending\<close> is
  \<open>node->prev != NULL\<close>. The calls of the timers' functions are logged with the tick they happen
  in; what a function does to the timer is the parameter \<open>cb\<close>.
\<close>

section \<open>State and operations\<close>

type_synonym handle = nat

record tnode =
  n_user_data :: nat
  n_expire :: u32
  n_pending :: bool

record timer =
  t_wheel :: "nat \<Rightarrow> nat \<Rightarrow> handle list"
  t_nodes :: "handle \<Rightarrow> tnode"
  t_last :: u32
  t_count :: u32
  t_fired :: "(u32 \<times> handle \<times> nat) list"

definition timer_init :: "(handle \<Rightarrow> tnode) \<Rightarrow> u32 \<Rightarrow> timer" where
  "timer_init mem now =
     \<lparr>t_wheel = (\<lambda>_ _. []), t_nodes = mem, t_last = now, t_count = 0, t_fired = []\<rparr>"

text \<open>
  \<open>create2\<close> with the answers of the three allocations: the timer, its slots and its pool. The
  check after the last two tests \<open>timer\<close> in place of the slots; without slots the loop over them
  writes through a null pointer (\<open>None\<close>).
\<close>

definition timer_create2 :: "bool \<Rightarrow> bool \<Rightarrow> bool \<Rightarrow> (handle \<Rightarrow> tnode) \<Rightarrow> u32 \<Rightarrow> timer option option" where
  "timer_create2 timer_ok slots_ok pool_ok mem now =
     (if \<not> timer_ok then Some None
      else if \<not> pool_ok then Some None
      else if \<not> slots_ok then None
      else Some (Some (timer_init mem now)))"

definition timer_create :: "bool \<Rightarrow> bool \<Rightarrow> bool \<Rightarrow> (handle \<Rightarrow> tnode) \<Rightarrow> timer option option" where
  "timer_create timer_ok slots_ok pool_ok mem = timer_create2 timer_ok slots_ok pool_ok mem 0"

definition set_slot :: "timer \<Rightarrow> nat \<Rightarrow> nat \<Rightarrow> handle list \<Rightarrow> timer" where
  "set_slot t k i hs = t\<lparr>t_wheel := (t_wheel t)(k := (t_wheel t k)(i := hs))\<rparr>"

text \<open>The wheel \<open>schedule\<close> picks from the delay, and the slot from the expiry.\<close>

definition timer_level :: "u32 \<Rightarrow> nat" where
  "timer_level delay_ticks =
     (if delay_ticks \<le> 0x0FFFF then (if delay_ticks > 0x0FF then 1 else 0)
      else (if delay_ticks \<le> 0x0FFFFFF then 2 else 3))"

definition timer_slot :: "nat \<Rightarrow> u32 \<Rightarrow> nat" where
  "timer_slot k expire = unat (drop_bit (8 * k) expire AND 0x0FF)"

definition schedule :: "timer \<Rightarrow> handle \<Rightarrow> u32 \<Rightarrow> timer" where
  "schedule t h delay_ticks =
     (let k = timer_level delay_ticks; i = timer_slot k (n_expire (t_nodes t h))
      in set_slot t k i (h # t_wheel t k i))"

definition reschedule :: "timer \<Rightarrow> nat \<Rightarrow> nat \<Rightarrow> u32 \<Rightarrow> timer" where
  "reschedule t k i now =
     set_slot (fold (\<lambda>h t. schedule t h (n_expire (t_nodes t h) - now)) (t_wheel t k i) t) k i []"

text \<open>One turn of \<open>fire\<close>: unlink the first node and call its function.\<close>

definition fire_one :: "timer \<Rightarrow> nat \<Rightarrow> handle \<Rightarrow> handle list \<Rightarrow> timer" where
  "fire_one t i h hs =
     (set_slot t 0 i hs)\<lparr>t_count := t_count t - 1, t_nodes := (t_nodes t)(h := (t_nodes t h)\<lparr>n_pending := False\<rparr>),
        t_fired := t_fired t @ [(t_last t, h, n_user_data (t_nodes t h))]\<rparr>"

partial_function (option) fire :: "(handle \<Rightarrow> timer \<Rightarrow> timer) \<Rightarrow> timer \<Rightarrow> nat \<Rightarrow> timer option" where
  "fire cb t i =
     (case t_wheel t 0 i of [] \<Rightarrow> Some t | h # hs \<Rightarrow> fire cb (cb h (fire_one t i h hs)) i)"

definition timer_start :: "timer \<Rightarrow> handle option \<Rightarrow> u32 \<Rightarrow> nat \<Rightarrow> handle option \<times> timer" where
  "timer_start t node delay_ticks user_data =
     (case node of None \<Rightarrow> (None, t)
      | Some h \<Rightarrow>
          (let t1 = t\<lparr>t_nodes := (t_nodes t)(h := \<lparr>n_user_data = user_data,
                 n_expire = t_last t + delay_ticks, n_pending = True\<rparr>)\<rparr>;
               t2 = schedule t1 h delay_ticks
           in (Some h, t2\<lparr>t_count := t_count t2 + 1\<rparr>)))"

definition timer_cancel :: "timer \<Rightarrow> handle \<Rightarrow> (u32 \<times> nat option) \<times> timer" where
  "timer_cancel t h =
     (if \<not> n_pending (t_nodes t h) then ((1, None), t)
      else ((0, Some (n_user_data (t_nodes t h))),
            t\<lparr>t_count := t_count t - 1, t_wheel := (\<lambda>k i. removeAll h (t_wheel t k i)),
              t_nodes := (t_nodes t)(h := (t_nodes t h)\<lparr>n_pending := False\<rparr>)\<rparr>))"

text \<open>One turn of \<open>poll\<close>'s loop.\<close>

definition timer_tick :: "(handle \<Rightarrow> timer \<Rightarrow> timer) \<Rightarrow> timer \<Rightarrow> timer option" where
  "timer_tick cb t0 =
     (let t = t0\<lparr>t_last := t_last t0 + 1\<rparr>; now = t_last t in
      if now AND 0x0FF \<noteq> 0 then fire cb t (unat (now AND 0x0FF))
      else if now AND 0x0FFFF \<noteq> 0
      then fire cb (reschedule t 1 (unat (drop_bit 8 now AND 0x0FF)) now) 0
      else if now AND 0x0FFFFFF \<noteq> 0
      then fire cb (reschedule (reschedule t 2 (unat (drop_bit 16 now AND 0x0FF)) now) 1 0 now) 0
      else fire cb (reschedule (reschedule (reschedule t 3 (unat (drop_bit 24 now AND 0x0FF)) now)
                      2 0 now) 1 0 now) 0)"

primrec timer_poll :: "(handle \<Rightarrow> timer \<Rightarrow> timer) \<Rightarrow> nat \<Rightarrow> timer \<Rightarrow> timer option" where
  "timer_poll cb 0 t = Some t"
| "timer_poll cb (Suc lapsed_ticks) t = Option.bind (timer_tick cb t) (timer_poll cb lapsed_ticks)"

text \<open>\<open>destroy\<close> passes the user data of every node still in a slot to \<open>free_func\<close>, wheel by wheel.\<close>

definition timer_destroy :: "timer \<Rightarrow> nat list" where
  "timer_destroy t =
     concat (map (\<lambda>k. concat (map (\<lambda>i. map (\<lambda>h. n_user_data (t_nodes t h)) (t_wheel t k i)) [0..<256])) [0..<4])"

section \<open>Time left\<close>

definition span :: "nat \<Rightarrow> nat" where
  "span k = 256 ^ k"

definition expiry :: "timer \<Rightarrow> handle \<Rightarrow> nat" where
  "expiry t h = unat (n_expire (t_nodes t h))"

definition left :: "timer \<Rightarrow> handle \<Rightarrow> nat" where
  "left t h = unat (n_expire (t_nodes t h) - t_last t)"

lemma span_simps [simp]:
  "span 0 = 1" "span 1 = 256" "span (Suc 0) = 256" "span 2 = 65536" "span 3 = 16777216" "0 < span k"
  by (simp_all add: span_def)

lemma mask_ff: "(x :: u32) AND 0x0FF = take_bit 8 x" "x AND 0x0FFFF = take_bit 16 x"
  "x AND 0x0FFFFFF = take_bit 24 x"
  by (simp_all add: take_bit_eq_mask mask_eq_exp_minus_1)

lemma timer_slot_eq: "timer_slot k e = unat e div span k mod 256"
proof -
  have "unat e < 2 ^ LENGTH(32)" by (rule unsigned_less)
  then have less_eq: "take_bit 32 (unat e) = unat e" by (simp add: take_bit_nat_eq_self)
  have "timer_slot k e = take_bit 8 (drop_bit (8 * k) (unat e))"
    unfolding timer_slot_def mask_ff
    by (simp add: unsigned_take_bit_eq unsigned_drop_bit_eq less_eq take_bit_nat_eq_self)
  then show ?thesis by (simp add: take_bit_eq_mod drop_bit_eq_div span_def power_mult)
qed

lemma low_bits_zero:
  "(x :: u32) AND 0x0FF = 0 \<longleftrightarrow> unat x mod span 1 = 0"
  "(x :: u32) AND 0x0FFFF = 0 \<longleftrightarrow> unat x mod span 2 = 0"
  "(x :: u32) AND 0x0FFFFFF = 0 \<longleftrightarrow> unat x mod span 3 = 0"
proof -
  have eq: "take_bit n x = 0 \<longleftrightarrow> unat x mod 2 ^ n = 0" for n
    by (metis unat_eq_0 unsigned_take_bit_eq take_bit_eq_mod)
  show "(x :: u32) AND 0x0FF = 0 \<longleftrightarrow> unat x mod span 1 = 0"
    "(x :: u32) AND 0x0FFFF = 0 \<longleftrightarrow> unat x mod span 2 = 0"
    "(x :: u32) AND 0x0FFFFFF = 0 \<longleftrightarrow> unat x mod span 3 = 0"
    unfolding mask_ff eq by simp_all
qed

text \<open>
  A node with expiry \<open>e\<close> and \<open>d\<close> ticks left fits wheel \<open>k\<close> if the next turn of its slot comes
  \<open>e mod span k\<close> ticks before the expiry, within one round of the wheel; it is due for the
  cascade when exactly those are left.
\<close>

definition fits :: "nat \<Rightarrow> nat \<Rightarrow> nat \<Rightarrow> bool" where
  "fits k e d \<longleftrightarrow> e mod span k \<le> d \<and> d < e mod span k + 256 * span k"

lemma remainder_unique:
  fixes d :: nat
  assumes "(x + d) mod n = (x + r) mod n" "r \<le> d" "d < r + n"
  shows "d = r"
proof -
  have "n dvd (x + d) - (x + r)" using assms(1,2) by (simp add: mod_eq_dvd_iff_nat)
  then have "n dvd d - r" by simp
  then show ?thesis using assms(2,3) by (auto dest: dvd_imp_le)
qed

lemma due_slot:
  fixes m :: nat
  assumes e: "(n + d) mod (m * 256) = e mod (m * 256)" and m: "0 < m" and d: "e mod m \<le> d" "d < e mod m + m * 256"
  shows "n mod m = 0 \<and> e div m mod 256 = n div m mod 256 \<longleftrightarrow> d = e mod m"
proof
  assume a: "n mod m = 0 \<and> e div m mod 256 = n div m mod 256"
  then have "e mod (m * 256) = n mod (m * 256) + e mod m"
    by (simp add: mod_mult2_eq)
  then have "(n + d) mod (m * 256) = (n mod (m * 256) + e mod m) mod (m * 256)"
    using e by (metis mod_mod_trivial)
  then have "(n + d) mod (m * 256) = (n + e mod m) mod (m * 256)" by (simp add: mod_simps)
  from remainder_unique [OF this d] show "d = e mod m" .
next
  assume dd: "d = e mod m"
  have "(n + d) mod m = e mod m" using e by (metis mod_mult_right_eq mod_mod_cancel dvd_triv_left)
  then have "(n + d) mod m = (0 + d) mod m" using dd by simp
  then have n: "n mod m = 0" using mod_eq_dvd_iff_nat [of "0 + d" "n + d" m] by simp
  then have "(n + d) div m = n div m" using dd m by (simp add: div_add1_eq)
  moreover have "(n + d) div m mod 256 = e div m mod 256"
    using arg_cong [OF e, of "\<lambda>x. x div m"] m by (simp add: mod_mult2_eq)
  ultimately show "n mod m = 0 \<and> e div m mod 256 = n div m mod 256" using n by simp
qed

section \<open>Invariant\<close>

text \<open>Every pending node is in the slot of its expiry on exactly one wheel, \<open>lv\<close>.\<close>

definition wheel_at :: "timer \<Rightarrow> handle set \<Rightarrow> (handle \<Rightarrow> nat) \<Rightarrow> bool" where
  "wheel_at t P lv \<longleftrightarrow>
     (\<forall>k i. distinct (t_wheel t k i) \<and>
        set (t_wheel t k i) = {h \<in> P. lv h = k \<and> timer_slot k (n_expire (t_nodes t h)) = i}) \<and>
     (\<forall>h\<in>P. lv h < 4)"

text \<open>During a tick: the wheels above \<open>j\<close> have been cascaded already.\<close>

definition mid_tick :: "nat \<Rightarrow> timer \<Rightarrow> handle set \<Rightarrow> (handle \<Rightarrow> nat) \<Rightarrow> bool" where
  "mid_tick j t P lv \<longleftrightarrow> wheel_at t P lv \<and>
     (\<forall>h\<in>P. fits (lv h) (expiry t h) (left t h) \<and> (j < lv h \<longrightarrow> expiry t h mod span (lv h) < left t h))"

definition timer_inv :: "timer \<Rightarrow> handle set \<Rightarrow> bool" where
  "timer_inv t P \<longleftrightarrow> finite P \<and> t_count t = of_nat (card P) \<and> (\<forall>h\<in>P. n_pending (t_nodes t h)) \<and>
     (\<exists>lv. wheel_at t P lv \<and>
        (\<forall>h\<in>P. fits (lv h) (expiry t h) (left t h) \<and> expiry t h mod span (lv h) < left t h))"

lemma set_slot_fields [simp]:
  "t_nodes (set_slot t k i hs) = t_nodes t" "t_last (set_slot t k i hs) = t_last t"
  "t_count (set_slot t k i hs) = t_count t" "t_fired (set_slot t k i hs) = t_fired t"
  "t_wheel (set_slot t k i hs) k' i' = (if k' = k \<and> i' = i then hs else t_wheel t k' i')"
  by (auto simp: set_slot_def)

lemma schedule_fields [simp]:
  "t_nodes (schedule t h d) = t_nodes t" "t_last (schedule t h d) = t_last t"
  "t_count (schedule t h d) = t_count t" "t_fired (schedule t h d) = t_fired t"
  by (simp_all add: schedule_def)

lemma timer_level_bounds:
  "timer_level d < 4" "unat d < 256 * span (timer_level d)"
  "0 < timer_level d \<Longrightarrow> span (timer_level d) \<le> unat d"
proof -
  have "unat d < 2 ^ LENGTH(32)" by (rule unsigned_less)
  then show "timer_level d < 4" "unat d < 256 * span (timer_level d)"
    "0 < timer_level d \<Longrightarrow> span (timer_level d) \<le> unat d"
    by (auto simp: timer_level_def word_le_nat_alt word_less_nat_alt)
qed

lemma timer_level_low: "unat d < span k \<Longrightarrow> 0 < k \<Longrightarrow> timer_level d < k"
proof (rule ccontr)
  assume d: "unat d < span k" "0 < k" "\<not> timer_level d < k"
  then have "span k \<le> span (timer_level d)" unfolding span_def by (intro power_increasing) simp_all
  with timer_level_bounds(3) [of d] d show False by simp
qed

lemma timer_level_fits:
  "unat d \<noteq> 0 \<Longrightarrow> fits (timer_level d) e (unat d) \<and> e mod span (timer_level d) < unat d"
  "unat d = 0 \<Longrightarrow> fits (timer_level d) e (unat d)" "unat d = 0 \<Longrightarrow> timer_level d = 0"
proof -
  show "unat d \<noteq> 0 \<Longrightarrow> fits (timer_level d) e (unat d) \<and> e mod span (timer_level d) < unat d"
  proof -
    assume d: "unat d \<noteq> 0"
    have "e mod span (timer_level d) < unat d"
    proof (cases "timer_level d = 0")
      case False
      then have "span (timer_level d) \<le> unat d" using timer_level_bounds(3) by simp
      moreover have "e mod span (timer_level d) < span (timer_level d)" by simp
      ultimately show ?thesis by linarith
    qed (use d in simp)
    with timer_level_bounds(2) [of d] show ?thesis by (simp add: fits_def)
  qed
qed (auto simp: timer_level_def fits_def unat_eq_0)

lemma schedule_at:
  assumes "wheel_at t P lv" "h \<notin> P"
  shows "wheel_at (schedule t h d) (insert h P) (lv(h := timer_level d))"
proof -
  have "distinct (t_wheel (schedule t h d) k i) \<and> set (t_wheel (schedule t h d) k i) =
      {x \<in> insert h P. (lv(h := timer_level d)) x = k \<and> timer_slot k (n_expire (t_nodes t x)) = i}" for k i
    using assms unfolding wheel_at_def schedule_def Let_def by auto
  with assms(1) timer_level_bounds(1) show ?thesis by (simp add: wheel_at_def)
qed

lemma set_slot_twist:
  "(a, b) \<noteq> (k, i) \<Longrightarrow> set_slot (set_slot t a b xs) k i ys = set_slot (set_slot t k i ys) a b xs"
  by (cases "a = k") (simp_all add: set_slot_def fun_upd_twist)

lemma schedule_set_slot:
  "(timer_level d, timer_slot (timer_level d) (n_expire (t_nodes t h))) \<noteq> (k, i) \<Longrightarrow>
   set_slot (schedule t h d) k i hs = schedule (set_slot t k i hs) h d"
  unfolding schedule_def by (auto simp: set_slot_twist)

text \<open>Rescheduling a list of nodes that are in no slot.\<close>

abbreviation reschedule_all :: "u32 \<Rightarrow> handle list \<Rightarrow> timer \<Rightarrow> timer" where
  "reschedule_all now \<equiv> fold (\<lambda>h t. schedule t h (n_expire (t_nodes t h) - now))"

lemma reschedule_all_fields [simp]:
  "t_nodes (reschedule_all now hs t) = t_nodes t" "t_last (reschedule_all now hs t) = t_last t"
  "t_count (reschedule_all now hs t) = t_count t" "t_fired (reschedule_all now hs t) = t_fired t"
  by (induction hs arbitrary: t) simp_all

lemma reschedule_all_at:
  "wheel_at t P lv \<Longrightarrow> distinct hs \<Longrightarrow> set hs \<inter> P = {} \<Longrightarrow>
   wheel_at (reschedule_all now hs t) (set hs \<union> P)
     (\<lambda>h. if h \<in> set hs then timer_level (n_expire (t_nodes t h) - now) else lv h)"
proof (induction hs arbitrary: t P lv)
  case (Cons h hs)
  let ?d = "n_expire (t_nodes t h) - now"
  have "wheel_at (schedule t h ?d) (insert h P) (lv(h := timer_level ?d))"
    using Cons.prems by (intro schedule_at) auto
  from Cons.IH [OF this, unfolded schedule_fields] Cons.prems have "wheel_at (reschedule_all now hs (schedule t h ?d))
      (set hs \<union> insert h P) (\<lambda>x. if x \<in> set hs then timer_level (n_expire (t_nodes t x) - now)
                                 else (lv(h := timer_level ?d)) x)" by simp
  moreover have "(\<lambda>x. if x \<in> set hs then timer_level (n_expire (t_nodes t x) - now)
        else (lv(h := timer_level ?d)) x) =
      (\<lambda>x. if x \<in> set (h # hs) then timer_level (n_expire (t_nodes t x) - now) else lv x)"
    using Cons.prems(2) by (auto simp: fun_eq_iff)
  moreover have "set hs \<union> insert h P = set (h # hs) \<union> P" by auto
  ultimately show ?case by simp
qed simp

lemma reschedule_all_set_slot:
  "\<forall>h\<in>set hs. timer_level (n_expire (t_nodes t h) - now) \<noteq> k \<Longrightarrow>
   set_slot (reschedule_all now hs t) k i xs = reschedule_all now hs (set_slot t k i xs)"
proof (induction hs arbitrary: t)
  case (Cons h hs)
  then show ?case by (simp add: schedule_set_slot)
qed simp

lemma set_slot_empty_at:
  "wheel_at t P lv \<Longrightarrow> wheel_at (set_slot t k i []) (P - set (t_wheel t k i)) lv"
  by (auto simp: wheel_at_def)

section \<open>One tick\<close>

lemma left_fits_due:
  assumes k: "k < 4" and f: "fits k (expiry t h) (left t h)"
  shows "unat (t_last t) mod span k = 0 \<and> timer_slot k (n_expire (t_nodes t h)) = timer_slot k (t_last t) \<longleftrightarrow>
         left t h = expiry t h mod span k"
proof -
  let ?e = "n_expire (t_nodes t h)" and ?n = "t_last t"
  have "(unat ?n + unat (?e - ?n)) mod 2 ^ LENGTH(32) = unat ?e mod 2 ^ LENGTH(32)"
    using unat_word_ariths(1) [of ?n "?e - ?n"] by simp
  then have "(unat ?n + left t h) mod 2 ^ 32 = expiry t h mod 2 ^ 32"
    by (simp add: left_def expiry_def)
  moreover have dvd: "span k * 256 dvd 2 ^ 32"
  proof -
    have "span k * 256 = (2 :: nat) ^ (8 * k + 8)" by (simp add: span_def power_add power_mult)
    moreover have "8 * k + 8 \<le> 32" using k by simp
    ultimately show ?thesis by (metis le_imp_power_dvd)
  qed
  ultimately have "(unat ?n + left t h) mod 2 ^ 32 mod (span k * 256) = expiry t h mod 2 ^ 32 mod (span k * 256)"
    by simp
  then have eq: "(unat ?n + left t h) mod (span k * 256) = expiry t h mod (span k * 256)"
    unfolding mod_mod_cancel [OF dvd] .
  have "expiry t h mod span k \<le> left t h" "left t h < expiry t h mod span k + span k * 256"
    using f by (simp_all add: fits_def mult.commute)
  from due_slot [OF eq _ this] show ?thesis by (simp add: timer_slot_eq expiry_def)
qed

text \<open>Cascading wheel \<open>k\<close> puts every node of the due slot on a lower wheel.\<close>

lemma mid_tick_reschedule:
  assumes mid: "mid_tick k t P lv" and k: "0 < k" "k < 4" and now: "unat (t_last t) mod span k = 0"
  shows "\<exists>lv'. mid_tick (k - 1) (reschedule t k (timer_slot k (t_last t)) (t_last t)) P lv'"
proof -
  let ?i = "timer_slot k (t_last t)" and ?now = "t_last t"
  let ?hs = "t_wheel t k ?i"
  have at: "wheel_at t P lv" using mid by (simp add: mid_tick_def)
  then have hs: "distinct ?hs" "set ?hs \<subseteq> P" "\<And>h. h \<in> set ?hs \<longleftrightarrow> h \<in> P \<and> lv h = k \<and>
      timer_slot k (n_expire (t_nodes t h)) = ?i" by (auto simp: wheel_at_def)
  have due: "left t h = expiry t h mod span k" if "h \<in> set ?hs" for h
    using mid that hs(3) left_fits_due [OF k(2), of t h] now by (auto simp: mid_tick_def)
  have low: "timer_level (n_expire (t_nodes t h) - ?now) < k" if "h \<in> set ?hs" for h
    using due [OF that] k(1) by (intro timer_level_low) (simp_all add: left_def)
  let ?lv = "\<lambda>h. if h \<in> set ?hs then timer_level (n_expire (t_nodes t h) - ?now) else lv h"
  have "reschedule t k ?i ?now = reschedule_all ?now ?hs (set_slot t k ?i [])" (is "?t = _")
    unfolding reschedule_def using low by (intro reschedule_all_set_slot) auto
  moreover have "wheel_at (reschedule_all ?now ?hs (set_slot t k ?i [])) (set ?hs \<union> (P - set ?hs)) ?lv"
    using reschedule_all_at [OF set_slot_empty_at [OF at] hs(1), of k ?i ?now, unfolded set_slot_fields]
    by auto
  ultimately have at': "wheel_at ?t P ?lv" using hs(2) by (simp add: Un_absorb1)
  have fields: "t_nodes ?t = t_nodes t" "t_last ?t = t_last t"
    by (simp_all add: reschedule_def)
  have "fits (?lv h) (expiry t h) (left t h) \<and> (k - 1 < ?lv h \<longrightarrow> expiry t h mod span (?lv h) < left t h)"
    if h: "h \<in> P" for h
  proof (cases "h \<in> set ?hs")
    case True
    then show ?thesis
      using low [OF True] timer_level_fits(1,2) [of "n_expire (t_nodes t h) - ?now" "expiry t h"]
        timer_level_fits(3) [of "n_expire (t_nodes t h) - ?now"]
      by (cases "left t h = 0") (auto simp: left_def)
  next
    case False
    have f: "fits (lv h) (expiry t h) (left t h)" using mid h by (simp add: mid_tick_def)
    have "expiry t h mod span (lv h) < left t h" if "k - 1 < lv h"
    proof (cases "lv h = k")
      case True
      with False h hs(3) left_fits_due [OF k(2), of t h] f now
      have "left t h \<noteq> expiry t h mod span k" by auto
      with f True show ?thesis by (simp add: fits_def)
    next
      case no: False
      with that have "k < lv h" by simp
      with mid h show ?thesis by (simp add: mid_tick_def)
    qed
    with False f show ?thesis by simp
  qed
  with at' show ?thesis by (intro exI [of _ ?lv]) (simp add: mid_tick_def expiry_def left_def fields)
qed

lemma mid_tick_quiet:
  assumes "mid_tick k t P lv" "0 < k" "k < 4" "unat (t_last t) mod span k \<noteq> 0"
  shows "mid_tick (k - 1) t P lv"
proof -
  have "expiry t h mod span (lv h) < left t h" if h: "h \<in> P" "k - 1 < lv h" for h
  proof (cases "lv h = k")
    case True
    with assms(1) h(1) have f: "fits k (expiry t h) (left t h)" by (auto simp: mid_tick_def)
    then have "left t h \<noteq> expiry t h mod span k" using assms(4) left_fits_due [OF assms(3) f] by simp
    with f True show ?thesis by (simp add: fits_def)
  next
    case False
    with h(2) have "k < lv h" by simp
    with assms(1) h(1) show ?thesis by (simp add: mid_tick_def)
  qed
  with assms(1) show ?thesis by (simp add: mid_tick_def)
qed

text \<open>Firing a slot with functions that leave the timer alone.\<close>

abbreviation inert :: "handle \<Rightarrow> timer \<Rightarrow> timer" where
  "inert \<equiv> \<lambda>_ t. t"

primrec fire_list :: "timer \<Rightarrow> nat \<Rightarrow> handle list \<Rightarrow> timer" where
  "fire_list t i [] = t"
| "fire_list t i (h # hs) = fire_list (fire_one t i h hs) i hs"

lemma fire_one_fields [simp]:
  "t_wheel (fire_one t i h hs) k j = (if k = 0 \<and> j = i then hs else t_wheel t k j)"
  "t_last (fire_one t i h hs) = t_last t" "t_count (fire_one t i h hs) = t_count t - 1"
  "t_nodes (fire_one t i h hs) = (t_nodes t)(h := (t_nodes t h)\<lparr>n_pending := False\<rparr>)"
  "t_fired (fire_one t i h hs) = t_fired t @ [(t_last t, h, n_user_data (t_nodes t h))]"
  by (simp_all add: fire_one_def)

lemma fire_passive: "fire inert t i = Some (fire_list t i (t_wheel t 0 i))"
proof (induction "t_wheel t 0 i" arbitrary: t)
  case Nil
  then show ?case by (simp add: fire.simps [of inert t] flip: Nil)
next
  case (Cons h hs)
  from Cons(1) [of "fire_one t i h hs"] Cons(2) show ?case
    by (simp add: fire.simps [of inert t] flip: Cons(2))
qed

lemma fire_list_fields:
  "t_wheel t 0 i = hs \<Longrightarrow> distinct hs \<Longrightarrow>
   t_wheel (fire_list t i hs) k j = (if k = 0 \<and> j = i then [] else t_wheel t k j) \<and>
   t_last (fire_list t i hs) = t_last t \<and> t_count (fire_list t i hs) = t_count t - of_nat (length hs) \<and>
   (\<forall>x. t_nodes (fire_list t i hs) x =
      (if x \<in> set hs then (t_nodes t x)\<lparr>n_pending := False\<rparr> else t_nodes t x)) \<and>
   t_fired (fire_list t i hs) = t_fired t @ map (\<lambda>h. (t_last t, h, n_user_data (t_nodes t h))) hs"
proof (induction hs arbitrary: t)
  case (Cons h hs)
  from Cons.IH [of "fire_one t i h hs"] Cons.prems show ?case
    by (auto simp: algebra_simps)
qed simp

lemma fire_slot:
  assumes mid: "mid_tick 0 t P lv" and fin: "finite P" "t_count t = of_nat (card P)"
    and pend: "\<forall>h\<in>P. n_pending (t_nodes t h)"
  defines "hs \<equiv> t_wheel t 0 (timer_slot 0 (t_last t))"
  shows "\<exists>t'. fire inert t (timer_slot 0 (t_last t)) = Some t' \<and> timer_inv t' (P - set hs) \<and>
           t_last t' = t_last t \<and> (\<forall>h. h \<notin> set hs \<longrightarrow> t_nodes t' h = t_nodes t h) \<and>
           (\<forall>h\<in>set hs. \<not> n_pending (t_nodes t' h)) \<and>
           t_fired t' = t_fired t @ map (\<lambda>h. (t_last t, h, n_user_data (t_nodes t h))) hs \<and>
           distinct hs \<and> set hs = {h \<in> P. n_expire (t_nodes t h) = t_last t}"
proof -
  let ?i = "timer_slot 0 (t_last t)" and ?t = "fire_list t (timer_slot 0 (t_last t)) hs"
  have at: "wheel_at t P lv" using mid by (simp add: mid_tick_def)
  then have hs: "distinct hs" "set hs = {h \<in> P. lv h = 0 \<and> timer_slot 0 (n_expire (t_nodes t h)) = ?i}"
    by (auto simp: wheel_at_def hs_def)
  have zero: "left t h = 0 \<longleftrightarrow> n_expire (t_nodes t h) = t_last t" for h
    by (simp add: left_def unat_eq_0)
  have sel: "h \<in> set hs \<longleftrightarrow> n_expire (t_nodes t h) = t_last t" if h: "h \<in> P" for h
  proof (cases "lv h = 0")
    case True
    with mid h have "fits 0 (expiry t h) (left t h)" by (auto simp: mid_tick_def)
    from left_fits_due [OF _ this] True h hs(2) zero show ?thesis by simp
  next
    case False
    with mid h have "0 < left t h" by (auto simp: mid_tick_def)
    with False hs(2) zero [of h] show ?thesis by auto
  qed
  have sub: "set hs \<subseteq> P" using hs(2) by auto
  note f = fire_list_fields [OF meta_eq_to_obj_eq [OF hs_def, symmetric] hs(1)]
  have "wheel_at ?t (P - set hs) lv"
    using at f hs(2) unfolding wheel_at_def by auto
  moreover have "fits (lv h) (expiry t h) (left t h) \<and> expiry t h mod span (lv h) < left t h"
    if "h \<in> P - set hs" for h
    using mid that sel zero by (cases "lv h = 0") (auto simp: mid_tick_def)
  moreover have "card (P - set hs) = card P - length hs" "length hs \<le> card P"
    using sub hs(1) fin(1) by (simp_all add: card_Diff_subset distinct_card card_mono flip: distinct_card)
  then have "t_count ?t = of_nat (card (P - set hs))" using f fin(2) by simp
  ultimately have "timer_inv ?t (P - set hs)"
    using fin(1) pend f by (auto simp: timer_inv_def expiry_def left_def intro!: exI [of _ lv])
  moreover have "fire inert t ?i = Some ?t" using fire_passive [of t ?i] by (simp add: hs_def)
  ultimately show ?thesis using f hs(1) sub sel by (intro exI [of _ ?t]) auto
qed

text \<open>The cascades of one tick, in the uniform way the invariant sees them.\<close>

definition cascade :: "nat \<Rightarrow> timer \<Rightarrow> timer" where
  "cascade k t =
     (if unat (t_last t) mod span k = 0 then reschedule t k (timer_slot k (t_last t)) (t_last t) else t)"

lemma reschedule_fields [simp]:
  "t_nodes (reschedule t k i now) = t_nodes t" "t_last (reschedule t k i now) = t_last t"
  "t_count (reschedule t k i now) = t_count t" "t_fired (reschedule t k i now) = t_fired t"
  by (simp_all add: reschedule_def)

lemma cascade_fields [simp]:
  "t_nodes (cascade k t) = t_nodes t" "t_last (cascade k t) = t_last t"
  "t_count (cascade k t) = t_count t" "t_fired (cascade k t) = t_fired t"
  by (simp_all add: cascade_def)

lemma span_dvd: "j \<le> k \<Longrightarrow> n mod span k = 0 \<Longrightarrow> n mod span j = 0"
  using dvd_trans [OF le_imp_power_dvd [of j k 256]] by (auto simp: span_def mod_eq_0_iff_dvd)

lemma slot_zero: "j < k \<Longrightarrow> unat now mod span k = 0 \<Longrightarrow> timer_slot j now = 0"
proof -
  assume jk: "j < k" "unat now mod span k = 0"
  then have "unat now mod span (Suc j) = 0" by (intro span_dvd [of "Suc j" k]) simp_all
  then have "unat now mod (span j * 256) = 0" by (simp add: span_def mult.commute)
  then show ?thesis by (auto simp: timer_slot_eq mod_mult2_eq)
qed

lemma timer_tick_cascades:
  "timer_tick cb t0 =
     (let t = t0\<lparr>t_last := t_last t0 + 1\<rparr>
      in fire cb (cascade 1 (cascade 2 (cascade 3 t))) (timer_slot 0 (t_last t)))"
proof -
  let ?t = "t0\<lparr>t_last := t_last t0 + 1\<rparr>" and ?now = "t_last t0 + 1"
  have slots: "unat (?now AND 0x0FF) = timer_slot 0 ?now" "unat (drop_bit 8 ?now AND 0x0FF) = timer_slot 1 ?now"
    "unat (drop_bit 16 ?now AND 0x0FF) = timer_slot 2 ?now" "unat (drop_bit 24 ?now AND 0x0FF) = timer_slot 3 ?now"
    by (simp_all add: timer_slot_def)
  let ?z = "\<lambda>k. unat ?now mod span k = 0"
  have up: "\<not> ?z 1 \<Longrightarrow> \<not> ?z 2" "\<not> ?z 2 \<Longrightarrow> \<not> ?z 3"
    using span_dvd [of 1 2 "unat ?now"] span_dvd [of 2 3 "unat ?now"] by linarith+
  have zero: "?z 1 \<Longrightarrow> timer_slot 0 ?now = 0" "?z 2 \<Longrightarrow> timer_slot 1 ?now = 0" "?z 3 \<Longrightarrow> timer_slot 2 ?now = 0"
    using slot_zero [of 0 1 ?now] slot_zero [of 1 2 ?now] slot_zero [of 2 3 ?now] by simp_all
  show ?thesis
    unfolding timer_tick_def Let_def timer.simps low_bits_zero slots cascade_def
    using up zero span_dvd [of 1 2 "unat ?now"] span_dvd [of 2 3 "unat ?now"]
    by (cases "?z 1"; cases "?z 2"; cases "?z 3") (simp_all add: slots del: span_simps)
qed

lemma mid_tick_cascade:
  assumes "mid_tick k t P lv" "0 < k" "k < 4"
  shows "\<exists>lv'. mid_tick (k - 1) (cascade k t) P lv'"
  using mid_tick_reschedule [OF assms] mid_tick_quiet [OF assms] by (auto simp: cascade_def)

text \<open>After the cascades of a tick, every node due in it is on the first wheel.\<close>

lemma timer_tick_mid:
  assumes inv: "timer_inv t P"
  shows "\<exists>lv. mid_tick 0 (cascade 1 (cascade 2 (cascade 3 (t\<lparr>t_last := t_last t + 1\<rparr>)))) P lv"
proof -
  let ?t = "t\<lparr>t_last := t_last t + 1\<rparr>"
  obtain lv where lv: "wheel_at t P lv"
    "\<forall>h\<in>P. fits (lv h) (expiry t h) (left t h) \<and> expiry t h mod span (lv h) < left t h"
    using inv by (auto simp: timer_inv_def)
  have left: "left ?t h = left t h - 1" if "h \<in> P" for h
  proof -
    have "n_expire (t_nodes t h) - t_last t \<noteq> 0" using lv(2) that by (force simp: left_def)
    from unat_minus_one [OF this] show ?thesis by (simp add: left_def algebra_simps)
  qed
  have "mid_tick 3 ?t P lv"
    unfolding mid_tick_def
  proof (intro conjI ballI)
    show "wheel_at ?t P lv" using lv(1) by (simp add: wheel_at_def)
    fix h assume h: "h \<in> P"
    have "lv h < 4" using lv(1) h by (simp add: wheel_at_def)
    moreover have "expiry ?t h = expiry t h" by (simp add: expiry_def)
    ultimately show "fits (lv h) (expiry ?t h) (left ?t h)" "3 < lv h \<longrightarrow> expiry ?t h mod span (lv h) < left ?t h"
      using lv(2) h left [OF h] by (auto simp: fits_def)
  qed
  then obtain lv3 where "mid_tick 2 (cascade 3 ?t) P lv3" using mid_tick_cascade by force
  then obtain lv2 where "mid_tick 1 (cascade 2 (cascade 3 ?t)) P lv2" using mid_tick_cascade by force
  then show ?thesis using mid_tick_cascade by force
qed

lemma timer_tick_fires:
  assumes inv: "timer_inv t P"
  shows "\<exists>t' hs. timer_tick inert t = Some t' \<and> t_last t' = t_last t + 1 \<and> distinct hs \<and>
           set hs = {h \<in> P. n_expire (t_nodes t h) = t_last t + 1} \<and> timer_inv t' (P - set hs) \<and>
           (\<forall>h. h \<notin> set hs \<longrightarrow> t_nodes t' h = t_nodes t h) \<and> (\<forall>h\<in>set hs. \<not> n_pending (t_nodes t' h)) \<and>
           t_fired t' = t_fired t @ map (\<lambda>h. (t_last t + 1, h, n_user_data (t_nodes t h))) hs"
proof -
  obtain lv where "mid_tick 0 (cascade 1 (cascade 2 (cascade 3 (t\<lparr>t_last := t_last t + 1\<rparr>)))) P lv"
    using timer_tick_mid [OF inv] by blast
  from fire_slot [OF this] inv show ?thesis
    unfolding timer_tick_cascades Let_def by (simp add: timer_inv_def) blast
qed

text \<open>Starting and cancelling.\<close>

lemma timer_inv_frame:
  assumes "wheel_at t P lv" "\<And>h. h \<in> P \<Longrightarrow> n_expire (t_nodes t' h) = n_expire (t_nodes t h)"
    "t_wheel t' = t_wheel t"
  shows "wheel_at t' P lv"
  using assms unfolding wheel_at_def by fastforce

lemma timer_start_inv:
  assumes inv: "timer_inv t P" and h: "h \<notin> P" and d: "delay \<noteq> 0"
    and start: "timer_start t (Some h) delay ud = (r, t')"
  shows "timer_inv t' (insert h P) \<and> r = Some h \<and> t_last t' = t_last t \<and> t_fired t' = t_fired t \<and>
         n_expire (t_nodes t' h) = t_last t + delay \<and> n_user_data (t_nodes t' h) = ud \<and>
         (\<forall>x. x \<noteq> h \<longrightarrow> t_nodes t' x = t_nodes t x)"
proof -
  obtain lv where lv: "wheel_at t P lv"
    "\<forall>h\<in>P. fits (lv h) (expiry t h) (left t h) \<and> expiry t h mod span (lv h) < left t h"
    using inv by (auto simp: timer_inv_def)
  let ?t1 = "t\<lparr>t_nodes := (t_nodes t)(h := \<lparr>n_user_data = ud, n_expire = t_last t + delay, n_pending = True\<rparr>)\<rparr>"
  let ?t2 = "schedule ?t1 h delay"
  have t': "t' = ?t2\<lparr>t_count := t_count ?t2 + 1\<rparr>" "r = Some h"
    using start by (auto simp: timer_start_def)
  have "wheel_at ?t1 P lv" by (rule timer_inv_frame [OF lv(1)]) (use h in auto)
  from schedule_at [OF this h] have "wheel_at ?t2 (insert h P) (lv(h := timer_level delay))" .
  then have at: "wheel_at t' (insert h P) (lv(h := timer_level delay))"
    by (rule timer_inv_frame) (simp_all add: t')
  have "left t' h = unat delay" "unat delay \<noteq> 0" using d by (simp_all add: left_def t' unat_eq_0)
  with timer_level_fits(1) [of delay "expiry t' h"]
  have new: "fits (timer_level delay) (expiry t' h) (left t' h) \<and>
      expiry t' h mod span (timer_level delay) < left t' h" by simp
  have "left t' x = left t x" "expiry t' x = expiry t x" if "x \<noteq> h" for x
    using that by (simp_all add: left_def expiry_def t')
  with lv(2) new h have "\<forall>x\<in>insert h P. fits ((lv(h := timer_level delay)) x) (expiry t' x) (left t' x) \<and>
      expiry t' x mod span ((lv(h := timer_level delay)) x) < left t' x" by auto
  with at inv h t' show ?thesis by (auto simp: timer_inv_def add.commute)
qed

lemma timer_cancel_inv:
  assumes inv: "timer_inv t P" and h: "h \<in> P"
  shows "\<exists>t'. timer_cancel t h = ((0, Some (n_user_data (t_nodes t h))), t') \<and> timer_inv t' (P - {h}) \<and>
           t_last t' = t_last t \<and> t_fired t' = t_fired t \<and> (\<forall>x. x \<noteq> h \<longrightarrow> t_nodes t' x = t_nodes t x)"
proof -
  obtain lv where lv: "wheel_at t P lv"
    "\<forall>h\<in>P. fits (lv h) (expiry t h) (left t h) \<and> expiry t h mod span (lv h) < left t h"
    using inv by (auto simp: timer_inv_def)
  let ?t = "t\<lparr>t_count := t_count t - 1, t_wheel := (\<lambda>k i. removeAll h (t_wheel t k i)),
              t_nodes := (t_nodes t)(h := (t_nodes t h)\<lparr>n_pending := False\<rparr>)\<rparr>"
  have "wheel_at ?t (P - {h}) lv"
    using lv(1) by (auto simp: wheel_at_def distinct_removeAll)
  moreover have "t_count ?t = of_nat (card (P - {h}))"
    using inv h by (cases "card P") (auto simp: timer_inv_def card_Diff_singleton)
  ultimately have "timer_inv ?t (P - {h})"
    using inv lv(2) by (auto simp: timer_inv_def left_def expiry_def intro!: exI [of _ lv])
  with inv h show ?thesis by (intro exI [of _ ?t]) (auto simp: timer_cancel_def timer_inv_def)
qed

lemma timer_create_inv: "timer_inv (timer_init mem now) {}"
  by (simp add: timer_inv_def timer_init_def wheel_at_def)

lemma timer_inv_left: "timer_inv t P \<Longrightarrow> h \<in> P \<Longrightarrow> 0 < left t h"
  by (force simp: timer_inv_def)

lemma left_one: "left t h = 1 \<longleftrightarrow> n_expire (t_nodes t h) = t_last t + 1"
  unfolding left_def by (metis add_diff_cancel_left' diff_add_cancel add.commute unsigned_1 word_unat_eq_iff)

lemma left_tick:
  assumes "left t h \<noteq> 0" "t_last t' = t_last t + 1" "t_nodes t' h = t_nodes t h"
  shows "left t' h = left t h - 1"
proof -
  have "n_expire (t_nodes t h) - t_last t \<noteq> 0" using assms(1) by (auto simp: left_def)
  from unat_minus_one [OF this] show ?thesis by (simp add: left_def assms(2,3) algebra_simps)
qed

lemma sorted_map_Suc: "sorted xs \<Longrightarrow> sorted (map Suc xs)"
  by (induction xs) auto

text \<open>What is logged in the ticks up to \<open>n\<close>.\<close>

definition log_upto :: "timer \<Rightarrow> handle set \<Rightarrow> nat \<Rightarrow> (u32 \<times> handle \<times> nat) list \<Rightarrow> bool" where
  "log_upto t P n log \<longleftrightarrow> distinct (map (fst \<circ> snd) log) \<and>
     set log = {(n_expire (t_nodes t h), h, n_user_data (t_nodes t h)) |h. h \<in> P \<and> left t h \<le> n} \<and>
     sorted (map (\<lambda>(tick, _). unat (tick - t_last t)) log)"

lemma log_upto_tick:
  assumes inv: "timer_inv t P" and hs: "distinct hs" "set hs = {h \<in> P. n_expire (t_nodes t h) = t_last t + 1}"
    and t1: "t_last t1 = t_last t + 1" "\<forall>h. h \<notin> set hs \<longrightarrow> t_nodes t1 h = t_nodes t h"
    and log1: "log_upto t1 (P - set hs) n log1"
  shows "log_upto t P (Suc n) (map (\<lambda>h. (t_last t + 1, h, n_user_data (t_nodes t h))) hs @ log1)"
proof -
  let ?entry = "\<lambda>t h. (n_expire (t_nodes t h), h, n_user_data (t_nodes t h))"
  have pos: "0 < left t h" if "h \<in> P" for h using timer_inv_left [OF inv that] .
  have tick: "left t h = Suc (left t1 h)" "?entry t1 h = ?entry t h" if "h \<in> P - set hs" for h
    using left_tick [of t h t1] pos [of h] t1 that by auto
  have mem: "h \<in> set hs \<longleftrightarrow> h \<in> P \<and> left t h = 1" for h using hs(2) left_one by auto
  have log1_set: "set log1 = ?entry t ` {h \<in> P - set hs. left t1 h \<le> n}"
    using log1 tick(2) by (auto simp: log_upto_def image_iff)
  have first: "(\<lambda>h. (t_last t + 1, h, n_user_data (t_nodes t h))) ` set hs = ?entry t ` set hs"
    using hs(2) by (auto simp: image_iff)
  have "{h \<in> P. left t h \<le> Suc n} = set hs \<union> {h \<in> P - set hs. left t1 h \<le> n}"
  proof (rule set_eqI)
    fix h
    show "h \<in> {h \<in> P. left t h \<le> Suc n} \<longleftrightarrow> h \<in> set hs \<union> {h \<in> P - set hs. left t1 h \<le> n}"
      using mem [of h] tick(1) [of h] by (cases "h \<in> P - set hs") auto
  qed
  then have "set (map (\<lambda>h. (t_last t + 1, h, n_user_data (t_nodes t h))) hs @ log1) =
      ?entry t ` {h \<in> P. left t h \<le> Suc n}"
    by (simp only: set_append set_map first log1_set image_Un)
  moreover have "distinct (map (fst \<circ> snd) (map (\<lambda>h. (t_last t + 1, h, n_user_data (t_nodes t h))) hs @ log1))"
  proof -
    have "map (fst \<circ> snd) (map (\<lambda>h. (t_last t + 1, h, n_user_data (t_nodes t h))) hs) = hs"
      by (simp add: comp_def)
    moreover have "(fst \<circ> snd) ` set log1 \<inter> set hs = {}" unfolding log1_set by auto
    ultimately show ?thesis using hs(1) log1 by (auto simp: log_upto_def)
  qed
  moreover have "sorted (map (\<lambda>(tick, _). unat (tick - t_last t))
      (map (\<lambda>h. (t_last t + 1, h, n_user_data (t_nodes t h))) hs @ log1))"
  proof -
    have later: "unat (fst e - t_last t) = Suc (unat (fst e - t_last t1))" if e: "e \<in> set log1" for e
    proof -
      obtain h where "h \<in> P - set hs" "e = ?entry t h" using e log1_set by auto
      with tick show ?thesis by (auto simp: left_def)
    qed
    have eq: "map (\<lambda>(tick, _). unat (tick - t_last t)) log1 =
        map Suc (map (\<lambda>(tick, _). unat (tick - t_last t1)) log1)"
      using later by (auto simp: case_prod_unfold)
    have "sorted (map (\<lambda>(tick, _). unat (tick - t_last t)) log1)"
      unfolding eq using log1 by (intro sorted_map_Suc) (simp add: log_upto_def)
    moreover have "\<forall>x\<in>set (map (\<lambda>(tick, _). unat (tick - t_last t)) log1). 1 \<le> x"
      unfolding eq by auto
    moreover have "map (\<lambda>(tick, _). unat (tick - t_last t))
        (map (\<lambda>h. (t_last t + 1, h, n_user_data (t_nodes t h))) hs) = replicate (length hs) 1"
      by (simp add: map_replicate_const comp_def)
    ultimately show ?thesis by (simp add: sorted_append)
  qed
  ultimately show ?thesis unfolding log_upto_def by (auto simp: Setcompr_eq_image)
qed

lemma mod_shift_neq: "a < n \<Longrightarrow> 0 < k \<Longrightarrow> k < n \<Longrightarrow> (a + k) mod n \<noteq> a" for n :: nat
  by (cases "a + k < n") (simp_all add: le_mod_geq)

text \<open>A timer whose only node sits in slot \<open>s\<close> of the first wheel.\<close>

definition lone :: "timer \<Rightarrow> handle \<Rightarrow> nat \<Rightarrow> bool" where
  "lone t h s \<longleftrightarrow> (\<forall>k i. t_wheel t k i = (if k = 0 \<and> i = s then [h] else []))"

lemma reschedule_empty: "t_wheel t k i = [] \<Longrightarrow> reschedule t k i now = t"
  by (simp add: reschedule_def set_slot_def fun_upd_idem)

lemma lone_tick:
  assumes "lone t h s"
  shows "timer_tick inert t =
     Some (if timer_slot 0 (t_last t + 1) = s then fire_one (t\<lparr>t_last := t_last t + 1\<rparr>) s h []
           else t\<lparr>t_last := t_last t + 1\<rparr>)"
proof -
  let ?t = "t\<lparr>t_last := t_last t + 1\<rparr>"
  have "cascade k ?t = ?t" if "0 < k" for k
    using assms that by (simp add: cascade_def reschedule_empty lone_def)
  then show ?thesis
    using assms unfolding timer_tick_cascades Let_def by (simp add: fire_passive lone_def)
qed

lemma slot0_add: "timer_slot 0 (x + of_nat n) = (timer_slot 0 x + n) mod 256"
proof -
  have "unat (x + of_nat n) mod 256 = (unat x + n) mod 256"
    by (simp add: unat_word_ariths unat_of_nat mod_mod_cancel mod_simps)
  then show ?thesis by (simp add: timer_slot_eq mod_simps)
qed

lemma timer_poll_add: "timer_poll f (m + n) x = Option.bind (timer_poll f m x) (timer_poll f n)"
proof (induction m arbitrary: x)
  case (Suc m)
  then show ?case by (cases "timer_tick f x") simp_all
qed simp

lemma lone_poll:
  assumes "lone t h (timer_slot 0 (t_last t))"
  shows "n < 256 \<Longrightarrow> timer_poll inert n t = Some (t\<lparr>t_last := t_last t + of_nat n\<rparr>)"
    and "timer_poll inert 256 t = Some (fire_one (t\<lparr>t_last := t_last t + 256\<rparr>) (timer_slot 0 (t_last t)) h [])"
proof -
  have poll: "m + n < 256 \<Longrightarrow> timer_poll inert n (t\<lparr>t_last := t_last t + of_nat m\<rparr>) =
      Some (t\<lparr>t_last := t_last t + of_nat (m + n)\<rparr>)" for m n
  proof (induction n arbitrary: m)
    case (Suc n)
    let ?t = "t\<lparr>t_last := t_last t + of_nat m\<rparr>"
    have l: "lone ?t h (timer_slot 0 (t_last t))" using assms by (simp add: lone_def)
    have "timer_slot 0 (t_last t + of_nat (Suc m)) \<noteq> timer_slot 0 (t_last t)"
      unfolding slot0_add using Suc.prems mod_shift_neq [of "timer_slot 0 (t_last t)" 256 "Suc m"]
      by (simp add: timer_slot_eq)
    with lone_tick [OF l] Suc.IH [of "Suc m"] Suc.prems show ?case
      by (simp add: algebra_simps)
  qed simp
  show "n < 256 \<Longrightarrow> timer_poll inert n t = Some (t\<lparr>t_last := t_last t + of_nat n\<rparr>)"
    using poll [of 0 n] by simp
  from timer_poll_add [of inert 255 1 t] have "timer_poll inert 256 t = timer_tick inert (t\<lparr>t_last := t_last t + 255\<rparr>)"
    using poll [of 0 255] by (cases "timer_tick inert (t\<lparr>t_last := t_last t + 255\<rparr>)") simp_all
  moreover have "lone (t\<lparr>t_last := t_last t + 255\<rparr>) h (timer_slot 0 (t_last t))"
    using assms by (simp add: lone_def)
  moreover have "timer_slot 0 (t_last t + 256) = timer_slot 0 (t_last t)"
    using slot0_add [of "t_last t" 256] by (simp add: timer_slot_eq)
  ultimately show "timer_poll inert 256 t =
      Some (fire_one (t\<lparr>t_last := t_last t + 256\<rparr>) (timer_slot 0 (t_last t)) h [])"
    using lone_tick by (simp add: add.commute)
qed

section \<open>The timer as a list of deadlines\<close>

text \<open>
  What the application knows of a timer: the deadline and user data of each pending handle. A
  timer's function may cancel timers and start new ones; what it does is a function of its handle,
  of all the firings so far (its own is the last) and of the pending handles, which decide what the
  pool hands out. A started timer has a handle that is not pending and at least one tick of delay.
\<close>

type_synonym deadlines = "handle \<Rightarrow> (u32 \<times> nat) option"
type_synonym firings = "(u32 \<times> handle \<times> nat) list"

datatype timer_act = Start handle u32 nat | Cancel handle

definition deadlines :: "timer \<Rightarrow> deadlines" where
  "deadlines t h =
     (if n_pending (t_nodes t h) then Some (n_expire (t_nodes t h), n_user_data (t_nodes t h)) else None)"

fun timer_do :: "timer_act \<Rightarrow> timer \<Rightarrow> timer" where
  "timer_do (Start h delay ud) t = snd (timer_start t (Some h) delay ud)"
| "timer_do (Cancel h) t = snd (timer_cancel t h)"

definition timer_cb :: "(handle \<Rightarrow> firings \<Rightarrow> deadlines \<Rightarrow> timer_act list) \<Rightarrow> handle \<Rightarrow> timer \<Rightarrow> timer" where
  "timer_cb acts h t = fold timer_do (acts h (t_fired t) (deadlines t)) t"

fun spec_do :: "u32 \<Rightarrow> timer_act \<Rightarrow> deadlines \<Rightarrow> deadlines" where
  "spec_do now (Start h delay ud) m = m(h \<mapsto> (now + delay, ud))"
| "spec_do now (Cancel h) m = m(h := None)"

fun acts_ok :: "u32 \<Rightarrow> timer_act list \<Rightarrow> deadlines \<Rightarrow> bool" where
  "acts_ok now [] m = True"
| "acts_ok now (a # as) m =
     ((case a of Start h delay ud \<Rightarrow> m h = None \<and> delay \<noteq> 0 | Cancel h \<Rightarrow> True) \<and>
      acts_ok now as (spec_do now a m))"

text \<open>
  One tick at time \<open>now\<close> of the plain list: as long as a pending timer has this deadline, one of
  them is taken out, logged, and its function run; the tick ends when none is left.
\<close>

inductive spec_tick :: "(handle \<Rightarrow> firings \<Rightarrow> deadlines \<Rightarrow> timer_act list) \<Rightarrow> u32 \<Rightarrow>
    firings \<Rightarrow> deadlines \<Rightarrow> firings \<Rightarrow> deadlines \<Rightarrow> bool" for acts now where
  none_due: "(\<And>h ud. m h \<noteq> Some (now, ud)) \<Longrightarrow> spec_tick acts now log m log m"
| one_due: "m h = Some (now, ud) \<Longrightarrow> log1 = log @ [(now, h, ud)] \<Longrightarrow> m1 = m(h := None) \<Longrightarrow>
    spec_tick acts now log1 (fold (spec_do now) (acts h log1 m1) m1) log' m' \<Longrightarrow>
    spec_tick acts now log m log' m'"

primrec spec_poll :: "(handle \<Rightarrow> firings \<Rightarrow> deadlines \<Rightarrow> timer_act list) \<Rightarrow> nat \<Rightarrow> u32 \<Rightarrow>
    firings \<Rightarrow> deadlines \<Rightarrow> firings \<Rightarrow> deadlines \<Rightarrow> bool" where
  "spec_poll acts 0 now log m log' m' \<longleftrightarrow> log' = log \<and> m' = m"
| "spec_poll acts (Suc n) now log m log' m' \<longleftrightarrow>
     (\<exists>log1 m1. spec_tick acts (now + 1) log m log1 m1 \<and> spec_poll acts n (now + 1) log1 m1 log' m')"

text \<open>A timer between two firings of one tick.\<close>

definition firing :: "timer \<Rightarrow> bool" where
  "firing t \<longleftrightarrow> (\<exists>lv. mid_tick 0 t (dom (deadlines t)) lv) \<and> finite (dom (deadlines t)) \<and>
     t_count t = of_nat (card (dom (deadlines t)))"

lemma dom_deadlines: "dom (deadlines t) = {h. n_pending (t_nodes t h)}"
  by (auto simp: deadlines_def split: if_splits)

lemma deadlines_cong: "t_nodes t' = t_nodes t \<Longrightarrow> deadlines t' = deadlines t"
  by (simp add: fun_eq_iff deadlines_def)

lemma firing_start:
  assumes f: "firing t" and h: "deadlines t h = None" and d: "delay \<noteq> 0"
  shows "firing (timer_do (Start h delay ud) t) \<and>
         deadlines (timer_do (Start h delay ud) t) = (deadlines t)(h \<mapsto> (t_last t + delay, ud)) \<and>
         t_last (timer_do (Start h delay ud) t) = t_last t \<and>
         t_fired (timer_do (Start h delay ud) t) = t_fired t"
proof -
  let ?P = "dom (deadlines t)"
  obtain lv where lv: "wheel_at t ?P lv"
    "\<And>x. x \<in> ?P \<Longrightarrow> fits (lv x) (expiry t x) (left t x) \<and> (0 < lv x \<longrightarrow> expiry t x mod span (lv x) < left t x)"
    using f by (auto simp: firing_def mid_tick_def)
  have hP: "h \<notin> ?P" using h by auto
  let ?t1 = "t\<lparr>t_nodes := (t_nodes t)(h := \<lparr>n_user_data = ud, n_expire = t_last t + delay, n_pending = True\<rparr>)\<rparr>"
  let ?t2 = "schedule ?t1 h delay" and ?lv = "lv(h := timer_level delay)"
  let ?t' = "?t2\<lparr>t_count := t_count ?t2 + 1\<rparr>"
  have act: "timer_do (Start h delay ud) t = ?t'" by (simp add: timer_start_def)
  have dl: "deadlines ?t' = (deadlines t)(h \<mapsto> (t_last t + delay, ud))"
    by (simp add: fun_eq_iff deadlines_def)
  then have dom: "dom (deadlines ?t') = insert h ?P" by simp
  have "wheel_at ?t1 ?P lv" by (rule timer_inv_frame [OF lv(1)]) (use hP in auto)
  from schedule_at [OF this hP] have "wheel_at ?t2 (insert h ?P) ?lv" .
  then have at: "wheel_at ?t' (insert h ?P) ?lv" by (rule timer_inv_frame) simp_all
  have "left ?t' h = unat delay" "unat delay \<noteq> 0" using d by (simp_all add: left_def unat_eq_0)
  with timer_level_fits(1) [of delay "expiry ?t' h"]
  have new: "fits (timer_level delay) (expiry ?t' h) (left ?t' h) \<and>
      expiry ?t' h mod span (timer_level delay) < left ?t' h" by simp
  have "left ?t' x = left t x" "expiry ?t' x = expiry t x" if "x \<noteq> h" for x
    using that by (simp_all add: left_def expiry_def)
  with lv(2) new hP have "mid_tick 0 ?t' (insert h ?P) ?lv" using at by (auto simp: mid_tick_def)
  then have "firing ?t'" using f hP dom by (auto simp: firing_def add.commute)
  then show ?thesis unfolding act using dl by simp
qed

lemma firing_cancel:
  assumes f: "firing t"
  shows "firing (timer_do (Cancel h) t) \<and> deadlines (timer_do (Cancel h) t) = (deadlines t)(h := None) \<and>
         t_last (timer_do (Cancel h) t) = t_last t \<and> t_fired (timer_do (Cancel h) t) = t_fired t"
proof (cases "n_pending (t_nodes t h)")
  case False
  then have "deadlines t h = None" by (simp add: deadlines_def)
  then have "(deadlines t)(h := None) = deadlines t" by (simp add: fun_upd_idem)
  with False f show ?thesis by (simp add: timer_cancel_def)
next
  case True
  let ?P = "dom (deadlines t)"
  obtain lv where lv: "wheel_at t ?P lv"
    "\<And>x. x \<in> ?P \<Longrightarrow> fits (lv x) (expiry t x) (left t x) \<and> (0 < lv x \<longrightarrow> expiry t x mod span (lv x) < left t x)"
    using f by (auto simp: firing_def mid_tick_def)
  let ?t' = "t\<lparr>t_count := t_count t - 1, t_wheel := (\<lambda>k i. removeAll h (t_wheel t k i)),
              t_nodes := (t_nodes t)(h := (t_nodes t h)\<lparr>n_pending := False\<rparr>)\<rparr>"
  have act: "timer_do (Cancel h) t = ?t'" using True by (simp add: timer_cancel_def)
  have dl: "deadlines ?t' = (deadlines t)(h := None)" by (simp add: fun_eq_iff deadlines_def)
  then have dom: "dom (deadlines ?t') = ?P - {h}" by simp
  have "wheel_at ?t' (?P - {h}) lv"
    using lv(1) unfolding wheel_at_def by (auto simp: distinct_removeAll)
  moreover have "left ?t' x = left t x" "expiry ?t' x = expiry t x" for x
    by (simp_all add: left_def expiry_def)
  ultimately have "mid_tick 0 ?t' (?P - {h}) lv" using lv(2) by (simp add: mid_tick_def)
  moreover have "h \<in> ?P" using True by (simp add: dom_deadlines)
  then have "t_count ?t' = of_nat (card (?P - {h}))"
    using f by (cases "card ?P") (auto simp: firing_def card_Diff_singleton)
  ultimately have "firing ?t'" using f dom by (auto simp: firing_def)
  then show ?thesis unfolding act using dl by simp
qed

lemma firing_acts:
  "firing t \<Longrightarrow> acts_ok (t_last t) as (deadlines t) \<Longrightarrow>
   firing (fold timer_do as t) \<and>
   deadlines (fold timer_do as t) = fold (spec_do (t_last t)) as (deadlines t) \<and>
   t_last (fold timer_do as t) = t_last t \<and> t_fired (fold timer_do as t) = t_fired t"
proof (induction as arbitrary: t)
  case (Cons a as)
  have "firing (timer_do a t) \<and> deadlines (timer_do a t) = spec_do (t_last t) a (deadlines t) \<and>
      t_last (timer_do a t) = t_last t \<and> t_fired (timer_do a t) = t_fired t"
  proof (cases a)
    case (Start h delay ud)
    with firing_start [OF Cons.prems(1)] Cons.prems(2) show ?thesis by simp
  next
    case (Cancel h)
    with firing_cancel [OF Cons.prems(1)] show ?thesis by simp
  qed
  with Cons.IH [of "timer_do a t"] Cons.prems(2) show ?case by simp
qed simp

text \<open>The current slot of the first wheel holds exactly the timers that are due.\<close>

lemma firing_slot:
  assumes f: "firing t"
  shows "h \<in> set (t_wheel t 0 (timer_slot 0 (t_last t))) \<longleftrightarrow> (\<exists>ud. deadlines t h = Some (t_last t, ud))"
    "distinct (t_wheel t 0 (timer_slot 0 (t_last t)))"
proof -
  let ?P = "dom (deadlines t)"
  obtain lv where mid: "mid_tick 0 t ?P lv" using f by (auto simp: firing_def)
  then have at: "wheel_at t ?P lv" by (simp add: mid_tick_def)
  then show "distinct (t_wheel t 0 (timer_slot 0 (t_last t)))" by (simp add: wheel_at_def)
  have mem: "h \<in> set (t_wheel t 0 (timer_slot 0 (t_last t))) \<longleftrightarrow>
      h \<in> ?P \<and> lv h = 0 \<and> timer_slot 0 (n_expire (t_nodes t h)) = timer_slot 0 (t_last t)"
    using at by (simp add: wheel_at_def)
  have "n_expire (t_nodes t h) = t_last t \<longleftrightarrow>
      lv h = 0 \<and> timer_slot 0 (n_expire (t_nodes t h)) = timer_slot 0 (t_last t)" if h: "h \<in> ?P"
  proof (cases "lv h = 0")
    case True
    have "fits (lv h) (expiry t h) (left t h)" using mid h by (simp add: mid_tick_def)
    then have "fits 0 (expiry t h) (left t h)" using True by simp
    from left_fits_due [OF _ this] True show ?thesis by (simp add: left_def unat_eq_0)
  next
    case False
    moreover have "\<forall>x\<in>?P. 0 < lv x \<longrightarrow> expiry t x mod span (lv x) < left t x"
      using mid by (simp add: mid_tick_def)
    ultimately have "left t h \<noteq> 0" using h by (metis gr0I not_less0)
    with False show ?thesis by (auto simp: left_def)
  qed
  with mem show "h \<in> set (t_wheel t 0 (timer_slot 0 (t_last t))) \<longleftrightarrow> (\<exists>ud. deadlines t h = Some (t_last t, ud))"
    by (auto simp: deadlines_def dom_deadlines split: if_splits)
qed

lemma firing_fire_one:
  assumes f: "firing t" and w: "t_wheel t 0 (timer_slot 0 (t_last t)) = h # hs"
  defines "t1 \<equiv> fire_one t (timer_slot 0 (t_last t)) h hs"
  shows "firing t1" "deadlines t1 = (deadlines t)(h := None)"
proof -
  let ?P = "dom (deadlines t)" and ?i = "timer_slot 0 (t_last t)"
  obtain lv where mid: "mid_tick 0 t ?P lv" using f by (auto simp: firing_def)
  then have at: "wheel_at t ?P lv" by (simp add: mid_tick_def)
  show dl: "deadlines t1 = (deadlines t)(h := None)"
    by (simp add: fun_eq_iff deadlines_def t1_def)
  then have dom: "dom (deadlines t1) = ?P - {h}" by simp
  have sel: "set (t_wheel t k i) = {x \<in> ?P. lv x = k \<and> timer_slot k (n_expire (t_nodes t x)) = i}"
    "distinct (t_wheel t k i)" for k i using at by (simp_all add: wheel_at_def)
  have "h \<in> set (t_wheel t 0 ?i)" "set hs = set (t_wheel t 0 ?i) - {h}" "distinct hs"
    using w sel(2) [of 0 ?i] by auto
  then have hP: "h \<in> ?P" "lv h = 0" "timer_slot 0 (n_expire (t_nodes t h)) = ?i"
    and hs: "set hs = {x \<in> ?P - {h}. lv x = 0 \<and> timer_slot 0 (n_expire (t_nodes t x)) = ?i}" "distinct hs"
    using sel(1) [of 0 ?i] by auto
  have "wheel_at t1 (?P - {h}) lv"
    using at sel hP hs unfolding wheel_at_def t1_def by (auto simp: fire_one_fields)
  moreover have "left t1 x = left t x" "expiry t1 x = expiry t x" for x
    by (simp_all add: left_def expiry_def t1_def)
  ultimately have "mid_tick 0 t1 (?P - {h}) lv" using mid by (simp add: mid_tick_def)
  moreover have "t_count t1 = of_nat (card (?P - {h}))"
    using f hP(1) by (cases "card ?P") (auto simp: firing_def t1_def card_Diff_singleton)
  ultimately show "firing t1" using f dom by (auto simp: firing_def)
qed

text \<open>No function puts a timer into the current tick, so the timers due become fewer.\<close>

definition due :: "u32 \<Rightarrow> deadlines \<Rightarrow> handle set" where
  "due now m = {h. \<exists>ud. m h = Some (now, ud)}"

lemma due_acts: "acts_ok now as m \<Longrightarrow> due now (fold (spec_do now) as m) \<subseteq> due now m"
proof (induction as arbitrary: m)
  case (Cons a as)
  have "due now (spec_do now a m) \<subseteq> due now m"
    using Cons.prems by (cases a) (auto simp: due_def split: if_splits)
  with Cons.IH [of "spec_do now a m"] Cons.prems show ?case by auto
qed simp

lemma fire_refines:
  assumes ok: "\<forall>now h log m. acts_ok now (acts h log m) m"
  shows "firing t \<Longrightarrow> \<exists>t'. fire (timer_cb acts) t (timer_slot 0 (t_last t)) = Some t' \<and>
           t_last t' = t_last t \<and> timer_inv t' (dom (deadlines t')) \<and>
           spec_tick acts (t_last t) (t_fired t) (deadlines t) (t_fired t') (deadlines t')"
proof (induction "card (due (t_last t) (deadlines t))" arbitrary: t rule: less_induct)
  case less
  let ?i = "timer_slot 0 (t_last t)"
  have fin: "finite (due (t_last t) (deadlines t))"
    using less.prems by (rule_tac finite_subset [of _ "dom (deadlines t)"]) (auto simp: due_def firing_def)
  show ?case
  proof (cases "t_wheel t 0 ?i")
    case Nil
    then have none: "deadlines t h \<noteq> Some (t_last t, ud)" for h ud
      using firing_slot(1) [OF less.prems, of h] by simp
    obtain lv where lv: "mid_tick 0 t (dom (deadlines t)) lv" using less.prems by (auto simp: firing_def)
    have "expiry t h mod span (lv h) < left t h" if h: "h \<in> dom (deadlines t)" for h
    proof (cases "lv h = 0")
      case True
      have "n_expire (t_nodes t h) \<noteq> t_last t"
        using none [of h "n_user_data (t_nodes t h)"] h by (auto simp: deadlines_def split: if_splits)
      then have "0 < left t h" by (simp add: left_def unat_gt_0)
      with True show ?thesis by simp
    next
      case False
      with lv h show ?thesis by (simp add: mid_tick_def)
    qed
    then have "timer_inv t (dom (deadlines t))"
      using less.prems lv by (auto simp: timer_inv_def firing_def mid_tick_def dom_deadlines)
    with Nil none show ?thesis
      by (intro exI [of _ t]) (auto simp: fire.simps [of "timer_cb acts" t] intro: spec_tick.none_due)
  next
    case (Cons h hs)
    let ?t1 = "fire_one t ?i h hs" and ?m1 = "(deadlines t)(h := None)"
    obtain ud where ud: "deadlines t h = Some (t_last t, ud)"
      using firing_slot(1) [OF less.prems, of h] Cons by auto
    then have data: "n_user_data (t_nodes t h) = ud" by (auto simp: deadlines_def split: if_splits)
    note one = firing_fire_one [OF less.prems Cons]
    let ?log1 = "t_fired t @ [(t_last t, h, ud)]"
    let ?as = "acts h ?log1 ?m1"
    let ?t2 = "fold timer_do ?as ?t1"
    have cb: "timer_cb acts h ?t1 = ?t2" by (simp add: timer_cb_def one(2) data)
    have t2: "firing ?t2" "deadlines ?t2 = fold (spec_do (t_last t)) ?as ?m1" "t_last ?t2 = t_last t"
      "t_fired ?t2 = ?log1"
      using firing_acts [OF one(1), of ?as] ok one(2) data by simp_all
    have "due (t_last t) (deadlines ?t2) \<subseteq> due (t_last t) ?m1"
      unfolding t2(2) using ok by (intro due_acts) simp
    also have "\<dots> \<subset> due (t_last t) (deadlines t)" using ud by (auto simp: due_def split: if_splits)
    finally have "card (due (t_last ?t2) (deadlines ?t2)) < card (due (t_last t) (deadlines t))"
      unfolding t2(3) by (intro psubset_card_mono fin)
    from less.hyps [OF this t2(1)] obtain t' where t':
      "fire (timer_cb acts) ?t2 ?i = Some t'" "t_last t' = t_last t" "timer_inv t' (dom (deadlines t'))"
      "spec_tick acts (t_last t) ?log1 (fold (spec_do (t_last t)) ?as ?m1) (t_fired t') (deadlines t')"
      unfolding t2(2-4) by blast
    have "fire (timer_cb acts) t ?i = Some t'"
      using t'(1) by (subst fire.simps) (simp add: Cons cb)
    moreover have "spec_tick acts (t_last t) (t_fired t) (deadlines t) (t_fired t') (deadlines t')"
      by (rule spec_tick.one_due [OF ud refl refl t'(4)])
    ultimately show ?thesis using t'(2,3) by blast
  qed
qed

lemma timer_tick_refines:
  assumes inv: "timer_inv t (dom (deadlines t))" and ok: "\<forall>now h log m. acts_ok now (acts h log m) m"
  shows "\<exists>t'. timer_tick (timer_cb acts) t = Some t' \<and> t_last t' = t_last t + 1 \<and>
           timer_inv t' (dom (deadlines t')) \<and>
           spec_tick acts (t_last t + 1) (t_fired t) (deadlines t) (t_fired t') (deadlines t')"
proof -
  let ?t = "cascade 1 (cascade 2 (cascade 3 (t\<lparr>t_last := t_last t + 1\<rparr>)))"
  have dl: "deadlines ?t = deadlines t" by (rule deadlines_cong) simp
  have fr: "t_last ?t = t_last t + 1" "t_fired ?t = t_fired t" "t_count ?t = t_count t" by simp_all
  have "firing ?t"
    unfolding firing_def dl fr using timer_tick_mid [OF inv] inv by (auto simp only: timer_inv_def)
  from fire_refines [OF ok this] obtain t' where
    "fire (timer_cb acts) ?t (timer_slot 0 (t_last t + 1)) = Some t'" "t_last t' = t_last t + 1"
    "timer_inv t' (dom (deadlines t'))"
    "spec_tick acts (t_last t + 1) (t_fired t) (deadlines t) (t_fired t') (deadlines t')"
    unfolding fr dl by blast
  moreover have "timer_tick (timer_cb acts) t = fire (timer_cb acts) ?t (timer_slot 0 (t_last t + 1))"
    by (subst timer_tick_cascades) simp
  ultimately show ?thesis by auto
qed

section \<open>Properties\<close>

definition demo_mem :: "handle \<Rightarrow> tnode" where
  "demo_mem h = \<lparr>n_user_data = 0, n_expire = 0, n_pending = False\<rparr>"

text \<open>With functions that leave the timer alone, the log of a poll can be given outright.\<close>

lemma timer_poll_inert:
  assumes "timer_inv t P"
  shows "\<exists>t' log. timer_poll inert n t = Some t' \<and> t_last t' = t_last t + of_nat n \<and>
           t_fired t' = t_fired t @ log \<and> log_upto t P n log \<and> timer_inv t' {h \<in> P. n < left t h} \<and>
           (\<forall>h\<in>P. n < left t h \<longrightarrow> t_nodes t' h = t_nodes t h)"
  using assms
proof (induction n arbitrary: t P)
  case 0
  have "{h \<in> P. left t h \<le> 0} = {}" "{h \<in> P. 0 < left t h} = P" using timer_inv_left [OF 0] by auto
  with 0 show ?case by (auto simp: log_upto_def)
next
  case (Suc n)
  from timer_tick_fires [OF Suc.prems] obtain t1 hs where
    t1: "timer_tick inert t = Some t1" "t_last t1 = t_last t + 1" "distinct hs"
      "set hs = {h \<in> P. n_expire (t_nodes t h) = t_last t + 1}" "timer_inv t1 (P - set hs)"
      "\<forall>h. h \<notin> set hs \<longrightarrow> t_nodes t1 h = t_nodes t h"
      "t_fired t1 = t_fired t @ map (\<lambda>h. (t_last t + 1, h, n_user_data (t_nodes t h))) hs" by blast
  from Suc.IH [OF t1(5)] obtain t' log1 where
    t': "timer_poll inert n t1 = Some t'" "t_last t' = t_last t1 + of_nat n" "t_fired t' = t_fired t1 @ log1"
      "log_upto t1 (P - set hs) n log1" "timer_inv t' {h \<in> P - set hs. n < left t1 h}"
      "\<forall>h\<in>P - set hs. n < left t1 h \<longrightarrow> t_nodes t' h = t_nodes t1 h" by blast
  have in_hs: "h \<in> set hs \<longleftrightarrow> h \<in> P \<and> left t h = 1" for h using t1(4) left_one by auto
  have tick: "left t h = Suc (left t1 h)" if "h \<in> P - set hs" for h
    using left_tick [of t h t1] timer_inv_left [OF Suc.prems, of h] t1(2,6) that by auto
  have rest: "h \<in> P - set hs \<and> n < left t1 h \<longleftrightarrow> h \<in> P \<and> Suc n < left t h" for h
    using in_hs [of h] tick [of h] by (cases "h \<in> P - set hs") auto
  then have "{h \<in> P - set hs. n < left t1 h} = {h \<in> P. Suc n < left t h}" by blast
  with t1 t' rest log_upto_tick [OF Suc.prems t1(3,4,2,6) t'(4)] show ?case
    by (intro exI [of _ t'] exI [of _ "map (\<lambda>h. (t_last t + 1, h, n_user_data (t_nodes t h))) hs @ log1"])
      (auto simp: add.assoc)
qed

text \<open>C13. Polling behaves as a plain list of deadlines does, for timers of at least one tick of
  delay: at every tick exactly the pending timers whose deadline it is fire, each once, unless a
  timer fired before it in the same tick cancels it; timers cancelled meanwhile never fire, timers
  started by a timer's function fire at their own deadline, and the rest stays pending, however the
  nodes wander through the wheels. The timers' functions may start timers (of at least one tick)
  and cancel any; the poll returns. Timers of delay zero are outside this, see
  \<open>timer_zero_delay_late\<close>.\<close>

theorem timer_poll_fires_on_time:
  assumes "timer_inv t (dom (deadlines t))" and "\<forall>now h log m. acts_ok now (acts h log m) m"
  shows "\<exists>t'. timer_poll (timer_cb acts) n t = Some t' \<and> t_last t' = t_last t + of_nat n \<and>
           timer_inv t' (dom (deadlines t')) \<and>
           spec_poll acts n (t_last t) (t_fired t) (deadlines t) (t_fired t') (deadlines t')"
  using assms(1)
proof (induction n arbitrary: t)
  case (Suc n)
  from timer_tick_refines [OF Suc.prems assms(2)] obtain t1 where
    t1: "timer_tick (timer_cb acts) t = Some t1" "t_last t1 = t_last t + 1"
      "timer_inv t1 (dom (deadlines t1))"
      "spec_tick acts (t_last t + 1) (t_fired t) (deadlines t) (t_fired t1) (deadlines t1)" by blast
  from Suc.IH [OF t1(3)] obtain t' where
    "timer_poll (timer_cb acts) n t1 = Some t'" "t_last t' = t_last t1 + of_nat n"
    "timer_inv t' (dom (deadlines t'))"
    "spec_poll acts n (t_last t1) (t_fired t1) (deadlines t1) (t_fired t') (deadlines t')" by blast
  with t1 show ?case by (intro exI [of _ t']) (auto simp: add.assoc)
qed simp

text \<open>Handle 5 fires after 66000 ticks; its function cancels 7 and starts 6 when that is free.\<close>

definition demo_acts :: "handle \<Rightarrow> firings \<Rightarrow> deadlines \<Rightarrow> timer_act list" where
  "demo_acts h log m = (if h = 5 \<and> m 6 = None then [Cancel 7, Start 6 300 1] else [])"

definition demo_timer :: timer where
  "demo_timer = snd (timer_start (timer_init demo_mem 0) (Some 5) 66000 9)"

lemma demo_timer_inv: "timer_inv demo_timer (dom (deadlines demo_timer))"
proof -
  have "timer_inv demo_timer {5}"
    using timer_start_inv [OF timer_create_inv, of 5 66000 demo_mem 0 9 _ _, OF _ _ prod.collapse [symmetric]]
    by (simp add: demo_timer_def)
  moreover have "dom (deadlines demo_timer) = {5}"
    by (auto simp: dom_deadlines demo_timer_def timer_start_def timer_init_def demo_mem_def split: if_splits)
  ultimately show ?thesis by simp
qed

theorem timer_poll_fires_on_time_witness:
  "\<exists>t'. timer_poll (timer_cb demo_acts) 70000 demo_timer = Some t' \<and>
     t_last t' = t_last demo_timer + of_nat 70000 \<and> timer_inv t' (dom (deadlines t')) \<and>
     spec_poll demo_acts 70000 (t_last demo_timer) (t_fired demo_timer) (deadlines demo_timer)
       (t_fired t') (deadlines t')"
  by (rule timer_poll_fires_on_time [OF demo_timer_inv]) (simp add: demo_acts_def)

text \<open>A timer started with a delay of at least one tick is pending with that many ticks left, and
  cancelling it before it fires hands back its user data and leaves the other timers as they were;
  cancelling it a second time is refused.\<close>

lemma timer_start_cancel:
  assumes "timer_inv t P" and "h \<notin> P" and "delay \<noteq> 0"
  shows "\<exists>t1 t2. timer_start t (Some h) delay ud = (Some h, t1) \<and> timer_inv t1 (insert h P) \<and>
           left t1 h = unat delay \<and> timer_cancel t1 h = ((0, Some ud), t2) \<and> timer_inv t2 P \<and>
           timer_cancel t2 h = ((1, None), t2)"
proof -
  obtain r t1 where s: "timer_start t (Some h) delay ud = (r, t1)" by (cases "timer_start t (Some h) delay ud")
  note st = timer_start_inv [OF assms s]
  from timer_cancel_inv [of t1 "insert h P" h] st obtain t2 where
    t2: "timer_cancel t1 h = ((0, Some ud), t2)" "timer_inv t2 (insert h P - {h})" by auto
  moreover have "insert h P - {h} = P" using assms(2) by auto
  moreover have "\<not> n_pending (t_nodes t2 h)" using t2(1) by (auto simp: timer_cancel_def split: if_splits)
  ultimately show ?thesis using s st by (auto simp: left_def timer_cancel_def)
qed

text \<open>A timer started with delay zero outside a tick does not fire in the next ticks but in the
  256th: its node goes to the slot of the tick that has just passed.\<close>

lemma timer_zero_delay_late:
  assumes "timer_inv t {}" and "timer_start t (Some h) 0 ud = (r, t0)"
  shows "\<exists>t1 t2. timer_poll inert 255 t0 = Some t1 \<and> t_fired t1 = t_fired t \<and>
           timer_poll inert 256 t0 = Some t2 \<and> t_fired t2 = t_fired t @ [(t_last t + 256, h, ud)]"
proof -
  have empty: "t_wheel t k i = []" for k i using assms(1) by (simp add: timer_inv_def wheel_at_def)
  have t0: "t_last t0 = t_last t" "n_user_data (t_nodes t0 h) = ud" "t_fired t0 = t_fired t"
    "lone t0 h (timer_slot 0 (t_last t))"
    using assms(2) empty by (auto simp: timer_start_def schedule_def lone_def timer_level_def)
  with lone_poll [of t0 h] show ?thesis by simp
qed

end
