(* ===== verification/Event_Queue.thy ===== *)
theory Event_Queue
  imports Prelude
begin

unbundle bit_operations_syntax

text \<open>
  The event queue of a stage (\<open>stage/event_queue.h\<close>): producers allocate a block in a ring of bytes,
  build an event in it and commit it; one consumer pops the oldest committed event and gives its
  block back. A pointer is an offset into \<open>_buf\<close>; \<open>q_header\<close> is what the eight bytes at an offset say
  when they are read as an \<open>event_header\<close>. \<open>allocate\<close> runs under the queue's lock and each of the
  other operations reads and writes each position once, so a run is a sequence of operations.
  Positions and sizes stay far below \<open>2 ^ 31\<close>, so \<open>int32_t\<close> is \<open>int\<close>.
\<close>

section \<open>State and operations\<close>

datatype block_state = ALLOCATED | COMMITTED | SKIPPED

record event_queue =
  q_cap :: int
  q_alloc_pos :: int
  q_free_pos :: int
  q_header :: "int \<Rightarrow> block_state \<times> int"

definition sizeof_event_header :: int where
  "sizeof_event_header = 8"

text \<open>The constructor; the fresh memory holds whatever it holds. \<open>None\<close> is a failed \<open>assert\<close>.\<close>

definition evq_new :: "(int \<Rightarrow> block_state \<times> int) \<Rightarrow> int \<Rightarrow> event_queue option" where
  "evq_new mem cap =
     (if cap > sizeof_event_header
      then Some \<lparr>q_cap = cap, q_alloc_pos = 0, q_free_pos = 0, q_header = mem\<rparr> else None)"

definition evq_pop :: "event_queue \<Rightarrow> int option \<times> event_queue" where
  "evq_pop q =
     (if q_free_pos q = q_alloc_pos q then (None, q)
      else (let q1 = (if q_cap q - q_free_pos q \<le> sizeof_event_header then q\<lparr>q_free_pos := 0\<rparr> else q);
                s = fst (q_header q1 (q_free_pos q1)) in
        if s = COMMITTED then (Some (q_free_pos q1 + sizeof_event_header), q1)
        else if s = SKIPPED
        then (let q2 = q1\<lparr>q_free_pos := 0\<rparr> in
              if fst (q_header q2 0) = COMMITTED then (Some sizeof_event_header, q2) else (None, q2))
        else (None, q1)))"

definition evq_block_len :: "int \<Rightarrow> int" where
  "evq_block_len len = (len + sizeof_event_header + 8 - 1) AND NOT (8 - 1)"

definition evq_allocate :: "int \<Rightarrow> event_queue \<Rightarrow> int option \<times> event_queue" where
  "evq_allocate len q =
     (let new_len = evq_block_len len;
          cond1 = (q_alloc_pos q - q_free_pos q \<ge> 0);
          cond2 = (q_cap q - q_alloc_pos q - new_len \<ge> 0);
          skip_flag = (cond1 \<and> \<not> cond2);
          new_alloc_pos = (if skip_flag then 0 else q_alloc_pos q);
          allocated = (cond1 \<and> cond2 \<or> q_free_pos q - new_alloc_pos - new_len > 0) in
      if allocated
      then (let q1 = q\<lparr>q_header := (q_header q)(new_alloc_pos := (ALLOCATED, new_len))\<rparr>;
                q2 = (if skip_flag \<and> q_cap q - q_alloc_pos q > sizeof_event_header
                      then q1\<lparr>q_header := (q_header q1)(q_alloc_pos q :=
                                 (SKIPPED, snd (q_header q1 (q_alloc_pos q))))\<rparr>
                      else q1)
            in (Some (new_alloc_pos + sizeof_event_header), q2\<lparr>q_alloc_pos := new_alloc_pos + new_len\<rparr>))
      else (None, q))"

definition evq_commit :: "int \<Rightarrow> event_queue \<Rightarrow> event_queue" where
  "evq_commit ev q =
     q\<lparr>q_header := (q_header q)(ev - sizeof_event_header :=
          (COMMITTED, snd (q_header q (ev - sizeof_event_header))))\<rparr>"

definition evq_free :: "int \<Rightarrow> event_queue \<Rightarrow> event_queue" where
  "evq_free ev q = q\<lparr>q_free_pos := q_free_pos q + snd (q_header q (ev - sizeof_event_header))\<rparr>"

text \<open>
  \<open>allocate_event\<close>: the first attempt, and while it waits one attempt after each of the states the
  other threads leave (\<open>others\<close>), as many as it is given; \<open>None\<close> if it has no answer by then.
\<close>

fun evq_wait :: "int \<Rightarrow> (event_queue \<Rightarrow> event_queue) list \<Rightarrow> event_queue \<Rightarrow> (int \<times> event_queue) option" where
  "evq_wait len [] q = None"
| "evq_wait len (other # others) q =
     (case evq_allocate len (other q) of (Some ev, q') \<Rightarrow> Some (ev, q')
      | (None, q') \<Rightarrow> evq_wait len others q')"

definition evq_allocate_event :: "bool \<Rightarrow> int \<Rightarrow> (event_queue \<Rightarrow> event_queue) list \<Rightarrow> event_queue
    \<Rightarrow> (int option \<times> event_queue) option" where
  "evq_allocate_event wait len others q =
     (case evq_allocate len q of (Some ev, q') \<Rightarrow> Some (Some ev, q')
      | (None, q') \<Rightarrow> (if \<not> wait then Some (None, q')
                       else map_option (\<lambda>(ev, q''). (Some ev, q'')) (evq_wait len others q')))"

section \<open>Blocks in the ring\<close>

lemma block_len_ge: "0 < len \<Longrightarrow> len + 8 \<le> evq_block_len len"
proof -
  let ?x = "len + 15"
  have "(?x AND NOT 7) + (?x AND 7) = ?x AND NOT 7 OR ?x AND 7"
    by (rule disjunctive_add_eq_or) (rule bit_eqI, auto simp: bit_simps)
  also have "\<dots> = ?x" by (rule bit_eqI) (auto simp: bit_simps)
  finally have "(?x AND NOT 7) + (?x AND 7) = ?x" .
  moreover have "?x AND 7 = ?x mod 8"
    using take_bit_eq_mod [of 3 ?x] by (simp add: take_bit_eq_mask mask_eq_exp_minus_1)
  moreover have "?x mod 8 < 8" by simp
  ultimately have "len + 8 \<le> ?x AND NOT 7" by linarith
  then show ?thesis by (simp add: evq_block_len_def sizeof_event_header_def add.commute [of _ len])
qed

text \<open>The blocks of a list lie one behind the other from \<open>a\<close> to \<open>b\<close>, each with room for its header.\<close>

fun tiles :: "int \<Rightarrow> (int \<times> int) list \<Rightarrow> int \<Rightarrow> bool" where
  "tiles a [] b \<longleftrightarrow> a = b"
| "tiles a ((p, l) # bs) b \<longleftrightarrow> p = a \<and> 8 < l \<and> tiles (a + l) bs b"

lemma tiles_le: "tiles a bs b \<Longrightarrow> a \<le> b"
  by (induction bs arbitrary: a) (auto, force)

lemma tiles_append: "tiles a (xs @ ys) b \<longleftrightarrow> (\<exists>m. tiles a xs m \<and> tiles m ys b)"
  by (induction xs arbitrary: a) auto

lemma tiles_in: "tiles a bs b \<Longrightarrow> (p, l) \<in> set bs \<Longrightarrow> a \<le> p \<and> p + l \<le> b \<and> 8 < l"
proof (induction bs arbitrary: a)
  case (Cons x bs)
  then show ?case using tiles_le by (cases x) fastforce
qed simp

lemma tiles_apart:
  "tiles a bs b \<Longrightarrow> (p, l) \<in> set bs \<Longrightarrow> (p', l') \<in> set bs \<Longrightarrow> p < p' \<Longrightarrow> p + l \<le> p'"
proof (induction bs arbitrary: a)
  case (Cons x bs)
  then show ?case using tiles_in [of "a + snd x" bs b] by (cases x) fastforce
qed simp

lemma tiles_distinct: "tiles a bs b \<Longrightarrow> distinct (map fst bs)"
proof (induction bs arbitrary: a)
  case (Cons x bs)
  then show ?case using tiles_in [of "a + snd x" bs b] by (cases x) force
qed simp

text \<open>
  The live blocks \<open>bs\<close> in the order they were allocated. Either they fill the bytes from the free
  to the allocation position, or they fill those from the free position to an end \<open>e\<close> near the
  buffer's (marked \<open>SKIPPED\<close> if a header fits there) and go on from the front.
\<close>

definition ring_straight :: "event_queue \<Rightarrow> (int \<times> int) list \<Rightarrow> bool" where
  "ring_straight q bs \<longleftrightarrow> tiles (q_free_pos q) bs (q_alloc_pos q)"

definition ring_wrapped :: "event_queue \<Rightarrow> (int \<times> int) list \<Rightarrow> bool" where
  "ring_wrapped q bs \<longleftrightarrow> (\<exists>xs ys e. bs = xs @ ys \<and> ys \<noteq> [] \<and> tiles (q_free_pos q) xs e \<and>
     tiles 0 ys (q_alloc_pos q) \<and> q_alloc_pos q < q_free_pos q \<and> e \<le> q_cap q \<and>
     (q_cap q - e > 8 \<longrightarrow> fst (q_header q e) = SKIPPED))"

definition headers_ok :: "event_queue \<Rightarrow> (int \<times> int) list \<Rightarrow> bool" where
  "headers_ok q bs \<longleftrightarrow>
     (\<forall>(p, l) \<in> set bs. snd (q_header q p) = l \<and> fst (q_header q p) \<noteq> SKIPPED)"

definition evq_inv :: "event_queue \<Rightarrow> (int \<times> int) list \<Rightarrow> bool" where
  "evq_inv q bs \<longleftrightarrow> 8 < q_cap q \<and> 0 \<le> q_free_pos q \<and> q_alloc_pos q \<le> q_cap q \<and>
     headers_ok q bs \<and> (ring_straight q bs \<or> ring_wrapped q bs)"

lemma evq_new_inv: "evq_new mem cap = Some q \<Longrightarrow> evq_inv q []"
  by (auto simp: evq_new_def evq_inv_def headers_ok_def ring_straight_def sizeof_event_header_def
      split: if_splits)

lemma inv_in:
  assumes "evq_inv q bs" "(p, l) \<in> set bs"
  shows "0 \<le> p \<and> p + l \<le> q_cap q \<and> 8 < l \<and> snd (q_header q p) = l \<and> fst (q_header q p) \<noteq> SKIPPED"
proof -
  have h: "snd (q_header q p) = l \<and> fst (q_header q p) \<noteq> SKIPPED"
    using assms by (auto simp: evq_inv_def headers_ok_def)
  from assms(1) consider "ring_straight q bs" | "ring_wrapped q bs" by (auto simp: evq_inv_def)
  then show ?thesis
  proof cases
    case 1
    then show ?thesis using assms tiles_in [of _ bs _ p l] h
      by (fastforce simp: evq_inv_def ring_straight_def)
  next
    case 2
    then obtain xs ys e where "bs = xs @ ys" "tiles (q_free_pos q) xs e" "tiles 0 ys (q_alloc_pos q)"
        "e \<le> q_cap q" by (auto simp: ring_wrapped_def)
    then show ?thesis using assms tiles_in [of _ xs _ p l] tiles_in [of _ ys _ p l] h
      by (fastforce simp: evq_inv_def)
  qed
qed

lemma inv_apart:
  assumes "evq_inv q bs" "(p, l) \<in> set bs" "(p', l') \<in> set bs" "p \<noteq> p'"
  shows "p + l \<le> p' \<or> p' + l' \<le> p"
proof -
  from assms(1) consider "ring_straight q bs" | "ring_wrapped q bs" by (auto simp: evq_inv_def)
  then show ?thesis
  proof cases
    case 1
    then have t: "tiles (q_free_pos q) bs (q_alloc_pos q)" by (simp add: ring_straight_def)
    show ?thesis using tiles_apart [OF t assms(2,3)] tiles_apart [OF t assms(3,2)] assms(4) by linarith
  next
    case 2
    then obtain xs ys e where w: "bs = xs @ ys" "tiles (q_free_pos q) xs e" "tiles 0 ys (q_alloc_pos q)"
        "q_alloc_pos q < q_free_pos q" by (auto simp: ring_wrapped_def)
    consider "(p, l) \<in> set xs" "(p', l') \<in> set xs" | "(p, l) \<in> set ys" "(p', l') \<in> set ys"
      | "(p, l) \<in> set xs" "(p', l') \<in> set ys" | "(p, l) \<in> set ys" "(p', l') \<in> set xs"
      using assms(2,3) w(1) by auto
    then show ?thesis
    proof cases
      case 1
      then show ?thesis using tiles_apart [OF w(2) 1] tiles_apart [OF w(2) 1(2,1)] assms(4) by linarith
    next
      case 2
      then show ?thesis using tiles_apart [OF w(3) 2] tiles_apart [OF w(3) 2(2,1)] assms(4) by linarith
    next
      case 3
      then show ?thesis using tiles_in [OF w(2) 3(1)] tiles_in [OF w(3) 3(2)] w(4) by linarith
    next
      case 4
      then show ?thesis using tiles_in [OF w(3) 4(1)] tiles_in [OF w(2) 4(2)] w(4) by linarith
    qed
  qed
qed

lemma inv_distinct:
  assumes "evq_inv q bs"
  shows "distinct (map fst bs)"
proof -
  from assms consider "ring_straight q bs" | "ring_wrapped q bs" by (auto simp: evq_inv_def)
  then show ?thesis
  proof cases
    case 1
    then show ?thesis by (auto simp: ring_straight_def dest: tiles_distinct)
  next
    case 2
    then obtain xs ys e where w: "bs = xs @ ys" "tiles (q_free_pos q) xs e" "tiles 0 ys (q_alloc_pos q)"
        "q_alloc_pos q < q_free_pos q" by (auto simp: ring_wrapped_def)
    have "p \<noteq> p'" if "(p, l) \<in> set xs" "(p', l') \<in> set ys" for p l p' l'
      using tiles_in [OF w(2) that(1)] tiles_in [OF w(3) that(2)] w(4) by auto
    then have "fst ` set xs \<inter> fst ` set ys = {}" by force
    then show ?thesis using w tiles_distinct [OF w(2)] tiles_distinct [OF w(3)] by auto
  qed
qed

section \<open>What the operations do to the blocks\<close>

lemma headers_upd:
  "headers_ok q bs \<Longrightarrow> (\<And>l. (a, l) \<notin> set bs) \<Longrightarrow> headers_ok (q\<lparr>q_header := (q_header q)(a := h)\<rparr>) bs"
  by (auto simp: headers_ok_def split: if_splits)

lemma headers_pos [simp]:
  "headers_ok (q\<lparr>q_alloc_pos := a\<rparr>) bs = headers_ok q bs"
  "headers_ok (q\<lparr>q_free_pos := a\<rparr>) bs = headers_ok q bs"
  by (simp_all add: headers_ok_def)

lemma allocate_rear:
  assumes "evq_inv q bs" "q_free_pos q \<le> q_alloc_pos q" "q_alloc_pos q + L \<le> q_cap q" "8 < L"
  shows "evq_inv (q\<lparr>q_header := (q_header q)(q_alloc_pos q := (ALLOCATED, L)), q_alloc_pos := q_alloc_pos q + L\<rparr>)
           (bs @ [(q_alloc_pos q, L)])"
proof -
  have t: "tiles (q_free_pos q) bs (q_alloc_pos q)"
    using assms(1,2) by (auto simp: evq_inv_def ring_straight_def ring_wrapped_def)
  have "(q_alloc_pos q, l) \<notin> set bs" for l using tiles_in [OF t, of "q_alloc_pos q" l] by auto
  then have "headers_ok (q\<lparr>q_header := (q_header q)(q_alloc_pos q := (ALLOCATED, L))\<rparr>) bs"
    using assms(1) by (intro headers_upd) (auto simp: evq_inv_def)
  then show ?thesis
    using assms t by (auto simp: evq_inv_def ring_straight_def tiles_append headers_ok_def)
qed

lemma allocate_front:
  assumes "evq_inv q bs" "q_free_pos q \<le> q_alloc_pos q" "L < q_free_pos q" "8 < L"
    and "h' = (q_header q)(0 := (ALLOCATED, L))"
    and "h = (if q_cap q - q_alloc_pos q > 8
              then h'(q_alloc_pos q := (SKIPPED, k)) else h')"
  shows "evq_inv (q\<lparr>q_header := h, q_alloc_pos := L\<rparr>) (bs @ [(0, L)])"
proof -
  have t: "tiles (q_free_pos q) bs (q_alloc_pos q)"
    using assms(1,2) by (auto simp: evq_inv_def ring_straight_def ring_wrapped_def)
  have "h p = q_header q p" if "(p, l) \<in> set bs" for p l
    using tiles_in [OF t that] assms by auto
  then have "headers_ok (q\<lparr>q_header := h\<rparr>) bs"
    using assms(1) by (fastforce simp: evq_inv_def headers_ok_def)
  moreover have "h 0 = (ALLOCATED, L)" using assms by auto
  moreover have "ring_wrapped (q\<lparr>q_header := h, q_alloc_pos := L\<rparr>) (bs @ [(0, L)])"
    unfolding ring_wrapped_def
    by (rule exI [of _ bs], rule exI [of _ "[(0, L)]"], rule exI [of _ "q_alloc_pos q"])
      (use assms t in \<open>auto simp: evq_inv_def\<close>)
  ultimately show ?thesis using assms by (auto simp: evq_inv_def headers_ok_def)
qed

lemma allocate_gap:
  assumes "evq_inv q bs" "q_alloc_pos q < q_free_pos q" "q_alloc_pos q + L < q_free_pos q" "8 < L"
  shows "evq_inv (q\<lparr>q_header := (q_header q)(q_alloc_pos q := (ALLOCATED, L)), q_alloc_pos := q_alloc_pos q + L\<rparr>)
           (bs @ [(q_alloc_pos q, L)])"
proof -
  have "\<not> ring_straight q bs" using assms(2) by (auto simp: ring_straight_def dest: tiles_le)
  with assms(1) obtain xs ys e where w: "bs = xs @ ys" "ys \<noteq> []" "tiles (q_free_pos q) xs e"
      "tiles 0 ys (q_alloc_pos q)" "e \<le> q_cap q" "q_cap q - e > 8 \<longrightarrow> fst (q_header q e) = SKIPPED"
    by (auto simp: evq_inv_def ring_wrapped_def)
  have "(q_alloc_pos q, l) \<notin> set bs" for l
    using tiles_in [OF w(3), of "q_alloc_pos q" l] tiles_in [OF w(4), of "q_alloc_pos q" l] w(1) assms(2) by auto
  then have "headers_ok (q\<lparr>q_header := (q_header q)(q_alloc_pos q := (ALLOCATED, L))\<rparr>) bs"
    using assms(1) by (intro headers_upd) (auto simp: evq_inv_def)
  moreover have "ring_wrapped (q\<lparr>q_header := (q_header q)(q_alloc_pos q := (ALLOCATED, L)), q_alloc_pos := q_alloc_pos q + L\<rparr>)
      (bs @ [(q_alloc_pos q, L)])"
    unfolding ring_wrapped_def
    by (rule exI [of _ xs], rule exI [of _ "ys @ [(q_alloc_pos q, L)]"], rule exI [of _ e])
      (use assms w tiles_le [OF w(3)] in \<open>auto simp: tiles_append\<close>)
  ultimately show ?thesis
    using assms tiles_le [OF w(3)] w(5) by (auto simp: evq_inv_def headers_ok_def)
qed

lemma allocate_inv:
  assumes "evq_inv q bs" "0 < len" "evq_allocate len q = (Some ev, q')"
  shows "evq_inv q' (bs @ [(ev - 8, evq_block_len len)]) \<and> q_free_pos q' = q_free_pos q \<and> q_cap q' = q_cap q"
proof -
  let ?L = "evq_block_len len"
  have L: "8 < ?L" using block_len_ge [OF assms(2)] assms(2) by linarith
  consider "q_free_pos q \<le> q_alloc_pos q" "q_alloc_pos q + ?L \<le> q_cap q"
    | "q_free_pos q \<le> q_alloc_pos q" "\<not> q_alloc_pos q + ?L \<le> q_cap q"
    | "q_alloc_pos q < q_free_pos q" by linarith
  then show ?thesis
  proof cases
    case 1
    then show ?thesis using allocate_rear [OF assms(1) 1 L] assms(3)
      by (auto simp: evq_allocate_def Let_def sizeof_event_header_def split: if_splits)
  next
    case 2
    then have f: "?L < q_free_pos q" using assms(3)
      by (auto simp: evq_allocate_def Let_def split: if_splits)
    show ?thesis using 2 f allocate_front [OF assms(1) 2(1) f L refl refl] assms(3)
      by (auto simp: evq_allocate_def Let_def sizeof_event_header_def split: if_splits)
  next
    case 3
    then have f: "q_alloc_pos q + ?L < q_free_pos q" using assms(3)
      by (auto simp: evq_allocate_def Let_def split: if_splits)
    show ?thesis using 3 f allocate_gap [OF assms(1) 3 f L] assms(3)
      by (auto simp: evq_allocate_def Let_def sizeof_event_header_def split: if_splits)
  qed
qed

lemma allocate_None: "evq_allocate len q = (None, q') \<Longrightarrow> q' = q"
  by (auto simp: evq_allocate_def Let_def split: if_splits)

text \<open>What is written into a live block without touching its size keeps the queue well formed.\<close>

lemma write_inv:
  assumes "evq_inv q bs" "(p, l) \<in> set bs"
    and same: "\<And>a. a < p \<or> p + l \<le> a \<Longrightarrow> h a = q_header q a"
    and at: "snd (h p) = snd (q_header q p)" "fst (h p) \<noteq> SKIPPED"
  shows "evq_inv (q\<lparr>q_header := h\<rparr>) bs"
proof -
  have "snd (h p') = l' \<and> fst (h p') \<noteq> SKIPPED" if "(p', l') \<in> set bs" for p' l'
    using inv_apart [OF assms(1,2) that] inv_in [OF assms(1) that] inv_in [OF assms(1,2)] same [of p'] at
    by (cases "p' = p") auto
  then have "headers_ok (q\<lparr>q_header := h\<rparr>) bs" by (auto simp: headers_ok_def)
  moreover have "ring_wrapped (q\<lparr>q_header := h\<rparr>) bs" if "ring_wrapped q bs"
  proof -
    from that obtain xs ys e where w: "bs = xs @ ys" "ys \<noteq> []" "tiles (q_free_pos q) xs e"
        "tiles 0 ys (q_alloc_pos q)" "q_alloc_pos q < q_free_pos q" "e \<le> q_cap q"
        "q_cap q - e > 8 \<longrightarrow> fst (q_header q e) = SKIPPED"
      by (auto simp: ring_wrapped_def)
    have "p + l \<le> e"
      using assms(2) w(1) tiles_in [OF w(3), of p l] tiles_in [OF w(4), of p l] w(5) tiles_le [OF w(3)] by auto
    then have "h e = q_header q e" by (simp add: same)
    then show ?thesis using w unfolding ring_wrapped_def
      by (intro exI [of _ xs] exI [of _ ys] exI [of _ e]) simp
  qed
  ultimately show ?thesis using assms(1) by (auto simp: evq_inv_def ring_straight_def)
qed

lemma commit_inv:
  assumes "evq_inv q bs" "(ev - 8, l) \<in> set bs"
  shows "evq_inv (evq_commit ev q) bs"
  unfolding evq_commit_def
  by (rule write_inv [OF assms]) (use inv_in [OF assms] in \<open>auto simp: sizeof_event_header_def\<close>)

lemma free_inv:
  assumes "evq_inv q ((p, l) # bs)" "q_free_pos q = p"
  shows "evq_inv (evq_free (p + 8) q) bs"
proof -
  have l: "snd (q_header q p) = l" "8 < l" using inv_in [OF assms(1)] by auto
  from assms(1) consider "ring_straight q ((p, l) # bs)" | "ring_wrapped q ((p, l) # bs)"
    by (auto simp: evq_inv_def)
  then show ?thesis
  proof cases
    case 1
    then show ?thesis using assms l
      by (auto simp: evq_free_def sizeof_event_header_def evq_inv_def ring_straight_def headers_ok_def)
  next
    case 2
    then obtain xs ys e where w: "(p, l) # bs = xs @ ys" "ys \<noteq> []" "tiles (q_free_pos q) xs e"
        "tiles 0 ys (q_alloc_pos q)" "q_alloc_pos q < q_free_pos q" "e \<le> q_cap q"
        "q_cap q - e > 8 \<longrightarrow> fst (q_header q e) = SKIPPED"
      by (auto simp: ring_wrapped_def)
    have "xs \<noteq> []"
    proof
      assume "xs = []"
      with w(1) have "ys = (p, l) # bs" by simp
      with w(4,5) assms(2) show False using tiles_le [of 0 ys "q_alloc_pos q"] by auto
    qed
    then obtain xs' where x: "xs = (p, l) # xs'" "bs = xs' @ ys" using w(1) by (cases xs) auto
    then have "ring_wrapped (evq_free (p + 8) q) bs"
      unfolding ring_wrapped_def
      by (intro exI [of _ xs'] exI [of _ ys] exI [of _ e])
        (use w l assms(2) in \<open>auto simp: evq_free_def sizeof_event_header_def\<close>)
    then show ?thesis using assms l
      by (auto simp: evq_free_def sizeof_event_header_def evq_inv_def headers_ok_def)
  qed
qed

text \<open>The header that decides what \<open>pop_event\<close> returns is that of the oldest live block.\<close>

definition evq_front :: "event_queue \<Rightarrow> (int \<times> int) list \<Rightarrow> int option" where
  "evq_front q bs =
     (case bs of [] \<Rightarrow> None
      | (p, l) # _ \<Rightarrow> if fst (q_header q p) = COMMITTED then Some (p + 8) else None)"

lemma pop_straight:
  assumes "evq_inv q bs" "ring_straight q bs"
  shows "evq_pop q = (evq_front q bs, q)"
proof (cases bs)
  case Nil
  then show ?thesis using assms by (simp add: ring_straight_def evq_pop_def evq_front_def)
next
  case (Cons b bs')
  obtain p l where b: "b = (p, l)" by (cases b)
  then have "p = q_free_pos q" "8 < l" "p + l \<le> q_alloc_pos q" "fst (q_header q p) \<noteq> SKIPPED"
    using assms(2) Cons inv_in [OF assms(1), of p l] by (auto simp: ring_straight_def dest: tiles_le)
  then show ?thesis using assms(1) Cons b
    by (auto simp: evq_pop_def evq_front_def Let_def sizeof_event_header_def evq_inv_def)
qed

lemma pop_wrapped:
  assumes "evq_inv q bs" "ring_wrapped q bs"
  shows "\<exists>f. evq_pop q = (evq_front q bs, q\<lparr>q_free_pos := f\<rparr>) \<and> evq_inv (q\<lparr>q_free_pos := f\<rparr>) bs \<and>
             f = fst (hd bs)"
proof -
  from assms(2) obtain xs ys e where w: "bs = xs @ ys" "ys \<noteq> []" "tiles (q_free_pos q) xs e"
      "tiles 0 ys (q_alloc_pos q)" "q_alloc_pos q < q_free_pos q" "e \<le> q_cap q"
      "q_cap q - e > 8 \<longrightarrow> fst (q_header q e) = SKIPPED"
    by (auto simp: ring_wrapped_def)
  show ?thesis
  proof (cases xs)
    case Nil
    then obtain l ys' where y: "bs = (0, l) # ys'" using w by (cases ys) auto
    have "fst (q_header q 0) \<noteq> SKIPPED" using inv_in [OF assms(1), of 0 l] y by simp
    then have "evq_pop q = (evq_front q bs, q\<lparr>q_free_pos := 0\<rparr>)"
      using Nil w y by (auto simp: evq_pop_def evq_front_def Let_def sizeof_event_header_def)
    moreover have "evq_inv (q\<lparr>q_free_pos := 0\<rparr>) bs"
      using assms(1) Nil w by (auto simp: evq_inv_def ring_straight_def)
    ultimately show ?thesis using y by auto
  next
    case (Cons x xs')
    then obtain l where x: "x = (q_free_pos q, l)" using w(3) by (cases x) auto
    then have "(q_free_pos q, l) \<in> set bs" using w(1) Cons by simp
    then have "fst (q_header q (q_free_pos q)) \<noteq> SKIPPED" "q_free_pos q + l \<le> q_cap q" "8 < l"
      using inv_in [OF assms(1)] by auto
    then have "evq_pop q = (evq_front q bs, q)"
      using w x Cons by (auto simp: evq_pop_def evq_front_def Let_def sizeof_event_header_def)
    then show ?thesis using assms(1) w x Cons by (intro exI [of _ "q_free_pos q"]) auto
  qed
qed

lemma pop_inv:
  assumes "evq_inv q bs" "evq_pop q = (r, q')"
  shows "evq_inv q' bs \<and> r = evq_front q bs \<and> q_header q' = q_header q \<and> q_cap q' = q_cap q \<and>
         (bs \<noteq> [] \<longrightarrow> q_free_pos q' = fst (hd bs))"
proof -
  from assms(1) consider "ring_straight q bs" | "ring_wrapped q bs" by (auto simp: evq_inv_def)
  then show ?thesis
  proof cases
    case 1
    then have "bs \<noteq> [] \<longrightarrow> q_free_pos q = fst (hd bs)"
      by (cases bs) (auto simp: ring_straight_def)
    then show ?thesis using pop_straight [OF assms(1) 1] assms by simp
  next
    case 2
    then show ?thesis using pop_wrapped [OF assms(1) 2] assms(2) by auto
  qed
qed

section \<open>Runs\<close>

text \<open>
  Producers and the consumer in any order: producers commit and write only events that are not yet
  destroyed (a write reaches the bytes behind the event's header), the consumer destroys what it
  popped last. The pointers handed out and those destroyed are logged.
\<close>

datatype evq_op = EAllocate int | ECommit int | EWrite int "int \<Rightarrow> block_state \<times> int" | EPop | EDestroy

record evq_run_state =
  r_queue :: event_queue
  r_allocated :: "int list"
  r_destroyed :: "int list"
  r_popped :: "int option"

definition evq_start :: "event_queue \<Rightarrow> evq_run_state" where
  "evq_start q = \<lparr>r_queue = q, r_allocated = [], r_destroyed = [], r_popped = None\<rparr>"

definition evq_live :: "evq_run_state \<Rightarrow> int list" where
  "evq_live st = drop (length (r_destroyed st)) (r_allocated st)"

definition evq_scribble :: "int \<Rightarrow> (int \<Rightarrow> block_state \<times> int) \<Rightarrow> event_queue \<Rightarrow> event_queue" where
  "evq_scribble ev h q = q\<lparr>q_header := (\<lambda>a. if ev - 8 < a \<and> a < ev - 8 + snd (q_header q (ev - 8))
                                           then h a else q_header q a)\<rparr>"

fun evq_step :: "evq_op \<Rightarrow> evq_run_state \<Rightarrow> evq_run_state" where
  "evq_step (EAllocate len) st =
     (case evq_allocate len (r_queue st) of
        (Some ev, q) \<Rightarrow> st\<lparr>r_queue := q, r_allocated := r_allocated st @ [ev]\<rparr>
      | (None, q) \<Rightarrow> st\<lparr>r_queue := q\<rparr>)"
| "evq_step (ECommit ev) st =
     (if ev \<in> set (evq_live st) then st\<lparr>r_queue := evq_commit ev (r_queue st)\<rparr> else st)"
| "evq_step (EWrite ev h) st =
     (if ev \<in> set (evq_live st) then st\<lparr>r_queue := evq_scribble ev h (r_queue st)\<rparr> else st)"
| "evq_step EPop st = (case evq_pop (r_queue st) of (r, q) \<Rightarrow> st\<lparr>r_queue := q, r_popped := r\<rparr>)"
| "evq_step EDestroy st =
     (case r_popped st of None \<Rightarrow> st
      | Some ev \<Rightarrow> st\<lparr>r_queue := evq_free ev (r_queue st), r_destroyed := r_destroyed st @ [ev],
                    r_popped := None\<rparr>)"

definition evq_run :: "evq_op list \<Rightarrow> evq_run_state \<Rightarrow> evq_run_state" where
  "evq_run ops st = fold evq_step ops st"

definition run_inv :: "evq_run_state \<Rightarrow> (int \<times> int) list \<Rightarrow> bool" where
  "run_inv st bs \<longleftrightarrow> evq_inv (r_queue st) bs \<and>
     r_allocated st = r_destroyed st @ map (\<lambda>b. fst b + 8) bs \<and>
     (\<forall>ev. r_popped st = Some ev \<longrightarrow> bs \<noteq> [] \<and> ev = fst (hd bs) + 8 \<and> q_free_pos (r_queue st) = fst (hd bs))"

lemma run_inv_live: "run_inv st bs \<Longrightarrow> evq_live st = map (\<lambda>b. fst b + 8) bs"
  by (simp add: run_inv_def evq_live_def)

lemma live_block:
  assumes "run_inv st bs" "ev \<in> set (evq_live st)"
  obtains l where "(ev - 8, l) \<in> set bs"
  using assms by (force simp: run_inv_live)

section \<open>The queue as a list of events\<close>

text \<open>
  What the clients see of a run: the answers of \<open>allocate\<close> and \<open>pop_event\<close>, and the calls of
  \<open>commit_event\<close> and \<open>destroy_event\<close>.
\<close>

datatype evq_obs = OAllocated "int option" | OCommitted int | OPopped "int option" | ODestroyed int

fun evq_shows :: "evq_op \<Rightarrow> evq_run_state \<Rightarrow> evq_obs list" where
  "evq_shows (EAllocate len) st = [OAllocated (fst (evq_allocate len (r_queue st)))]"
| "evq_shows (ECommit ev) st = (if ev \<in> set (evq_live st) then [OCommitted ev] else [])"
| "evq_shows (EWrite ev h) st = []"
| "evq_shows EPop st = [OPopped (fst (evq_pop (r_queue st)))]"
| "evq_shows EDestroy st = (case r_popped st of None \<Rightarrow> [] | Some ev \<Rightarrow> [ODestroyed ev])"

fun evq_trace :: "evq_op list \<Rightarrow> evq_run_state \<Rightarrow> evq_obs list" where
  "evq_trace [] st = []"
| "evq_trace (op # ops) st = evq_shows op st @ evq_trace ops (evq_step op st)"

text \<open>
  The promise: a list of the events in the order of their allocation, each with a mark that only
  its commit sets. A pop sees the first event if that is marked, and only the first is destroyed.
\<close>

fun fifo_ok :: "(int \<times> bool) list \<Rightarrow> evq_obs list \<Rightarrow> bool" where
  "fifo_ok w [] = True"
| "fifo_ok w (OAllocated None # os) = fifo_ok w os"
| "fifo_ok w (OAllocated (Some ev) # os) = (ev \<notin> fst ` set w \<and> fifo_ok (w @ [(ev, False)]) os)"
| "fifo_ok w (OCommitted ev # os) =
     (ev \<in> fst ` set w \<and> fifo_ok (map (\<lambda>(e, c). (e, c \<or> e = ev)) w) os)"
| "fifo_ok w (OPopped r # os) =
     (r = (case w of [] \<Rightarrow> None | (ev, committed) # _ \<Rightarrow> if committed then Some ev else None) \<and>
      fifo_ok w os)"
| "fifo_ok w (ODestroyed ev # os) = (w \<noteq> [] \<and> fst (hd w) = ev \<and> fifo_ok (tl w) os)"

definition evq_view :: "event_queue \<Rightarrow> (int \<times> int) list \<Rightarrow> (int \<times> bool) list" where
  "evq_view q bs = map (\<lambda>(p, l). (p + 8, fst (q_header q p) = COMMITTED)) bs"

lemma evq_view_cong:
  "(\<And>p l. (p, l) \<in> set bs \<Longrightarrow> fst (q_header q' p) = fst (q_header q p)) \<Longrightarrow> evq_view q' bs = evq_view q bs"
  by (auto simp: evq_view_def)

lemma evq_view_fst: "fst ` set (evq_view q bs) = (\<lambda>b. fst b + 8) ` set bs"
  by (force simp: evq_view_def)

text \<open>An allocation leaves the marks of the live events alone and its own event unmarked.\<close>

lemma allocate_view:
  assumes "evq_inv q bs" "0 < len" "evq_allocate len q = (Some ev, q')"
  shows "evq_view q' (bs @ [(ev - 8, evq_block_len len)]) = evq_view q bs @ [(ev, False)]"
    "ev \<notin> fst ` set (evq_view q bs)"
proof -
  let ?L = "evq_block_len len"
  have inv: "evq_inv q' (bs @ [(ev - 8, ?L)])" using allocate_inv [OF assms] by simp
  have live: "fst (q_header q' p) \<noteq> SKIPPED" if "(p, l) \<in> set bs \<or> p = ev - 8" for p l
    using inv_in [OF inv, of p] that by auto
  have h: "q_header q' a = q_header q a \<or> fst (q_header q' a) = SKIPPED \<or>
      a = ev - 8 \<and> q_header q' a = (ALLOCATED, ?L)" for a
    using assms(3) by (auto simp: evq_allocate_def Let_def sizeof_event_header_def split: if_splits)
  have at: "q_header q' (ev - 8) = (ALLOCATED, ?L) \<or> fst (q_header q' (ev - 8)) = SKIPPED"
    using assms(3) by (auto simp: evq_allocate_def Let_def sizeof_event_header_def split: if_splits)
  have new: "p \<noteq> ev - 8" if "(p, l) \<in> set bs" for p l
    using inv_distinct [OF inv] that by force
  have "evq_view q' bs = evq_view q bs"
  proof (rule evq_view_cong)
    fix p l assume b: "(p, l) \<in> set bs"
    show "fst (q_header q' p) = fst (q_header q p)"
      using h [of p] live [of p l] new [OF b] b by auto
  qed
  then show "evq_view q' (bs @ [(ev - 8, ?L)]) = evq_view q bs @ [(ev, False)]"
    using at live [of "ev - 8"] by (auto simp: evq_view_def)
  show "ev \<notin> fst ` set (evq_view q bs)"
    using new unfolding evq_view_fst by force
qed

lemma commit_view:
  "evq_view (evq_commit ev q) bs = map (\<lambda>(e, c). (e, c \<or> e = ev)) (evq_view q bs)"
  by (auto simp: evq_view_def evq_commit_def sizeof_event_header_def)

lemma scribble_view:
  assumes "evq_inv q bs" "(ev - 8, l) \<in> set bs"
  shows "evq_view (evq_scribble ev h q) bs = evq_view q bs"
proof (rule evq_view_cong)
  fix p l' assume b: "(p, l') \<in> set bs"
  have "\<not> (ev - 8 < p \<and> p < ev - 8 + snd (q_header q (ev - 8)))"
    using inv_apart [OF assms b] inv_in [OF assms] inv_in [OF assms(1) b] by auto
  then show "fst (q_header (evq_scribble ev h q) p) = fst (q_header q p)"
    by (auto simp: evq_scribble_def)
qed

text \<open>One operation: what it shows is what the list of events does.\<close>

lemma step_view:
  assumes "run_inv st bs" "\<And>len. op = EAllocate len \<Longrightarrow> 0 < len"
  shows "\<exists>bs'. run_inv (evq_step op st) bs' \<and>
           (fifo_ok (evq_view (r_queue (evq_step op st)) bs') os \<longrightarrow>
            fifo_ok (evq_view (r_queue st) bs) (evq_shows op st @ os))"
proof (cases op)
  case (EAllocate len)
  obtain r q where a: "evq_allocate len (r_queue st) = (r, q)" by fastforce
  show ?thesis
  proof (cases r)
    case None
    then show ?thesis using a assms(1) allocate_None [of len "r_queue st" q] EAllocate
      by (intro exI [of _ bs]) (auto simp: run_inv_def)
  next
    case (Some ev)
    have i: "evq_inv (r_queue st) bs" "0 < len" using assms EAllocate by (auto simp: run_inv_def)
    note all = allocate_inv [OF i] allocate_view [OF i]
    have "run_inv (evq_step op st) (bs @ [(ev - 8, evq_block_len len)])"
      using all(1) a Some assms(1) EAllocate by (auto simp: run_inv_def)
    then show ?thesis using all(2,3) a Some EAllocate
      by (intro exI [of _ "bs @ [(ev - 8, evq_block_len len)]"]) simp
  qed
next
  case (ECommit ev)
  show ?thesis
  proof (cases "ev \<in> set (evq_live st)")
    case True
    with assms(1) obtain l where l: "(ev - 8, l) \<in> set bs" by (rule live_block)
    then have "run_inv (evq_step op st) bs"
      using commit_inv [of "r_queue st" bs ev l] assms(1) True ECommit
      by (auto simp: run_inv_def evq_commit_def)
    moreover have "ev \<in> fst ` set (evq_view (r_queue st) bs)"
      using l unfolding evq_view_fst by force
    ultimately show ?thesis using True ECommit
      by (intro exI [of _ bs]) (simp add: commit_view)
  qed (use assms(1) ECommit in auto)
next
  case (EWrite ev h)
  show ?thesis
  proof (cases "ev \<in> set (evq_live st)")
    case True
    with assms(1) obtain l where b: "(ev - 8, l) \<in> set bs" by (rule live_block)
    have i: "evq_inv (r_queue st) bs" using assms(1) by (simp add: run_inv_def)
    have "evq_inv (evq_scribble ev h (r_queue st)) bs"
      unfolding evq_scribble_def by (rule write_inv [OF i b]) (use inv_in [OF i b] in auto)
    then have "run_inv (evq_step op st) bs"
      using assms(1) True EWrite by (auto simp: run_inv_def evq_scribble_def)
    then show ?thesis using True EWrite scribble_view [OF i b]
      by (intro exI [of _ bs]) simp
  qed (use assms(1) EWrite in auto)
next
  case EPop
  obtain r q where p: "evq_pop (r_queue st) = (r, q)" by fastforce
  then have q: "evq_inv q bs \<and> r = evq_front (r_queue st) bs \<and> q_header q = q_header (r_queue st) \<and>
      (bs \<noteq> [] \<longrightarrow> q_free_pos q = fst (hd bs))"
    using pop_inv [of "r_queue st" bs r q] assms(1) by (simp add: run_inv_def)
  then have "run_inv (evq_step op st) bs"
    using p EPop assms(1) by (auto simp: run_inv_def evq_front_def split: list.splits if_splits)
  moreover have "evq_view q bs = evq_view (r_queue st) bs" using q by (simp add: evq_view_def)
  moreover have "r = (case evq_view (r_queue st) bs of [] \<Rightarrow> None
      | (ev, committed) # _ \<Rightarrow> if committed then Some ev else None)"
    using q by (auto simp: evq_front_def evq_view_def split: list.splits)
  ultimately show ?thesis using p EPop by (intro exI [of _ bs]) simp
next
  case EDestroy
  show ?thesis
  proof (cases "r_popped st")
    case None
    then show ?thesis using EDestroy assms(1) by auto
  next
    case (Some ev)
    then obtain p l bs' where b: "bs = (p, l) # bs'" "ev = p + 8" "q_free_pos (r_queue st) = p"
      using assms(1) by (cases bs) (auto simp: run_inv_def)
    then have "run_inv (evq_step op st) bs'"
      using free_inv [of "r_queue st" p l bs'] assms(1) Some EDestroy by (auto simp: run_inv_def)
    then show ?thesis using b Some EDestroy
      by (intro exI [of _ bs']) (simp add: evq_view_def evq_free_def)
  qed
qed

lemma step_inv:
  assumes "run_inv st bs" "\<And>len. op = EAllocate len \<Longrightarrow> 0 < len"
  shows "\<exists>bs. run_inv (evq_step op st) bs"
  using step_view [OF assms] by blast

lemma run_inv_run:
  assumes "evq_new mem cap = Some q" "\<forall>len. EAllocate len \<in> set ops \<longrightarrow> 0 < len"
  shows "\<exists>bs. run_inv (evq_run ops (evq_start q)) bs"
proof -
  have "\<exists>bs. run_inv (evq_run ops st) bs"
    if "run_inv st bs0" "\<forall>len. EAllocate len \<in> set ops \<longrightarrow> 0 < len" for st bs0
    using that
  proof (induction ops arbitrary: st bs0)
    case (Cons op ops)
    from step_inv [OF Cons.prems(1), of op] Cons.prems(2) obtain bs1 where "run_inv (evq_step op st) bs1" by auto
    from Cons.IH [OF this] Cons.prems(2) show ?case by (simp add: evq_run_def)
  qed (auto simp: evq_run_def)
  moreover have "run_inv (evq_start q) []" using evq_new_inv [OF assms(1)] by (simp add: run_inv_def evq_start_def)
  ultimately show ?thesis using assms(2) by blast
qed

lemma trace_view:
  "run_inv st bs \<Longrightarrow> \<forall>len. EAllocate len \<in> set ops \<longrightarrow> 0 < len \<Longrightarrow>
   fifo_ok (evq_view (r_queue st) bs) (evq_trace ops st)"
proof (induction ops arbitrary: st bs)
  case (Cons op ops)
  have pos: "\<And>len. op = EAllocate len \<Longrightarrow> 0 < len" using Cons.prems(2) by auto
  from step_view [OF Cons.prems(1) pos, where os = "evq_trace ops (evq_step op st)"] obtain bs' where
    "run_inv (evq_step op st) bs'"
    "fifo_ok (evq_view (r_queue (evq_step op st)) bs') (evq_trace ops (evq_step op st)) \<longrightarrow>
     fifo_ok (evq_view (r_queue st) bs) (evq_trace (op # ops) st)" by auto
  with Cons.IH Cons.prems(2) show ?case by simp
qed simp

section \<open>Properties\<close>

text \<open>C23. The queue is first in, first out, however the ring wraps: in any run, \<open>pop_event\<close> returns the
  oldest event that is not yet destroyed if \<open>commit_event\<close> has been called on it since it was
  allocated, and nothing otherwise, even if later events are committed; so events are popped and
  destroyed in the order of their allocation, and none before its commit.\<close>

theorem event_queue_fifo:
  assumes "evq_new mem cap = Some q" and "\<forall>len. EAllocate len \<in> set ops \<longrightarrow> 0 < len"
  shows "fifo_ok [] (evq_trace ops (evq_start q))"
proof -
  have "run_inv (evq_start q) []" using evq_new_inv [OF assms(1)] by (simp add: run_inv_def evq_start_def)
  from trace_view [OF this assms(2)] show ?thesis by (simp add: evq_view_def)
qed

text \<open>C24. A block handed out lies inside the buffer, has room for the event and its header, and shares no
  byte with the block of any event that is not yet destroyed.\<close>

theorem event_queue_exclusive:
  assumes "evq_new mem cap = Some q" and "\<forall>len. EAllocate len \<in> set ops \<longrightarrow> 0 < len"
    and "st = evq_run ops (evq_start q)" and "evq_allocate len (r_queue st) = (Some ev, q')" and "0 < len"
  shows "8 \<le> ev \<and> ev + len \<le> q_cap (r_queue st) \<and>
         list_all (\<lambda>ev'. ev + len \<le> ev' - 8 \<or> ev' - 8 + snd (q_header q' (ev' - 8)) \<le> ev - 8) (evq_live st)"
proof -
  obtain bs where i: "run_inv st bs" using run_inv_run [OF assms(1,2)] assms(3) by auto
  let ?L = "evq_block_len len"
  have q': "evq_inv q' (bs @ [(ev - 8, ?L)])" "q_cap q' = q_cap (r_queue st)"
    using allocate_inv [of "r_queue st" bs len ev q'] i assms(4,5) by (auto simp: run_inv_def)
  have apart: "ev + len \<le> p \<or> p + snd (q_header q' p) \<le> ev - 8" if b: "(p, l) \<in> set bs" for p l
  proof -
    have "p \<noteq> ev - 8" using inv_distinct [OF q'(1)] b by force
    then have "p + l \<le> ev - 8 \<or> ev - 8 + ?L \<le> p"
      using inv_apart [OF q'(1), of p l "ev - 8" ?L] b by auto
    moreover have "snd (q_header q' p) = l" using inv_in [OF q'(1), of p l] b by auto
    ultimately show ?thesis using block_len_ge [OF assms(5)] by linarith
  qed
  have "8 \<le> ev \<and> ev + len \<le> q_cap (r_queue st)"
    using inv_in [OF q'(1), of "ev - 8" ?L] q'(2) block_len_ge [OF assms(5)] by auto
  then show ?thesis using i by (auto simp: run_inv_live list_all_iff) (use apart in fastforce)
qed

definition demo_evq :: event_queue where
  "demo_evq = \<lparr>q_cap = 64, q_alloc_pos = 0, q_free_pos = 0, q_header = (\<lambda>_. (COMMITTED, 0))\<rparr>"

definition demo_ops :: "evq_op list" where
  "demo_ops = [EAllocate 24, EAllocate 8, ECommit 8, EPop, EDestroy]"

lemma demo_evq_new: "evq_new (\<lambda>_. (COMMITTED, 0)) 64 = Some demo_evq"
  by (simp add: evq_new_def demo_evq_def sizeof_event_header_def)

text \<open>After the run: one event waits at offset 40, the next block goes to the front of the ring.\<close>

lemma demo_run:
  "r_allocated (evq_run demo_ops (evq_start demo_evq)) = [8, 40]"
  "evq_live (evq_run demo_ops (evq_start demo_evq)) = [40]"
  "fst (evq_allocate 16 (r_queue (evq_run demo_ops (evq_start demo_evq)))) = Some 8"
  by (simp_all add: demo_ops_def demo_evq_def evq_run_def evq_start_def evq_allocate_def evq_block_len_def
      evq_commit_def evq_pop_def evq_free_def evq_live_def sizeof_event_header_def Let_def)

text \<open>Two events, the second committed first: it waits for the first.\<close>

lemma demo_trace:
  "evq_trace [EAllocate 24, EAllocate 8, ECommit 40, EPop, ECommit 8, EPop, EDestroy, EPop] (evq_start demo_evq) =
     [OAllocated (Some 8), OAllocated (Some 40), OCommitted 40, OPopped None, OCommitted 8,
      OPopped (Some 8), ODestroyed 8, OPopped (Some 40)]"
  by (simp add: demo_evq_def evq_start_def evq_allocate_def evq_block_len_def
      evq_commit_def evq_pop_def evq_free_def evq_live_def sizeof_event_header_def Let_def)

theorem event_queue_fifo_witness:
  "fifo_ok [] [OAllocated (Some 8), OAllocated (Some 40), OCommitted 40, OPopped None, OCommitted 8,
      OPopped (Some 8), ODestroyed 8, OPopped (Some 40)]"
  using event_queue_fifo [OF demo_evq_new, of "[EAllocate 24, EAllocate 8, ECommit 40, EPop, ECommit 8,
    EPop, EDestroy, EPop]"] unfolding demo_trace by simp

theorem event_queue_exclusive_witness:
  "list_all (\<lambda>ev'. 24 \<le> ev' - 8 \<or>
     ev' - 8 + snd (q_header (snd (evq_allocate 16 (r_queue (evq_run demo_ops (evq_start demo_evq))))) (ev' - 8)) \<le> 0)
     [40]"
proof -
  let ?q = "r_queue (evq_run demo_ops (evq_start demo_evq))"
  have a: "evq_allocate 16 ?q = (Some 8, snd (evq_allocate 16 ?q))"
    using demo_run(3) by (simp add: prod_eq_iff)
  show ?thesis
    using event_queue_exclusive [OF demo_evq_new _ refl a] demo_run(2) by (simp add: demo_ops_def)
qed

text \<open>A queue that is empty at a position with less room behind it than a block needs, and not more
  before it, refuses the block although it could hold it: no consumer can help, since there is
  nothing to pop, and a waiting \<open>allocate_event\<close> never returns.\<close>

lemma event_queue_empty_starves:
  assumes "q_alloc_pos q = q_free_pos q" and "q_cap q - q_free_pos q < evq_block_len len"
    and "q_free_pos q \<le> evq_block_len len"
  shows "evq_allocate_event True len (replicate n (snd \<circ> evq_pop)) q = None"
proof -
  have "evq_allocate len q = (None, q)" "evq_pop q = (None, q)"
    using assms by (simp_all add: evq_allocate_def evq_pop_def Let_def)
  moreover from this have "evq_wait len (replicate n (snd \<circ> evq_pop)) q = None"
    by (induction n) simp_all
  ultimately show ?thesis by (simp add: evq_allocate_event_def)
qed

text \<open>The capacity is 64; after one block of 32 bytes came and went, one of 48 bytes never fits.\<close>

end
