(* ===== verification/Crc.thy ===== *)
theory Crc
  imports Endian
begin

text \<open>
  The table-driven cyclic redundancy checks (\<open>crc.c\<close>): the six tables as they stand there, the
  common update loop, and the backward run of \<open>crc32_ieee_le_rev\<close>. All tables are linear over
  XOR, so that eight of their entries determine them; the lemmas compare those with the bitwise
  polynomial division.
\<close>

section \<open>Tables and loops\<close>

definition crc8_atm_table :: "byte list" where
  "crc8_atm_table = [
     0x00, 0x07, 0x0E, 0x09, 0x1C, 0x1B, 0x12, 0x15, 0x38, 0x3F, 0x36, 0x31, 0x24, 0x23, 0x2A, 0x2D,
     0x70, 0x77, 0x7E, 0x79, 0x6C, 0x6B, 0x62, 0x65, 0x48, 0x4F, 0x46, 0x41, 0x54, 0x53, 0x5A, 0x5D,
     0xE0, 0xE7, 0xEE, 0xE9, 0xFC, 0xFB, 0xF2, 0xF5, 0xD8, 0xDF, 0xD6, 0xD1, 0xC4, 0xC3, 0xCA, 0xCD,
     0x90, 0x97, 0x9E, 0x99, 0x8C, 0x8B, 0x82, 0x85, 0xA8, 0xAF, 0xA6, 0xA1, 0xB4, 0xB3, 0xBA, 0xBD,
     0xC7, 0xC0, 0xC9, 0xCE, 0xDB, 0xDC, 0xD5, 0xD2, 0xFF, 0xF8, 0xF1, 0xF6, 0xE3, 0xE4, 0xED, 0xEA,
     0xB7, 0xB0, 0xB9, 0xBE, 0xAB, 0xAC, 0xA5, 0xA2, 0x8F, 0x88, 0x81, 0x86, 0x93, 0x94, 0x9D, 0x9A,
     0x27, 0x20, 0x29, 0x2E, 0x3B, 0x3C, 0x35, 0x32, 0x1F, 0x18, 0x11, 0x16, 0x03, 0x04, 0x0D, 0x0A,
     0x57, 0x50, 0x59, 0x5E, 0x4B, 0x4C, 0x45, 0x42, 0x6F, 0x68, 0x61, 0x66, 0x73, 0x74, 0x7D, 0x7A,
     0x89, 0x8E, 0x87, 0x80, 0x95, 0x92, 0x9B, 0x9C, 0xB1, 0xB6, 0xBF, 0xB8, 0xAD, 0xAA, 0xA3, 0xA4,
     0xF9, 0xFE, 0xF7, 0xF0, 0xE5, 0xE2, 0xEB, 0xEC, 0xC1, 0xC6, 0xCF, 0xC8, 0xDD, 0xDA, 0xD3, 0xD4,
     0x69, 0x6E, 0x67, 0x60, 0x75, 0x72, 0x7B, 0x7C, 0x51, 0x56, 0x5F, 0x58, 0x4D, 0x4A, 0x43, 0x44,
     0x19, 0x1E, 0x17, 0x10, 0x05, 0x02, 0x0B, 0x0C, 0x21, 0x26, 0x2F, 0x28, 0x3D, 0x3A, 0x33, 0x34,
     0x4E, 0x49, 0x40, 0x47, 0x52, 0x55, 0x5C, 0x5B, 0x76, 0x71, 0x78, 0x7F, 0x6A, 0x6D, 0x64, 0x63,
     0x3E, 0x39, 0x30, 0x37, 0x22, 0x25, 0x2C, 0x2B, 0x06, 0x01, 0x08, 0x0F, 0x1A, 0x1D, 0x14, 0x13,
     0xAE, 0xA9, 0xA0, 0xA7, 0xB2, 0xB5, 0xBC, 0xBB, 0x96, 0x91, 0x98, 0x9F, 0x8A, 0x8D, 0x84, 0x83,
     0xDE, 0xD9, 0xD0, 0xD7, 0xC2, 0xC5, 0xCC, 0xCB, 0xE6, 0xE1, 0xE8, 0xEF, 0xFA, 0xFD, 0xF4, 0xF3]"

definition crc16_ansi_table :: "u16 list" where
  "crc16_ansi_table = [
     0x0000, 0x0580, 0x0F80, 0x0A00, 0x1B80, 0x1E00, 0x1400, 0x1180, 0x3380, 0x3600, 0x3C00, 0x3980,
     0x2800, 0x2D80, 0x2780, 0x2200, 0x6380, 0x6600, 0x6C00, 0x6980, 0x7800, 0x7D80, 0x7780, 0x7200,
     0x5000, 0x5580, 0x5F80, 0x5A00, 0x4B80, 0x4E00, 0x4400, 0x4180, 0xC380, 0xC600, 0xCC00, 0xC980,
     0xD800, 0xDD80, 0xD780, 0xD200, 0xF000, 0xF580, 0xFF80, 0xFA00, 0xEB80, 0xEE00, 0xE400, 0xE180,
     0xA000, 0xA580, 0xAF80, 0xAA00, 0xBB80, 0xBE00, 0xB400, 0xB180, 0x9380, 0x9600, 0x9C00, 0x9980,
     0x8800, 0x8D80, 0x8780, 0x8200, 0x8381, 0x8601, 0x8C01, 0x8981, 0x9801, 0x9D81, 0x9781, 0x9201,
     0xB001, 0xB581, 0xBF81, 0xBA01, 0xAB81, 0xAE01, 0xA401, 0xA181, 0xE001, 0xE581, 0xEF81, 0xEA01,
     0xFB81, 0xFE01, 0xF401, 0xF181, 0xD381, 0xD601, 0xDC01, 0xD981, 0xC801, 0xCD81, 0xC781, 0xC201,
     0x4001, 0x4581, 0x4F81, 0x4A01, 0x5B81, 0x5E01, 0x5401, 0x5181, 0x7381, 0x7601, 0x7C01, 0x7981,
     0x6801, 0x6D81, 0x6781, 0x6201, 0x2381, 0x2601, 0x2C01, 0x2981, 0x3801, 0x3D81, 0x3781, 0x3201,
     0x1001, 0x1581, 0x1F81, 0x1A01, 0x0B81, 0x0E01, 0x0401, 0x0181, 0x0383, 0x0603, 0x0C03, 0x0983,
     0x1803, 0x1D83, 0x1783, 0x1203, 0x3003, 0x3583, 0x3F83, 0x3A03, 0x2B83, 0x2E03, 0x2403, 0x2183,
     0x6003, 0x6583, 0x6F83, 0x6A03, 0x7B83, 0x7E03, 0x7403, 0x7183, 0x5383, 0x5603, 0x5C03, 0x5983,
     0x4803, 0x4D83, 0x4783, 0x4203, 0xC003, 0xC583, 0xCF83, 0xCA03, 0xDB83, 0xDE03, 0xD403, 0xD183,
     0xF383, 0xF603, 0xFC03, 0xF983, 0xE803, 0xED83, 0xE783, 0xE203, 0xA383, 0xA603, 0xAC03, 0xA983,
     0xB803, 0xBD83, 0xB783, 0xB203, 0x9003, 0x9583, 0x9F83, 0x9A03, 0x8B83, 0x8E03, 0x8403, 0x8183,
     0x8002, 0x8582, 0x8F82, 0x8A02, 0x9B82, 0x9E02, 0x9402, 0x9182, 0xB382, 0xB602, 0xBC02, 0xB982,
     0xA802, 0xAD82, 0xA782, 0xA202, 0xE382, 0xE602, 0xEC02, 0xE982, 0xF802, 0xFD82, 0xF782, 0xF202,
     0xD002, 0xD582, 0xDF82, 0xDA02, 0xCB82, 0xCE02, 0xC402, 0xC182, 0x4382, 0x4602, 0x4C02, 0x4982,
     0x5802, 0x5D82, 0x5782, 0x5202, 0x7002, 0x7582, 0x7F82, 0x7A02, 0x6B82, 0x6E02, 0x6402, 0x6182,
     0x2002, 0x2582, 0x2F82, 0x2A02, 0x3B82, 0x3E02, 0x3402, 0x3182, 0x1382, 0x1602, 0x1C02, 0x1982,
     0x0802, 0x0D82, 0x0782, 0x0202]"

definition crc16_ccitt_table :: "u16 list" where
  "crc16_ccitt_table = [
     0x0000, 0x2110, 0x4220, 0x6330, 0x8440, 0xA550, 0xC660, 0xE770, 0x0881, 0x2991, 0x4AA1, 0x6BB1,
     0x8CC1, 0xADD1, 0xCEE1, 0xEFF1, 0x3112, 0x1002, 0x7332, 0x5222, 0xB552, 0x9442, 0xF772, 0xD662,
     0x3993, 0x1883, 0x7BB3, 0x5AA3, 0xBDD3, 0x9CC3, 0xFFF3, 0xDEE3, 0x6224, 0x4334, 0x2004, 0x0114,
     0xE664, 0xC774, 0xA444, 0x8554, 0x6AA5, 0x4BB5, 0x2885, 0x0995, 0xEEE5, 0xCFF5, 0xACC5, 0x8DD5,
     0x5336, 0x7226, 0x1116, 0x3006, 0xD776, 0xF666, 0x9556, 0xB446, 0x5BB7, 0x7AA7, 0x1997, 0x3887,
     0xDFF7, 0xFEE7, 0x9DD7, 0xBCC7, 0xC448, 0xE558, 0x8668, 0xA778, 0x4008, 0x6118, 0x0228, 0x2338,
     0xCCC9, 0xEDD9, 0x8EE9, 0xAFF9, 0x4889, 0x6999, 0x0AA9, 0x2BB9, 0xF55A, 0xD44A, 0xB77A, 0x966A,
     0x711A, 0x500A, 0x333A, 0x122A, 0xFDDB, 0xDCCB, 0xBFFB, 0x9EEB, 0x799B, 0x588B, 0x3BBB, 0x1AAB,
     0xA66C, 0x877C, 0xE44C, 0xC55C, 0x222C, 0x033C, 0x600C, 0x411C, 0xAEED, 0x8FFD, 0xECCD, 0xCDDD,
     0x2AAD, 0x0BBD, 0x688D, 0x499D, 0x977E, 0xB66E, 0xD55E, 0xF44E, 0x133E, 0x322E, 0x511E, 0x700E,
     0x9FFF, 0xBEEF, 0xDDDF, 0xFCCF, 0x1BBF, 0x3AAF, 0x599F, 0x788F, 0x8891, 0xA981, 0xCAB1, 0xEBA1,
     0x0CD1, 0x2DC1, 0x4EF1, 0x6FE1, 0x8010, 0xA100, 0xC230, 0xE320, 0x0450, 0x2540, 0x4670, 0x6760,
     0xB983, 0x9893, 0xFBA3, 0xDAB3, 0x3DC3, 0x1CD3, 0x7FE3, 0x5EF3, 0xB102, 0x9012, 0xF322, 0xD232,
     0x3542, 0x1452, 0x7762, 0x5672, 0xEAB5, 0xCBA5, 0xA895, 0x8985, 0x6EF5, 0x4FE5, 0x2CD5, 0x0DC5,
     0xE234, 0xC324, 0xA014, 0x8104, 0x6674, 0x4764, 0x2454, 0x0544, 0xDBA7, 0xFAB7, 0x9987, 0xB897,
     0x5FE7, 0x7EF7, 0x1DC7, 0x3CD7, 0xD326, 0xF236, 0x9106, 0xB016, 0x5766, 0x7676, 0x1546, 0x3456,
     0x4CD9, 0x6DC9, 0x0EF9, 0x2FE9, 0xC899, 0xE989, 0x8AB9, 0xABA9, 0x4458, 0x6548, 0x0678, 0x2768,
     0xC018, 0xE108, 0x8238, 0xA328, 0x7DCB, 0x5CDB, 0x3FEB, 0x1EFB, 0xF98B, 0xD89B, 0xBBAB, 0x9ABB,
     0x754A, 0x545A, 0x376A, 0x167A, 0xF10A, 0xD01A, 0xB32A, 0x923A, 0x2EFD, 0x0FED, 0x6CDD, 0x4DCD,
     0xAABD, 0x8BAD, 0xE89D, 0xC98D, 0x267C, 0x076C, 0x645C, 0x454C, 0xA23C, 0x832C, 0xE01C, 0xC10C,
     0x1FEF, 0x3EFF, 0x5DCF, 0x7CDF, 0x9BAF, 0xBABF, 0xD98F, 0xF89F, 0x176E, 0x367E, 0x554E, 0x745E,
     0x932E, 0xB23E, 0xD10E, 0xF01E]"

definition crc32_ieee_table :: "u32 list" where
  "crc32_ieee_table = [
     0x00000000, 0xB71DC104, 0x6E3B8209, 0xD926430D, 0xDC760413, 0x6B6BC517, 0xB24D861A, 0x0550471E,
     0xB8ED0826, 0x0FF0C922, 0xD6D68A2F, 0x61CB4B2B, 0x649B0C35, 0xD386CD31, 0x0AA08E3C, 0xBDBD4F38,
     0x70DB114C, 0xC7C6D048, 0x1EE09345, 0xA9FD5241, 0xACAD155F, 0x1BB0D45B, 0xC2969756, 0x758B5652,
     0xC836196A, 0x7F2BD86E, 0xA60D9B63, 0x11105A67, 0x14401D79, 0xA35DDC7D, 0x7A7B9F70, 0xCD665E74,
     0xE0B62398, 0x57ABE29C, 0x8E8DA191, 0x39906095, 0x3CC0278B, 0x8BDDE68F, 0x52FBA582, 0xE5E66486,
     0x585B2BBE, 0xEF46EABA, 0x3660A9B7, 0x817D68B3, 0x842D2FAD, 0x3330EEA9, 0xEA16ADA4, 0x5D0B6CA0,
     0x906D32D4, 0x2770F3D0, 0xFE56B0DD, 0x494B71D9, 0x4C1B36C7, 0xFB06F7C3, 0x2220B4CE, 0x953D75CA,
     0x28803AF2, 0x9F9DFBF6, 0x46BBB8FB, 0xF1A679FF, 0xF4F63EE1, 0x43EBFFE5, 0x9ACDBCE8, 0x2DD07DEC,
     0x77708634, 0xC06D4730, 0x194B043D, 0xAE56C539, 0xAB068227, 0x1C1B4323, 0xC53D002E, 0x7220C12A,
     0xCF9D8E12, 0x78804F16, 0xA1A60C1B, 0x16BBCD1F, 0x13EB8A01, 0xA4F64B05, 0x7DD00808, 0xCACDC90C,
     0x07AB9778, 0xB0B6567C, 0x69901571, 0xDE8DD475, 0xDBDD936B, 0x6CC0526F, 0xB5E61162, 0x02FBD066,
     0xBF469F5E, 0x085B5E5A, 0xD17D1D57, 0x6660DC53, 0x63309B4D, 0xD42D5A49, 0x0D0B1944, 0xBA16D840,
     0x97C6A5AC, 0x20DB64A8, 0xF9FD27A5, 0x4EE0E6A1, 0x4BB0A1BF, 0xFCAD60BB, 0x258B23B6, 0x9296E2B2,
     0x2F2BAD8A, 0x98366C8E, 0x41102F83, 0xF60DEE87, 0xF35DA999, 0x4440689D, 0x9D662B90, 0x2A7BEA94,
     0xE71DB4E0, 0x500075E4, 0x892636E9, 0x3E3BF7ED, 0x3B6BB0F3, 0x8C7671F7, 0x555032FA, 0xE24DF3FE,
     0x5FF0BCC6, 0xE8ED7DC2, 0x31CB3ECF, 0x86D6FFCB, 0x8386B8D5, 0x349B79D1, 0xEDBD3ADC, 0x5AA0FBD8,
     0xEEE00C69, 0x59FDCD6D, 0x80DB8E60, 0x37C64F64, 0x3296087A, 0x858BC97E, 0x5CAD8A73, 0xEBB04B77,
     0x560D044F, 0xE110C54B, 0x38368646, 0x8F2B4742, 0x8A7B005C, 0x3D66C158, 0xE4408255, 0x535D4351,
     0x9E3B1D25, 0x2926DC21, 0xF0009F2C, 0x471D5E28, 0x424D1936, 0xF550D832, 0x2C769B3F, 0x9B6B5A3B,
     0x26D61503, 0x91CBD407, 0x48ED970A, 0xFFF0560E, 0xFAA01110, 0x4DBDD014, 0x949B9319, 0x2386521D,
     0x0E562FF1, 0xB94BEEF5, 0x606DADF8, 0xD7706CFC, 0xD2202BE2, 0x653DEAE6, 0xBC1BA9EB, 0x0B0668EF,
     0xB6BB27D7, 0x01A6E6D3, 0xD880A5DE, 0x6F9D64DA, 0x6ACD23C4, 0xDDD0E2C0, 0x04F6A1CD, 0xB3EB60C9,
     0x7E8D3EBD, 0xC990FFB9, 0x10B6BCB4, 0xA7AB7DB0, 0xA2FB3AAE, 0x15E6FBAA, 0xCCC0B8A7, 0x7BDD79A3,
     0xC660369B, 0x717DF79F, 0xA85BB492, 0x1F467596, 0x1A163288, 0xAD0BF38C, 0x742DB081, 0xC3307185,
     0x99908A5D, 0x2E8D4B59, 0xF7AB0854, 0x40B6C950, 0x45E68E4E, 0xF2FB4F4A, 0x2BDD0C47, 0x9CC0CD43,
     0x217D827B, 0x9660437F, 0x4F460072, 0xF85BC176, 0xFD0B8668, 0x4A16476C, 0x93300461, 0x242DC565,
     0xE94B9B11, 0x5E565A15, 0x87701918, 0x306DD81C, 0x353D9F02, 0x82205E06, 0x5B061D0B, 0xEC1BDC0F,
     0x51A69337, 0xE6BB5233, 0x3F9D113E, 0x8880D03A, 0x8DD09724, 0x3ACD5620, 0xE3EB152D, 0x54F6D429,
     0x7926A9C5, 0xCE3B68C1, 0x171D2BCC, 0xA000EAC8, 0xA550ADD6, 0x124D6CD2, 0xCB6B2FDF, 0x7C76EEDB,
     0xC1CBA1E3, 0x76D660E7, 0xAFF023EA, 0x18EDE2EE, 0x1DBDA5F0, 0xAAA064F4, 0x738627F9, 0xC49BE6FD,
     0x09FDB889, 0xBEE0798D, 0x67C63A80, 0xD0DBFB84, 0xD58BBC9A, 0x62967D9E, 0xBBB03E93, 0x0CADFF97,
     0xB110B0AF, 0x060D71AB, 0xDF2B32A6, 0x6836F3A2, 0x6D66B4BC, 0xDA7B75B8, 0x035D36B5, 0xB440F7B1]"

definition crc32_ieee_le_table :: "u32 list" where
  "crc32_ieee_le_table = [
     0x00000000, 0x77073096, 0xEE0E612C, 0x990951BA, 0x076DC419, 0x706AF48F, 0xE963A535, 0x9E6495A3,
     0x0EDB8832, 0x79DCB8A4, 0xE0D5E91E, 0x97D2D988, 0x09B64C2B, 0x7EB17CBD, 0xE7B82D07, 0x90BF1D91,
     0x1DB71064, 0x6AB020F2, 0xF3B97148, 0x84BE41DE, 0x1ADAD47D, 0x6DDDE4EB, 0xF4D4B551, 0x83D385C7,
     0x136C9856, 0x646BA8C0, 0xFD62F97A, 0x8A65C9EC, 0x14015C4F, 0x63066CD9, 0xFA0F3D63, 0x8D080DF5,
     0x3B6E20C8, 0x4C69105E, 0xD56041E4, 0xA2677172, 0x3C03E4D1, 0x4B04D447, 0xD20D85FD, 0xA50AB56B,
     0x35B5A8FA, 0x42B2986C, 0xDBBBC9D6, 0xACBCF940, 0x32D86CE3, 0x45DF5C75, 0xDCD60DCF, 0xABD13D59,
     0x26D930AC, 0x51DE003A, 0xC8D75180, 0xBFD06116, 0x21B4F4B5, 0x56B3C423, 0xCFBA9599, 0xB8BDA50F,
     0x2802B89E, 0x5F058808, 0xC60CD9B2, 0xB10BE924, 0x2F6F7C87, 0x58684C11, 0xC1611DAB, 0xB6662D3D,
     0x76DC4190, 0x01DB7106, 0x98D220BC, 0xEFD5102A, 0x71B18589, 0x06B6B51F, 0x9FBFE4A5, 0xE8B8D433,
     0x7807C9A2, 0x0F00F934, 0x9609A88E, 0xE10E9818, 0x7F6A0DBB, 0x086D3D2D, 0x91646C97, 0xE6635C01,
     0x6B6B51F4, 0x1C6C6162, 0x856530D8, 0xF262004E, 0x6C0695ED, 0x1B01A57B, 0x8208F4C1, 0xF50FC457,
     0x65B0D9C6, 0x12B7E950, 0x8BBEB8EA, 0xFCB9887C, 0x62DD1DDF, 0x15DA2D49, 0x8CD37CF3, 0xFBD44C65,
     0x4DB26158, 0x3AB551CE, 0xA3BC0074, 0xD4BB30E2, 0x4ADFA541, 0x3DD895D7, 0xA4D1C46D, 0xD3D6F4FB,
     0x4369E96A, 0x346ED9FC, 0xAD678846, 0xDA60B8D0, 0x44042D73, 0x33031DE5, 0xAA0A4C5F, 0xDD0D7CC9,
     0x5005713C, 0x270241AA, 0xBE0B1010, 0xC90C2086, 0x5768B525, 0x206F85B3, 0xB966D409, 0xCE61E49F,
     0x5EDEF90E, 0x29D9C998, 0xB0D09822, 0xC7D7A8B4, 0x59B33D17, 0x2EB40D81, 0xB7BD5C3B, 0xC0BA6CAD,
     0xEDB88320, 0x9ABFB3B6, 0x03B6E20C, 0x74B1D29A, 0xEAD54739, 0x9DD277AF, 0x04DB2615, 0x73DC1683,
     0xE3630B12, 0x94643B84, 0x0D6D6A3E, 0x7A6A5AA8, 0xE40ECF0B, 0x9309FF9D, 0x0A00AE27, 0x7D079EB1,
     0xF00F9344, 0x8708A3D2, 0x1E01F268, 0x6906C2FE, 0xF762575D, 0x806567CB, 0x196C3671, 0x6E6B06E7,
     0xFED41B76, 0x89D32BE0, 0x10DA7A5A, 0x67DD4ACC, 0xF9B9DF6F, 0x8EBEEFF9, 0x17B7BE43, 0x60B08ED5,
     0xD6D6A3E8, 0xA1D1937E, 0x38D8C2C4, 0x4FDFF252, 0xD1BB67F1, 0xA6BC5767, 0x3FB506DD, 0x48B2364B,
     0xD80D2BDA, 0xAF0A1B4C, 0x36034AF6, 0x41047A60, 0xDF60EFC3, 0xA867DF55, 0x316E8EEF, 0x4669BE79,
     0xCB61B38C, 0xBC66831A, 0x256FD2A0, 0x5268E236, 0xCC0C7795, 0xBB0B4703, 0x220216B9, 0x5505262F,
     0xC5BA3BBE, 0xB2BD0B28, 0x2BB45A92, 0x5CB36A04, 0xC2D7FFA7, 0xB5D0CF31, 0x2CD99E8B, 0x5BDEAE1D,
     0x9B64C2B0, 0xEC63F226, 0x756AA39C, 0x026D930A, 0x9C0906A9, 0xEB0E363F, 0x72076785, 0x05005713,
     0x95BF4A82, 0xE2B87A14, 0x7BB12BAE, 0x0CB61B38, 0x92D28E9B, 0xE5D5BE0D, 0x7CDCEFB7, 0x0BDBDF21,
     0x86D3D2D4, 0xF1D4E242, 0x68DDB3F8, 0x1FDA836E, 0x81BE16CD, 0xF6B9265B, 0x6FB077E1, 0x18B74777,
     0x88085AE6, 0xFF0F6A70, 0x66063BCA, 0x11010B5C, 0x8F659EFF, 0xF862AE69, 0x616BFFD3, 0x166CCF45,
     0xA00AE278, 0xD70DD2EE, 0x4E048354, 0x3903B3C2, 0xA7672661, 0xD06016F7, 0x4969474D, 0x3E6E77DB,
     0xAED16A4A, 0xD9D65ADC, 0x40DF0B66, 0x37D83BF0, 0xA9BCAE53, 0xDEBB9EC5, 0x47B2CF7F, 0x30B5FFE9,
     0xBDBDF21C, 0xCABAC28A, 0x53B39330, 0x24B4A3A6, 0xBAD03605, 0xCDD70693, 0x54DE5729, 0x23D967BF,
     0xB3667A2E, 0xC4614AB8, 0x5D681B02, 0x2A6F2B94, 0xB40BBE37, 0xC30C8EA1, 0x5A05DF1B, 0x2D02EF8D]"

definition crc32_ieee_le_rev_table :: "byte list" where
  "crc32_ieee_le_rev_table = [
     0x00, 0x41, 0xC3, 0x82, 0x86, 0xC7, 0x45, 0x04, 0x4D, 0x0C, 0x8E, 0xCF, 0xCB, 0x8A, 0x08, 0x49,
     0x9A, 0xDB, 0x59, 0x18, 0x1C, 0x5D, 0xDF, 0x9E, 0xD7, 0x96, 0x14, 0x55, 0x51, 0x10, 0x92, 0xD3,
     0x75, 0x34, 0xB6, 0xF7, 0xF3, 0xB2, 0x30, 0x71, 0x38, 0x79, 0xFB, 0xBA, 0xBE, 0xFF, 0x7D, 0x3C,
     0xEF, 0xAE, 0x2C, 0x6D, 0x69, 0x28, 0xAA, 0xEB, 0xA2, 0xE3, 0x61, 0x20, 0x24, 0x65, 0xE7, 0xA6,
     0xEA, 0xAB, 0x29, 0x68, 0x6C, 0x2D, 0xAF, 0xEE, 0xA7, 0xE6, 0x64, 0x25, 0x21, 0x60, 0xE2, 0xA3,
     0x70, 0x31, 0xB3, 0xF2, 0xF6, 0xB7, 0x35, 0x74, 0x3D, 0x7C, 0xFE, 0xBF, 0xBB, 0xFA, 0x78, 0x39,
     0x9F, 0xDE, 0x5C, 0x1D, 0x19, 0x58, 0xDA, 0x9B, 0xD2, 0x93, 0x11, 0x50, 0x54, 0x15, 0x97, 0xD6,
     0x05, 0x44, 0xC6, 0x87, 0x83, 0xC2, 0x40, 0x01, 0x48, 0x09, 0x8B, 0xCA, 0xCE, 0x8F, 0x0D, 0x4C,
     0x95, 0xD4, 0x56, 0x17, 0x13, 0x52, 0xD0, 0x91, 0xD8, 0x99, 0x1B, 0x5A, 0x5E, 0x1F, 0x9D, 0xDC,
     0x0F, 0x4E, 0xCC, 0x8D, 0x89, 0xC8, 0x4A, 0x0B, 0x42, 0x03, 0x81, 0xC0, 0xC4, 0x85, 0x07, 0x46,
     0xE0, 0xA1, 0x23, 0x62, 0x66, 0x27, 0xA5, 0xE4, 0xAD, 0xEC, 0x6E, 0x2F, 0x2B, 0x6A, 0xE8, 0xA9,
     0x7A, 0x3B, 0xB9, 0xF8, 0xFC, 0xBD, 0x3F, 0x7E, 0x37, 0x76, 0xF4, 0xB5, 0xB1, 0xF0, 0x72, 0x33,
     0x7F, 0x3E, 0xBC, 0xFD, 0xF9, 0xB8, 0x3A, 0x7B, 0x32, 0x73, 0xF1, 0xB0, 0xB4, 0xF5, 0x77, 0x36,
     0xE5, 0xA4, 0x26, 0x67, 0x63, 0x22, 0xA0, 0xE1, 0xA8, 0xE9, 0x6B, 0x2A, 0x2E, 0x6F, 0xED, 0xAC,
     0x0A, 0x4B, 0xC9, 0x88, 0x8C, 0xCD, 0x4F, 0x0E, 0x47, 0x06, 0x84, 0xC5, 0xC1, 0x80, 0x02, 0x43,
     0x90, 0xD1, 0x53, 0x12, 0x16, 0x57, 0xD5, 0x94, 0xDD, 0x9C, 0x1E, 0x5F, 0x5B, 0x1A, 0x98, 0xD9]"

text \<open>The macro \<open>_DECLARE_CRC_FUNC_\<close>: one byte, and the loop over the buffer.\<close>

definition crc_step :: "'a::len word list \<Rightarrow> u32 \<Rightarrow> byte \<Rightarrow> u32" where
  "crc_step table code b = ucast (table ! unat (ucast code XOR b)) XOR drop_bit 8 code"

definition crc_loop :: "'a::len word list \<Rightarrow> u32 \<Rightarrow> byte list \<Rightarrow> u32" where
  "crc_loop table start buf = foldl (crc_step table) start buf"

definition crc8_atm :: "u32 \<Rightarrow> byte list \<Rightarrow> u32" where
  "crc8_atm = crc_loop crc8_atm_table"

definition crc16_ansi :: "u32 \<Rightarrow> byte list \<Rightarrow> u32" where
  "crc16_ansi = crc_loop crc16_ansi_table"

definition crc16_ccitt :: "u32 \<Rightarrow> byte list \<Rightarrow> u32" where
  "crc16_ccitt = crc_loop crc16_ccitt_table"

definition crc32_ieee :: "u32 \<Rightarrow> byte list \<Rightarrow> u32" where
  "crc32_ieee = crc_loop crc32_ieee_table"

definition crc32_ieee_le :: "u32 \<Rightarrow> byte list \<Rightarrow> u32" where
  "crc32_ieee_le = crc_loop crc32_ieee_le_table"

definition crc_rev_step :: "byte \<Rightarrow> u32 \<Rightarrow> u32" where
  "crc_rev_step b code =
     (let i = (ucast (crc32_ieee_le_rev_table ! unat (drop_bit 24 code)) :: u32)
      in push_bit 8 (crc32_ieee_le_table ! unat i XOR code) OR (i XOR ucast b))"

definition crc32_ieee_le_rev :: "u32 \<Rightarrow> byte list \<Rightarrow> u32" where
  "crc32_ieee_le_rev e buf = foldr crc_rev_step buf e"

section \<open>Linear tables\<close>

definition linear :: "('a::len word \<Rightarrow> 'b::len word) \<Rightarrow> bool" where
  "linear f \<longleftrightarrow> (\<forall>x y. f (x XOR y) = f x XOR f y)"

lemma linearD: "linear f \<Longrightarrow> f (x XOR y) = f x XOR f y"
  by (simp add: linear_def)

lemma linear_zero: "linear f \<Longrightarrow> f 0 = 0"
  using linearD [of f 0 0] by simp

lemma linearI: "(\<And>x y. f (x XOR y) = f x XOR f y) \<Longrightarrow> linear f"
  by (simp add: linear_def)

lemma linear_iterate: "linear (f :: 'a::len word \<Rightarrow> 'a word) \<Longrightarrow> linear (f ^^ n)"
  by (induction n) (auto intro!: linearI simp: linearD)

text \<open>The XOR of the basis elements selected by the bits from bit \<open>k\<close> on.\<close>

fun select :: "nat \<Rightarrow> 'b::len word list \<Rightarrow> (nat \<Rightarrow> bool) \<Rightarrow> 'b word" where
  "select k [] p = 0"
| "select k (b # bs) p = (if p k then b else 0) XOR select (Suc k) bs p"

lemma select_linear: "linear (\<lambda>x. select k bs (bit x))"
proof (rule linearI)
  fix x y
  show "select k bs (bit (x XOR y)) = select k bs (bit x) XOR select k bs (bit y)"
    by (induction bs arbitrary: k) (auto simp: bit_xor_iff ac_simps)
qed

lemma select_image:
  "linear f \<Longrightarrow> f (select k bs p) = select k (map f bs) p"
  by (induction bs arbitrary: k) (simp_all add: linearD linear_zero)

text \<open>A byte is the sum of its bits, so a linear function of a byte is given by eight values.\<close>

lemma select_bits: "select 0 [1, 2, 4, 8, 16, 32, 64, 128] (bit x) = (x :: byte)"
proof (rule bit_word_eqI)
  fix n assume "n < LENGTH(8)"
  then have "n \<in> {0, 1, 2, 3, 4, 5, 6, 7}" by auto
  then show "bit (select 0 [1, 2, 4, 8, 16, 32, 64, 128 :: byte] (bit x)) n = bit x n"
    by (elim insertE emptyE) (simp_all add: bit_xor_iff numeral_eq_Suc if_distrib [of "\<lambda>w. bit w m" for m])
qed

lemma linear_select:
  "linear f \<Longrightarrow> f (x :: byte) = select 0 [f 1, f 2, f 4, f 8, f 16, f 32, f 64, f 128] (bit x)"
  using select_image [of f 0 "[1, 2, 4, 8, 16, 32, 64, 128]" "bit x"] by (simp only: select_bits list.map)

lemma linear_eqI:
  assumes "linear f" "linear g" "f 1 = g 1" "f 2 = g 2" "f 4 = g 4" "f 8 = g 8" "f 16 = g 16"
    "f 32 = g 32" "f 64 = g 64" "f 128 = g 128"
  shows "f x = g (x :: byte)"
  unfolding linear_select [OF assms(1), of x] linear_select [OF assms(2), of x] assms(3-) ..

text \<open>A table grown by doubling: entry \<open>i\<close> is the sum selected by the bits of \<open>i\<close>.\<close>

definition doubled :: "'b::len word list \<Rightarrow> 'b word \<Rightarrow> 'b word list" where
  "doubled xs b = xs @ map (\<lambda>x. x XOR b) xs"

lemma select_snoc: "select k (bs @ [b]) p = select k bs p XOR (if p (k + length bs) then b else 0)"
  by (induction bs arbitrary: k) (simp_all add: ac_simps)

lemma select_cong: "(\<And>i. i < length bs \<Longrightarrow> p (k + i) = q (k + i)) \<Longrightarrow> select k bs p = select k bs q"
proof (induction bs arbitrary: k)
  case (Cons b bs)
  have "p (Suc k + i) = q (Suc k + i)" if "i < length bs" for i
    using Cons.prems [of "Suc i"] that by simp
  from Cons.IH [OF this] Cons.prems [of 0] show ?case by simp
qed simp

lemma length_foldl_doubled [simp]: "length (foldl doubled xs bs) = length xs * 2 ^ length bs"
  by (induction bs arbitrary: xs) (simp_all add: doubled_def)

lemma doubled_low: "i < length t \<Longrightarrow> doubled t b ! i = t ! i"
  by (simp add: doubled_def nth_append)

lemma doubled_high: "\<not> i < length t \<Longrightarrow> i < 2 * length t \<Longrightarrow> doubled t b ! i = t ! (i - length t) XOR b"
  by (simp add: doubled_def nth_append)

lemma nth_doubled:
  "i < 2 ^ length bs \<Longrightarrow> foldl doubled [0] bs ! i = select 0 bs (bit (i :: nat))"
proof (induction bs arbitrary: i rule: rev_induct)
  case (snoc b bs)
  let ?n = "length bs"
  have i: "i < 2 * 2 ^ ?n" using snoc.prems by simp
  have bit_n: "bit i ?n \<longleftrightarrow> 2 ^ ?n \<le> i"
  proof -
    have "i div 2 ^ ?n < 2" using i by (simp add: less_mult_imp_div_less)
    then have "odd (i div 2 ^ ?n) \<longleftrightarrow> i div 2 ^ ?n \<noteq> 0" by (auto simp: less_2_cases_iff)
    then show ?thesis by (simp add: bit_iff_odd div_eq_0_iff not_less)
  qed
  have "select 0 bs (bit i) = select 0 bs (bit (i mod 2 ^ ?n))"
    by (rule select_cong) (simp add: take_bit_eq_mod [symmetric] bit_take_bit_iff)
  also have "\<dots> = foldl doubled [0] bs ! (i mod 2 ^ ?n)" by (rule snoc.IH [symmetric]) simp
  finally have low: "select 0 bs (bit i) = foldl doubled [0] bs ! (i mod 2 ^ ?n)" .
  show ?case
  proof (cases "i < 2 ^ ?n")
    case True
    then show ?thesis using low bit_n by (simp add: doubled_low select_snoc)
  next
    case False
    then have "i mod 2 ^ ?n = i - 2 ^ ?n" using i by (simp add: le_mod_geq)
    then show ?thesis using False low bit_n i by (simp add: doubled_high select_snoc)
  qed
qed simp

definition linear_table :: "'b::len word list \<Rightarrow> 'b word list \<Rightarrow> bool" where
  "linear_table basis t \<longleftrightarrow> length basis = 8 \<and> t = foldl doubled [0] basis"

lemma linear_tableD:
  assumes "linear_table basis t"
  shows "t ! unat (x :: byte) = select 0 basis (bit x)"
proof -
  have "unat x < 2 ^ LENGTH(8)" by (rule unsigned_less)
  then have "foldl doubled [0] basis ! unat x = select 0 basis (bit (unat x))"
    using assms by (intro nth_doubled) (simp add: linear_table_def)
  moreover have "bit (unat x) = bit x" by (simp add: fun_eq_iff bit_simps)
  ultimately show ?thesis using assms by (simp add: linear_table_def)
qed

lemma linear_table_linear: "linear_table basis t \<Longrightarrow> linear (\<lambda>x :: byte. t ! unat x)"
  using select_linear by (simp add: linear_tableD)

text \<open>So a table is known by eight of its entries.\<close>

lemma linear_table_eqI:
  assumes "linear_table [f 1, f 2, f 4, f 8, f 16, f 32, f 64, f 128] t" "linear f"
  shows "t ! unat (x :: byte) = f x"
  unfolding linear_tableD [OF assms(1)] linear_select [OF assms(2), of x] ..

section \<open>The tables are linear\<close>

lemma linear_table_crc8_atm:
  "linear_table [0x07, 0x0E, 0x1C, 0x38, 0x70, 0xE0, 0xC7, 0x89] crc8_atm_table"
  by (simp add: linear_table_def doubled_def crc8_atm_table_def)

lemma linear_table_crc16_ansi:
  "linear_table [0x580, 0xF80, 0x1B80, 0x3380, 0x6380, 0xC380, 0x8381, 0x383] crc16_ansi_table"
  by (simp add: linear_table_def doubled_def crc16_ansi_table_def)

lemma linear_table_crc16_ccitt:
  "linear_table [0x2110, 0x4220, 0x8440, 0x881, 0x3112, 0x6224, 0xC448, 0x8891] crc16_ccitt_table"
  by (simp add: linear_table_def doubled_def crc16_ccitt_table_def)

lemma linear_table_crc32_ieee:
  "linear_table [0xB71DC104, 0x6E3B8209, 0xDC760413, 0xB8ED0826, 0x70DB114C, 0xE0B62398,
     0x77708634, 0xEEE00C69] crc32_ieee_table"
  by (simp add: linear_table_def doubled_def crc32_ieee_table_def)

lemma linear_table_crc32_ieee_le:
  "linear_table [0x77073096, 0xEE0E612C, 0x76DC419, 0xEDB8832, 0x1DB71064, 0x3B6E20C8,
     0x76DC4190, 0xEDB88320] crc32_ieee_le_table"
  by (simp add: linear_table_def doubled_def crc32_ieee_le_table_def)

lemma linear_table_crc32_ieee_le_rev:
  "linear_table [0x41, 0xC3, 0x86, 0x4D, 0x9A, 0x75, 0xEA, 0x95] crc32_ieee_le_rev_table"
  by (simp add: linear_table_def doubled_def crc32_ieee_le_rev_table_def)


section \<open>The update loop\<close>

lemma crc_loop_Nil [simp]: "crc_loop t s [] = s"
  by (simp add: crc_loop_def)

lemma crc_loop_Cons [simp]: "crc_loop t s (b # bs) = crc_loop t (crc_step t s b) bs"
  by (simp add: crc_loop_def)

lemma crc_loop_append: "crc_loop t s (xs @ ys) = crc_loop t (crc_loop t s xs) ys"
  by (simp add: crc_loop_def)

text \<open>With a linear table a step is linear in the code and the byte together, and so is the loop.\<close>

lemma crc_step_xor:
  assumes "linear_table basis t"
  shows "crc_step t (c XOR d) (a XOR b) = crc_step t c a XOR crc_step t d b"
proof -
  have "ucast (c XOR d) XOR (a XOR b) = (ucast c XOR a) XOR (ucast d XOR b :: byte)"
    by (rule bit_word_eqI) (auto simp: bit_simps)
  then show ?thesis
    using linearD [OF linear_table_linear [OF assms], of "ucast c XOR a" "ucast d XOR b"]
    by (simp add: crc_step_def unsigned_xor_eq drop_bit_xor ac_simps)
qed

lemma crc_loop_xor:
  assumes "linear_table basis t" "length as = length bs"
  shows "crc_loop t (c XOR d) (map2 (XOR) as bs) = crc_loop t c as XOR crc_loop t d bs"
  using assms(2) by (induction as bs arbitrary: c d rule: list_induct2) (simp_all add: crc_step_xor [OF assms(1)])

section \<open>Bitwise division\<close>

text \<open>One bit of the division by the reflected polynomial, lowest bit first.\<close>

definition crc_bit_le :: "u32 \<Rightarrow> u32 \<Rightarrow> u32" where
  "crc_bit_le poly c = (if bit c 0 then drop_bit 1 c XOR poly else drop_bit 1 c)"

definition crc_bits_le :: "u32 \<Rightarrow> u32 \<Rightarrow> byte list \<Rightarrow> u32" where
  "crc_bits_le poly start buf =
     foldl (\<lambda>c b. (crc_bit_le poly ^^ 8) (c XOR ucast b)) start buf"

lemma crc_bit_le_linear: "linear (crc_bit_le poly)"
  by (rule linearI, rule bit_word_eqI) (auto simp: crc_bit_le_def bit_simps)


lemma crc_bit_le_even: "\<not> bit c 0 \<Longrightarrow> crc_bit_le poly c = drop_bit 1 c"
  by (simp add: crc_bit_le_def)

lemma eight_times: "(f ^^ 8) x = f (f (f (f (f (f (f (f x)))))))"
  by (simp add: eval_nat_numeral)

lemma crc_bit_le_zeros:
  "(\<And>i. i < k \<Longrightarrow> \<not> bit c i) \<Longrightarrow> (crc_bit_le poly ^^ k) c = drop_bit k c"
proof (induction k)
  case (Suc k)
  then have "(crc_bit_le poly ^^ k) c = drop_bit k c" by simp
  moreover have "\<not> bit (drop_bit k c) 0" using Suc.prems [of k] by (simp add: bit_simps)
  ultimately show ?case by (simp add: crc_bit_le_even drop_bit_drop_bit)
qed simp

text \<open>Eight bits of the division: one table entry for the low byte, the rest is shifted.\<close>

lemma crc_bits_le_split:
  "(crc_bit_le poly ^^ 8) c = (crc_bit_le poly ^^ 8) (ucast (ucast c :: byte)) XOR drop_bit 8 c"
proof -
  let ?hi = "push_bit 8 (drop_bit 8 c)"
  have "c = ucast (ucast c :: byte) XOR ?hi"
    by (rule bit_word_eqI) (auto simp: bit_simps not_less)
  then have "(crc_bit_le poly ^^ 8) c =
      (crc_bit_le poly ^^ 8) (ucast (ucast c :: byte)) XOR (crc_bit_le poly ^^ 8) ?hi"
    using linearD [OF linear_iterate [OF crc_bit_le_linear]] by metis
  moreover have "(crc_bit_le poly ^^ 8) ?hi = drop_bit 8 ?hi"
    by (rule crc_bit_le_zeros) (simp add: bit_simps)
  moreover have "drop_bit 8 ?hi = drop_bit 8 c"
    by (rule bit_word_eqI) (auto simp: bit_simps dest: bit_imp_le_length)
  ultimately show ?thesis by simp
qed

lemma crc32_ieee_le_table_entry:
  "crc32_ieee_le_table ! unat (x :: byte) = (crc_bit_le 0xEDB88320 ^^ 8) (ucast x)"
proof (rule linear_table_eqI)
  show "linear (\<lambda>x :: byte. (crc_bit_le 0xEDB88320 ^^ 8) (ucast x))"
    by (rule linearI) (simp add: unsigned_xor_eq linearD [OF linear_iterate [OF crc_bit_le_linear]])
  show "linear_table [(crc_bit_le 0xEDB88320 ^^ 8) (ucast (1 :: byte)), (crc_bit_le 0xEDB88320 ^^ 8) (ucast (2 :: byte)),
     (crc_bit_le 0xEDB88320 ^^ 8) (ucast (4 :: byte)), (crc_bit_le 0xEDB88320 ^^ 8) (ucast (8 :: byte)),
     (crc_bit_le 0xEDB88320 ^^ 8) (ucast (16 :: byte)), (crc_bit_le 0xEDB88320 ^^ 8) (ucast (32 :: byte)),
     (crc_bit_le 0xEDB88320 ^^ 8) (ucast (64 :: byte)), (crc_bit_le 0xEDB88320 ^^ 8) (ucast (128 :: byte))]
     crc32_ieee_le_table"
    using linear_table_crc32_ieee_le by (simp add: crc_bit_le_def eight_times)
qed

text \<open>One bit of the division highest bit first, as the polynomials are written down.\<close>

definition crc_bit_be :: "'a::len word \<Rightarrow> 'a word \<Rightarrow> 'a word" where
  "crc_bit_be poly c = (if bit c (LENGTH('a) - 1) then push_bit 1 c XOR poly else push_bit 1 c)"

definition crc_bits_be :: "'a::len word \<Rightarrow> 'a word \<Rightarrow> byte list \<Rightarrow> 'a word" where
  "crc_bits_be poly start buf =
     foldl (\<lambda>c b. (crc_bit_be poly ^^ 8) (c XOR push_bit (LENGTH('a) - 8) (ucast b))) start buf"

lemma crc_bit_be_linear: "linear (crc_bit_be poly)"
  by (rule linearI, rule bit_word_eqI) (auto simp: crc_bit_be_def bit_simps)

lemma crc_bit_be_low:
  "\<not> bit (c :: 'a::len word) (LENGTH('a) - 1) \<Longrightarrow> crc_bit_be poly c = push_bit 1 c"
  by (simp add: crc_bit_be_def)

lemma crc_bit_be_zeros:
  fixes c :: "'a::len word"
  shows "k \<le> LENGTH('a) \<Longrightarrow> (\<And>i. LENGTH('a) - k \<le> i \<Longrightarrow> i < LENGTH('a) \<Longrightarrow> \<not> bit c i)
     \<Longrightarrow> (crc_bit_be poly ^^ k) c = push_bit k c"
proof (induction k)
  case (Suc k)
  then have "(crc_bit_be poly ^^ k) c = push_bit k c" by simp
  moreover have "\<not> bit (push_bit k c) (LENGTH('a) - 1)"
    using Suc.prems(1) Suc.prems(2) [of "LENGTH('a) - 1 - k"] by (auto simp: bit_simps)
  ultimately show ?case by (simp add: crc_bit_be_low push_bit_push_bit del: push_bit_Suc)
qed simp

lemma crc_bits_be_split:
  fixes c :: "'a::len word"
  assumes "8 \<le> LENGTH('a)"
  shows "(crc_bit_be poly ^^ 8) c =
    (crc_bit_be poly ^^ 8) (push_bit (LENGTH('a) - 8) (ucast (ucast (drop_bit (LENGTH('a) - 8) c) :: byte)))
      XOR push_bit 8 c"
proof -
  let ?lo = "take_bit (LENGTH('a) - 8) c"
  let ?hi = "push_bit (LENGTH('a) - 8) (ucast (ucast (drop_bit (LENGTH('a) - 8) c) :: byte)) :: 'a word"
  have "c = ?hi XOR ?lo"
    by (rule bit_word_eqI) (use assms in \<open>auto simp: bit_simps\<close>)
  then have "(crc_bit_be poly ^^ 8) c = (crc_bit_be poly ^^ 8) ?hi XOR (crc_bit_be poly ^^ 8) ?lo"
    using linearD [OF linear_iterate [OF crc_bit_be_linear]] by metis
  moreover have "(crc_bit_be poly ^^ 8) ?lo = push_bit 8 ?lo"
    by (rule crc_bit_be_zeros) (use assms in \<open>auto simp: bit_simps\<close>)
  moreover have "push_bit 8 ?lo = push_bit 8 c"
    by (rule bit_word_eqI) (use assms in \<open>auto simp: bit_simps\<close>)
  ultimately show ?thesis by simp
qed


section \<open>Tables of codes with swapped bytes\<close>

text \<open>
  The other tables divide highest bit first, but the running code is kept with its bytes swapped
  (\<open>sw\<close>), so that the byte to look up is the low one. What \<open>sw\<close> has to satisfy, and the
  eight entries that fix the table:
\<close>

locale msb_table =
  fixes t :: "'a::len word list" and basis :: "'a word list" and poly :: "'a word"
    and sw :: "'a word \<Rightarrow> u32"
  assumes width: "8 \<le> LENGTH('a)"
    and table: "linear_table basis t"
    and sw_linear: "linear sw"
    and sw_top: "(ucast (sw x) :: byte) = ucast (drop_bit (LENGTH('a) - 8) x)"
    and sw_shift: "sw (push_bit 8 x) = drop_bit 8 (sw x)"
    and entries: "map ucast basis =
      map (\<lambda>b. sw ((crc_bit_be poly ^^ 8) (push_bit (LENGTH('a) - 8) (ucast (b :: byte)))))
          [1, 2, 4, 8, 16, 32, 64, 128]"
begin

lemma entry: "ucast (t ! unat (x :: byte)) = sw ((crc_bit_be poly ^^ 8) (push_bit (LENGTH('a) - 8) (ucast x)))"
proof -
  have lin: "linear (\<lambda>x :: byte. sw ((crc_bit_be poly ^^ 8) (push_bit (LENGTH('a) - 8) (ucast x))))"
    by (rule linearI)
      (simp add: unsigned_xor_eq push_bit_xor linearD [OF sw_linear]
        linearD [OF linear_iterate [OF crc_bit_be_linear]])
  have "ucast (t ! unat x) = (ucast (select 0 basis (bit x)) :: u32)"
    by (simp add: linear_tableD [OF table])
  also have "\<dots> = select 0 (map ucast basis) (bit x)"
    by (rule select_image [OF linearI]) (simp add: unsigned_xor_eq)
  also have "\<dots> = sw ((crc_bit_be poly ^^ 8) (push_bit (LENGTH('a) - 8) (ucast x)))"
    unfolding entries linear_select [OF lin, of x] by (simp only: list.map)
  finally show ?thesis .
qed

lemma step: "crc_step t (sw c) b =
  sw ((crc_bit_be poly ^^ 8) (c XOR push_bit (LENGTH('a) - 8) (ucast b)))"
proof -
  let ?c = "c XOR push_bit (LENGTH('a) - 8) (ucast b)"
  have top: "ucast (drop_bit (LENGTH('a) - 8) ?c) = (ucast (sw c) XOR b :: byte)"
    unfolding sw_top by (rule bit_word_eqI) (use width in \<open>auto simp: bit_simps\<close>)
  have low: "push_bit 8 ?c = push_bit 8 c"
    by (rule bit_word_eqI) (use width in \<open>auto simp: bit_simps dest: bit_imp_le_length\<close>)
  show ?thesis
    unfolding crc_bits_be_split [OF width, of poly ?c] top low linearD [OF sw_linear] sw_shift
    by (simp add: crc_step_def entry)
qed

lemma loop: "crc_loop t (sw c) buf = sw (crc_bits_be poly c buf)"
  by (induction buf arbitrary: c) (simp_all add: crc_bits_be_def step)

end

lemma bswap_16_linear: "linear (\<lambda>x. ucast (bswap_16 x))"
  by (rule linearI, rule bit_word_eqI) (auto simp: bit_bswap_16 bit_simps)

lemma bswap_16_low: "(ucast (ucast (bswap_16 x) :: u32) :: byte) = ucast (drop_bit 8 x)"
  by (rule bit_word_eqI) (auto simp: bit_bswap_16 bit_simps add.commute)

lemma bswap_16_shift: "(ucast (bswap_16 (push_bit 8 x)) :: u32) = drop_bit 8 (ucast (bswap_16 x))"
  by (rule bit_word_eqI) (auto simp: bit_bswap_16 bit_simps dest: bit_imp_le_length)

lemma bswap_32_linear: "linear bswap_32"
  by (rule linearI, rule bit_word_eqI) (auto simp: bit_bswap_32 bit_simps)

lemma bswap_32_low: "(ucast (bswap_32 x) :: byte) = ucast (drop_bit 24 x)"
  by (rule bit_word_eqI) (auto simp: bit_bswap_32 bit_simps add.commute)

lemma bswap_32_shift: "bswap_32 (push_bit 8 x) = drop_bit 8 (bswap_32 x)"
proof (rule bit_word_eqI)
  fix n assume "n < LENGTH(32)"
  then consider "n < 8" | "8 \<le> n" "n < 16" | "16 \<le> n" "n < 24" | "24 \<le> n" by linarith
  then show "bit (bswap_32 (push_bit 8 x)) n = bit (drop_bit 8 (bswap_32 x)) n"
    by cases (auto simp: bit_bswap_32 bit_simps)
qed

interpretation atm: msb_table crc8_atm_table "[0x07, 0x0E, 0x1C, 0x38, 0x70, 0xE0, 0xC7, 0x89]" "0x07" ucast
proof unfold_locales
  show "linear_table [0x07, 0x0E, 0x1C, 0x38, 0x70, 0xE0, 0xC7, 0x89] crc8_atm_table"
    by (rule linear_table_crc8_atm)
  show "linear (ucast :: byte \<Rightarrow> u32)" by (rule linearI) (rule unsigned_xor_eq)
  show "(ucast (ucast x :: u32) :: byte) = ucast (drop_bit (LENGTH(8) - 8) x)" for x :: byte
    by (rule bit_word_eqI) (auto simp: bit_simps)
  show "(ucast (push_bit 8 x) :: u32) = drop_bit 8 (ucast x)" for x :: byte
    by (rule bit_word_eqI) (auto simp: bit_simps dest: bit_imp_le_length)
qed (simp_all add: crc_bit_be_def eight_times)

interpretation ansi: msb_table crc16_ansi_table
  "[0x580, 0xF80, 0x1B80, 0x3380, 0x6380, 0xC380, 0x8381, 0x383]"
  "0x8005" "\<lambda>x. ucast (bswap_16 x)"
proof unfold_locales
  show "map ucast [0x580 :: u16, 0xF80, 0x1B80, 0x3380, 0x6380, 0xC380, 0x8381, 0x383] =
      map (\<lambda>b. (\<lambda>x. ucast (bswap_16 x)) ((crc_bit_be 0x8005 ^^ 8) (push_bit (LENGTH(16) - 8) (ucast (b :: byte)))))
          [1, 2, 4, 8, 16, 32, 64, 128]"
    unfolding list.map by (simp add: crc_bit_be_def eight_times bswap_16_def)
qed (simp_all add: linear_table_crc16_ansi bswap_16_linear bswap_16_low bswap_16_shift)

interpretation ccitt: msb_table crc16_ccitt_table
  "[0x2110, 0x4220, 0x8440, 0x881, 0x3112, 0x6224, 0xC448, 0x8891]"
  "0x1021" "\<lambda>x. ucast (bswap_16 x)"
proof unfold_locales
  show "map ucast [0x2110 :: u16, 0x4220, 0x8440, 0x881, 0x3112, 0x6224, 0xC448, 0x8891] =
      map (\<lambda>b. (\<lambda>x. ucast (bswap_16 x)) ((crc_bit_be 0x1021 ^^ 8) (push_bit (LENGTH(16) - 8) (ucast (b :: byte)))))
          [1, 2, 4, 8, 16, 32, 64, 128]"
    unfolding list.map by (simp add: crc_bit_be_def eight_times bswap_16_def)
qed (simp_all add: linear_table_crc16_ccitt bswap_16_linear bswap_16_low bswap_16_shift)

interpretation ieee: msb_table crc32_ieee_table
  "[0xB71DC104, 0x6E3B8209, 0xDC760413, 0xB8ED0826, 0x70DB114C, 0xE0B62398, 0x77708634, 0xEEE00C69]"
  "0x04C11DB7" "bswap_32"
proof unfold_locales
  show "map ucast [0xB71DC104 :: u32, 0x6E3B8209, 0xDC760413, 0xB8ED0826, 0x70DB114C, 0xE0B62398, 0x77708634, 0xEEE00C69] =
      map (\<lambda>b. bswap_32 ((crc_bit_be 0x04C11DB7 ^^ 8) (push_bit (LENGTH(32) - 8) (ucast (b :: byte)))))
          [1, 2, 4, 8, 16, 32, 64, 128]"
    unfolding list.map by (simp add: crc_bit_be_def eight_times bswap_32_def)
qed (simp_all add: linear_table_crc32_ieee bswap_32_linear bswap_32_low bswap_32_shift)

section \<open>Running backwards\<close>

lemma ucast_byte_xor: "(ucast (x XOR y :: u32) :: byte) = ucast x XOR ucast y"
  by (rule unsigned_xor_eq)

lemma unat_ucast_byte: "unat (ucast (b :: byte) :: u32) = unat b"
proof -
  have "unat b < 2 ^ LENGTH(8)" by (rule unsigned_less)
  then show ?thesis by (simp add: unsigned_ucast_eq take_bit_nat_eq_self_iff)
qed

lemma rev_table_inverse:
  "crc32_ieee_le_rev_table ! unat (ucast (drop_bit 24 (crc32_ieee_le_table ! unat x)) :: byte) = x"
proof -
  let ?f = "\<lambda>x :: byte. crc32_ieee_le_rev_table ! unat (ucast (drop_bit 24 (crc32_ieee_le_table ! unat x)) :: byte)"
  note rev = linear_tableD [OF linear_table_crc32_ieee_le_rev]
  note fwd = linear_tableD [OF linear_table_crc32_ieee_le]
  have "linear ?f"
    by (rule linearI)
      (simp add: linearD [OF linear_table_linear [OF linear_table_crc32_ieee_le]] drop_bit_xor ucast_byte_xor
        linearD [OF linear_table_linear [OF linear_table_crc32_ieee_le_rev]])
  moreover have "linear (\<lambda>x :: byte. x)" by (simp add: linear_def)
  ultimately show ?thesis
    by (rule linear_eqI) (simp_all only: rev fwd, simp_all)
qed

lemma crc_rev_step_inverse: "crc_rev_step b (crc_step crc32_ieee_le_table c b) = c"
proof -
  let ?i = "ucast c XOR b"
  let ?c = "crc_step crc32_ieee_le_table c b"
  have "ucast (drop_bit 24 ?c) = (ucast (drop_bit 24 (crc32_ieee_le_table ! unat ?i)) :: byte)"
    by (rule bit_word_eqI) (auto simp: crc_step_def bit_simps dest: bit_imp_le_length)
  moreover have "unat (drop_bit 24 ?c) = unat (ucast (drop_bit 24 ?c) :: byte)"
  proof -
    have "drop_bit 24 ?c = ucast (ucast (drop_bit 24 ?c) :: byte)"
      by (rule bit_word_eqI) (auto simp: bit_simps dest: bit_imp_le_length)
    then show ?thesis by (metis unat_ucast_byte)
  qed
  ultimately have "crc32_ieee_le_rev_table ! unat (drop_bit 24 ?c) = ?i" by (simp add: rev_table_inverse)
  then have "crc_rev_step b ?c =
      push_bit 8 (crc32_ieee_le_table ! unat (ucast ?i :: u32) XOR ?c) OR (ucast ?i XOR ucast b)"
    by (simp add: crc_rev_step_def)
  also have "crc32_ieee_le_table ! unat (ucast ?i :: u32) XOR ?c = drop_bit 8 c"
    by (simp add: crc_step_def unat_ucast_byte)
  also have "push_bit 8 (drop_bit 8 c) OR (ucast ?i XOR ucast b) = c"
  proof (rule bit_word_eqI)
    fix n
    show "bit (push_bit 8 (drop_bit 8 c) OR (ucast ?i XOR ucast b)) n = bit c n"
      by (cases "n < 8") (auto simp: bit_simps dest: bit_imp_le_length)
  qed
  finally show ?thesis .
qed

lemma crc_rev_inverse: "crc32_ieee_le_rev (crc32_ieee_le s buf) buf = s"
  by (induction buf arbitrary: s)
    (simp_all add: crc32_ieee_le_rev_def crc32_ieee_le_def crc_rev_step_inverse)

section \<open>Short errors\<close>

lemma le_word_top_zero:
  assumes "length d < 4"
  shows "drop_bit 24 (le_word d :: u32) = 0"
  by (rule bit_word_eqI) (use assms in \<open>auto simp: bit_simps bit_le_word\<close>)

text \<open>Run backwards from zero, up to four bytes are just collected.\<close>

lemma crc_rev_zero: "length d \<le> 4 \<Longrightarrow> crc32_ieee_le_rev 0 d = le_word d"
proof (induction d)
  case (Cons b d)
  then have "crc32_ieee_le_rev 0 d = le_word d" and z: "drop_bit 24 (le_word d :: u32) = 0"
    using le_word_top_zero [of d] by simp_all
  moreover have "crc32_ieee_le_rev_table ! 0 = 0" "crc32_ieee_le_table ! 0 = 0"
    by (simp_all add: crc32_ieee_le_rev_table_def crc32_ieee_le_table_def)
  ultimately show ?case by (simp add: crc32_ieee_le_rev_def crc_rev_step_def Let_def or.commute)
qed (simp add: crc32_ieee_le_rev_def)

lemma le_word_zeroD:
  assumes "le_word d = (0 :: u32)" "length d \<le> 4" "b \<in> set d"
  shows "b = 0"
proof (rule bit_word_eqI)
  fix j assume j: "j < LENGTH(8)"
  from assms(3) obtain i where i: "i < length d" "d ! i = b" by (auto simp: in_set_conv_nth)
  have "\<not> bit (le_word d :: u32) (8 * i + j)" by (simp add: assms(1))
  then show "bit b j = bit 0 j" using i j assms(2) by (simp add: bit_le_word)
qed

lemma xor_list_zeroD:
  "length as = length bs \<Longrightarrow> (\<And>x. x \<in> set (map2 (XOR) as bs) \<Longrightarrow> x = 0) \<Longrightarrow> as = (bs :: byte list)"
proof (induction as bs rule: list_induct2)
  case (Cons a as b bs)
  have "a XOR b = 0" using Cons.prems by simp
  then have "a = b" by (metis xor.assoc xor.left_neutral xor.right_neutral xor_self_eq)
  then show ?case using Cons by simp
qed simp

lemma crc32_ieee_le_inj: "crc32_ieee_le s buf = crc32_ieee_le s' buf \<Longrightarrow> s = s'"
  by (metis crc_rev_inverse)

section \<open>Properties\<close>

text \<open>C20. \<open>crc32_ieee_le\<close> is the bit-by-bit division by the reflected polynomial \<open>0xEDB88320\<close>, for any
  start value and buffer; in particular every one of the 256 table entries is right.\<close>

theorem crc32_ieee_le_is_division: "crc32_ieee_le start buf = crc_bits_le 0xEDB88320 start buf"
proof (induction buf arbitrary: start)
  case (Cons b buf)
  have "ucast (start XOR ucast b) = (ucast start XOR b :: byte)" "drop_bit 8 (start XOR ucast b) = drop_bit 8 start"
    by (rule bit_word_eqI, auto simp: bit_simps dest: bit_imp_le_length)+
  then have "crc_step crc32_ieee_le_table start b = (crc_bit_le 0xEDB88320 ^^ 8) (start XOR ucast b)"
    unfolding crc_bits_le_split [of _ "start XOR ucast b"]
    by (simp add: crc_step_def crc32_ieee_le_table_entry)
  with Cons show ?case by (simp add: crc32_ieee_le_def crc_bits_le_def)
qed (simp add: crc32_ieee_le_def crc_bits_le_def)

text \<open>C21. The other four checks divide highest bit first, by \<open>0x07\<close>, \<open>0x8005\<close>, \<open>0x1021\<close> and
  \<open>0x04C11DB7\<close>, with the running code held in swapped byte order.\<close>

theorem crc_msb_is_division:
  "crc8_atm (ucast (s8 :: byte)) buf = ucast (crc_bits_be 0x07 s8 buf) \<and>
   crc16_ansi (ucast (bswap_16 s16)) buf = ucast (bswap_16 (crc_bits_be 0x8005 s16 buf)) \<and>
   crc16_ccitt (ucast (bswap_16 s16)) buf = ucast (bswap_16 (crc_bits_be 0x1021 s16 buf)) \<and>
   crc32_ieee (bswap_32 s32) buf = bswap_32 (crc_bits_be 0x04C11DB7 s32 buf)"
  by (simp add: crc8_atm_def crc16_ansi_def crc16_ccitt_def crc32_ieee_def atm.loop ansi.loop ccitt.loop ieee.loop)

text \<open>C22. Two messages that differ only within four consecutive bytes never have the same code: every
  burst of up to 32 bits is detected, wherever it lies and whatever surrounds it.\<close>

theorem crc32_ieee_le_detects_bursts:
  assumes "crc32_ieee_le start (before @ xs @ behind) = crc32_ieee_le start (before @ ys @ behind)"
    and "length xs = length ys" and "length xs \<le> 4"
  shows "xs = ys"
proof -
  let ?s = "crc32_ieee_le start before"
  let ?d = "map2 (XOR) xs ys"
  have "crc32_ieee_le ?s xs = crc32_ieee_le ?s ys"
    using assms(1) crc32_ieee_le_inj by (simp add: crc32_ieee_le_def crc_loop_append)
  then have "crc32_ieee_le 0 ?d = 0"
    using crc_loop_xor [OF linear_table_crc32_ieee_le assms(2), of ?s ?s] by (simp add: crc32_ieee_le_def)
  then have "le_word ?d = (0 :: u32)"
    using crc_rev_inverse [of 0 ?d] crc_rev_zero [of ?d] assms(3) by simp
  then show ?thesis
    using xor_list_zeroD [OF assms(2)] le_word_zeroD [of ?d] assms(3) by simp
qed

theorem crc32_ieee_le_detects_bursts_witness: "[7, 0, 0, 9] = [7, 0, 0, 9 :: byte]"
  by (rule crc32_ieee_le_detects_bursts [of "0xFFFFFFFF" "[1, 2]" _ "[3]"]) simp_all

end
