(* ===== verification/Adler32.thy ===== *)
theory Adler32
  imports Prelude
begin

unbundle bit_operations_syntax

text \<open>
  The Adler-32 checksum (\<open>adler32.c\<close>). The code adds up sixteen bytes at a time and reduces the sums
  only after each run of such blocks; all sums are \<open>uint32_t\<close>, so the point is that none of them
  wraps and the late reductions give the checksum of the definition.
\<close>

section \<open>The code\<close>

definition BASE :: u32 where
  "BASE = 65521"

text \<open>\<open>DO1\<close>, and as many of them as a list has bytes (\<open>DO16\<close> for sixteen).\<close>

definition adler_do1 :: "byte \<Rightarrow> u32 \<times> u32 \<Rightarrow> u32 \<times> u32" where
  "adler_do1 b s = (let s1 = fst s + ucast b in (s1, snd s + s1))"

definition adler_do :: "byte list \<Rightarrow> u32 \<times> u32 \<Rightarrow> u32 \<times> u32" where
  "adler_do bs s = fold adler_do1 bs s"

text \<open>The inner loop: whole blocks while more than sixteen bytes are left and \<open>s2 < 2 ^ 31\<close>.\<close>

function adler_inner :: "byte list \<Rightarrow> u32 \<times> u32 \<Rightarrow> byte list \<times> (u32 \<times> u32)" where
  "adler_inner buf s =
     (if length buf > 16 \<and> snd s < 2 ^ 31 then adler_inner (drop 16 buf) (adler_do (take 16 buf) s)
      else (buf, s))"
  by pat_completeness auto
termination by (relation "measure (length \<circ> fst)") auto

declare adler_inner.simps [simp del]

lemma adler_inner_length: "length (fst (adler_inner buf s)) \<le> length buf"
  by (induction buf s rule: adler_inner.induct) (subst adler_inner.simps, auto)

function adler_outer :: "byte list \<Rightarrow> u32 \<times> u32 \<Rightarrow> u32 \<times> u32" where
  "adler_outer buf s =
     (case adler_inner buf s of
        ([], s') \<Rightarrow> s'
      | (b # bs, s') \<Rightarrow> (let s'' = adler_do1 b s' in adler_outer bs (fst s'' mod BASE, snd s'' mod BASE)))"
  by pat_completeness auto
termination
  by (relation "measure (length \<circ> fst)")
    (use adler_inner_length in \<open>simp_all, metis Suc_le_eq fst_conv length_Cons\<close>)

declare adler_outer.simps [simp del]

definition calc_adler32 :: "u32 \<Rightarrow> byte list \<Rightarrow> u32" where
  "calc_adler32 adler buf =
     (let (s1, s2) = adler_outer buf (adler AND 0xffff, drop_bit 16 adler)
      in push_bit 16 s2 OR s1)"

section \<open>The definition of the checksum\<close>

text \<open>Both sums reduced after every byte, on natural numbers.\<close>

definition adler_ref1 :: "byte \<Rightarrow> nat \<times> nat \<Rightarrow> nat \<times> nat" where
  "adler_ref1 b s = (let x = (fst s + unat b) mod 65521 in (x, (snd s + x) mod 65521))"

definition adler_ref :: "byte list \<Rightarrow> nat \<times> nat \<Rightarrow> nat \<times> nat" where
  "adler_ref bs s = fold adler_ref1 bs s"

lemma adler_ref_append: "adler_ref (xs @ ys) s = adler_ref ys (adler_ref xs s)"
  by (simp add: adler_ref_def)

definition same_sums :: "nat \<times> nat \<Rightarrow> nat \<times> nat \<Rightarrow> bool" where
  "same_sums s t \<longleftrightarrow> fst s mod 65521 = fst t mod 65521 \<and> snd s mod 65521 = snd t mod 65521"

lemma same_sums_trans: "same_sums s t \<Longrightarrow> same_sums t u \<Longrightarrow> same_sums s u"
  by (simp add: same_sums_def)

lemma ref1_same: "same_sums s t \<Longrightarrow> adler_ref1 b s = adler_ref1 b t"
proof -
  assume a: "same_sums s t"
  then have x: "(fst s + unat b) mod 65521 = (fst t + unat b) mod 65521"
    unfolding same_sums_def by (metis mod_add_left_eq)
  from a have "(snd s + c) mod 65521 = (snd t + c) mod 65521" for c
    unfolding same_sums_def by (metis mod_add_left_eq)
  then show ?thesis by (simp add: adler_ref1_def x)
qed

lemma ref_same: "same_sums s t \<Longrightarrow> same_sums (adler_ref bs s) (adler_ref bs t)"
  by (cases bs) (simp_all add: adler_ref_def ref1_same [of s t], simp add: same_sums_def)

lemma ref1_less: "fst (adler_ref1 b s) < 65521 \<and> snd (adler_ref1 b s) < 65521"
  by (simp add: adler_ref1_def Let_def)

section \<open>No sum wraps\<close>

text \<open>
  While bytes are added, \<open>s1\<^sup>2\<close> grows by at most 510 times what \<open>s2\<close> grows by; with \<open>s2\<close> below
  \<open>2 ^ 31\<close> before a block, \<open>s1\<close> is below \<open>2 ^ 20\<close>. \<open>k\<close> counts the bytes since that test.
\<close>

definition sums_ok :: "nat \<Rightarrow> u32 \<times> u32 \<Rightarrow> bool" where
  "sums_ok k s \<longleftrightarrow> unat (fst s) ^ 2 \<le> 510 * unat (snd s) + 65535 ^ 2 \<and>
     unat (fst s) \<le> 2 ^ 20 + 255 * k \<and> unat (snd s) \<le> 2 ^ 31 + k * (2 ^ 20 + 255 * 17)"

definition nats :: "u32 \<times> u32 \<Rightarrow> nat \<times> nat" where
  "nats s = (unat (fst s), unat (snd s))"

lemma sums_ok_start:
  assumes "sums_ok k s" "snd s < 2 ^ 31"
  shows "sums_ok 0 s"
proof -
  have s2: "unat (snd s) < 2 ^ 31" using assms(2) by (simp add: word_less_nat_alt)
  then have "unat (fst s) ^ 2 < (2 ^ 20) ^ 2" using assms(1) by (simp add: sums_ok_def)
  then have "unat (fst s) < 2 ^ 20" by (rule power_less_imp_less_base) simp
  then show ?thesis using assms(1) s2 by (simp add: sums_ok_def)
qed

lemma do1_step:
  assumes "sums_ok k s" "k < 17"
  shows "sums_ok (Suc k) (adler_do1 b s) \<and>
         nats (adler_do1 b s) = (unat (fst s) + unat b, unat (snd s) + (unat (fst s) + unat b))"
proof -
  let ?a = "unat (fst s)" and ?c = "unat (snd s)" and ?b = "unat b"
  have b: "?b \<le> 255" using unsigned_less [of b, where 'a = nat] by simp
  have a: "?a + ?b \<le> 2 ^ 20 + 255 * Suc k" using assms(1) b by (simp add: sums_ok_def)
  also have "\<dots> \<le> 2 ^ 20 + 255 * 17" using assms(2) by simp
  finally have a': "?a + ?b \<le> 2 ^ 20 + 255 * 17" .
  have c: "?c + (?a + ?b) \<le> 2 ^ 31 + Suc k * (2 ^ 20 + 255 * 17)"
    using assms(1) a' by (simp add: sums_ok_def)
  also have "\<dots> \<le> 2 ^ 31 + 17 * (2 ^ 20 + 255 * 17)" using assms(2) by simp
  finally have c': "?c + (?a + ?b) < 2 ^ 32" by simp
  have w1: "unat (fst s + ucast b) = ?a + ?b"
    using a' by (simp add: unat_word_ariths unsigned_ucast_eq take_bit_nat_eq_self)
  have w2: "unat (snd s + (fst s + ucast b)) = ?c + (?a + ?b)"
    using c' w1 by (simp add: unat_word_ariths)
  have "(?a + ?b) ^ 2 = ?a ^ 2 + (2 * ?a + ?b) * ?b" by (simp add: power2_eq_square algebra_simps)
  also have "(2 * ?a + ?b) * ?b \<le> (2 * (?a + ?b)) * 255" using b by (intro mult_mono) auto
  finally have "(?a + ?b) ^ 2 \<le> ?a ^ 2 + 510 * (?a + ?b)" by simp
  then have "(?a + ?b) ^ 2 \<le> 510 * (?c + (?a + ?b)) + 65535 ^ 2"
    using assms(1) by (simp add: sums_ok_def)
  then show ?thesis using a c w1 w2 by (simp add: adler_do1_def Let_def sums_ok_def nats_def)
qed

lemma do1_ref:
  assumes "sums_ok k s" "k < 17"
  shows "same_sums (nats (adler_do1 b s)) (adler_ref1 b (nats s))"
  using do1_step [OF assms, of b]
  by (simp add: same_sums_def adler_ref1_def nats_def Let_def mod_simps)

lemma do_ref:
  "sums_ok k s \<Longrightarrow> k + length bs \<le> 17 \<Longrightarrow>
     sums_ok (k + length bs) (adler_do bs s) \<and> same_sums (nats (adler_do bs s)) (adler_ref bs (nats s))"
proof (induction bs arbitrary: k s)
  case (Cons b bs)
  have ok: "sums_ok (Suc k) (adler_do1 b s)" using do1_step [OF Cons.prems(1)] Cons.prems(2) by simp
  have "same_sums (adler_ref bs (nats (adler_do1 b s))) (adler_ref bs (adler_ref1 b (nats s)))"
    by (rule ref_same [OF do1_ref]) (use Cons.prems in auto)
  then show ?case using Cons.IH [OF ok] Cons.prems(2) same_sums_trans
    by (fastforce simp: adler_do_def adler_ref_def)
qed (simp add: adler_do_def adler_ref_def same_sums_def)

lemma sums_ok_mono: "sums_ok k s \<Longrightarrow> k \<le> m \<Longrightarrow> sums_ok m s"
  unfolding sums_ok_def by (auto intro: order_trans [OF _ add_mono [OF order_refl mult_le_mono1]])

lemma inner_ref:
  "sums_ok 16 s \<Longrightarrow> \<exists>pre. buf = pre @ fst (adler_inner buf s) \<and> sums_ok 16 (snd (adler_inner buf s)) \<and>
     same_sums (nats (snd (adler_inner buf s))) (adler_ref pre (nats s)) \<and>
     (buf \<noteq> [] \<longrightarrow> fst (adler_inner buf s) \<noteq> [])"
proof (induction buf s rule: adler_inner.induct)
  case (1 buf s)
  show ?case
  proof (cases "length buf > 16 \<and> snd s < 2 ^ 31")
    case True
    let ?s = "adler_do (take 16 buf) s"
    have ok: "sums_ok 0 s" using sums_ok_start 1(2) True by blast
    have len: "length (take 16 buf) = 16" using True by simp
    from do_ref [OF ok, of "take 16 buf"] len
    have s': "sums_ok 16 ?s" "same_sums (nats ?s) (adler_ref (take 16 buf) (nats s))" by simp_all
    from 1(1) [OF True s'(1)] obtain pre where pre: "drop 16 buf = pre @ fst (adler_inner buf s)"
      "sums_ok 16 (snd (adler_inner buf s))"
      "same_sums (nats (snd (adler_inner buf s))) (adler_ref pre (nats ?s))"
      "fst (adler_inner buf s) \<noteq> []"
      using True by (auto simp: adler_inner.simps [of buf s])
    show ?thesis
    proof (intro exI [of _ "take 16 buf @ pre"] conjI impI)
      show "buf = (take 16 buf @ pre) @ fst (adler_inner buf s)" using pre(1) by (metis append.assoc append_take_drop_id)
      show "same_sums (nats (snd (adler_inner buf s))) (adler_ref (take 16 buf @ pre) (nats s))"
        using same_sums_trans [OF pre(3) ref_same [OF s'(2)]] by (simp add: adler_ref_append)
    qed (use pre in auto)
  next
    case False
    then show ?thesis using 1(2) by (auto simp: adler_inner.simps [of buf s] adler_ref_def same_sums_def)
  qed
qed

lemma reduced_ok: "unat (fst s) < 65536 \<Longrightarrow> unat (snd s) < 65536 \<Longrightarrow> sums_ok 16 s"
proof -
  assume a: "unat (fst s) < 65536" "unat (snd s) < 65536"
  then have "unat (fst s) ^ 2 \<le> 65535 ^ 2" by (intro power_mono) auto
  then show ?thesis using a by (simp add: sums_ok_def)
qed

definition reduce :: "u32 \<times> u32 \<Rightarrow> u32 \<times> u32" where
  "reduce s = (fst s mod BASE, snd s mod BASE)"

lemma reduce_nats: "nats (reduce s) = (fst (nats s) mod 65521, snd (nats s) mod 65521)"
  by (simp add: reduce_def nats_def BASE_def unat_mod)

lemma outer_ref:
  "unat (fst s) < 65536 \<Longrightarrow> unat (snd s) < 65536 \<Longrightarrow>
     if buf = [] then adler_outer buf s = s else nats (adler_outer buf s) = adler_ref buf (nats s)"
proof (induction buf s rule: adler_outer.induct)
  case (1 buf s)
  obtain rest s1 where r: "adler_inner buf s = (rest, s1)" by (rule prod.exhaust)
  from inner_ref [OF reduced_ok [OF 1(2,3)], of buf] r
  obtain pre where pre: "buf = pre @ rest" "sums_ok 16 s1" "same_sums (nats s1) (adler_ref pre (nats s))"
    "buf \<noteq> [] \<longrightarrow> rest \<noteq> []" by auto
  show ?case
  proof (cases rest)
    case Nil
    then have "buf = []" using pre(4) by auto
    then show ?thesis by (simp add: adler_outer.simps adler_inner.simps)
  next
    case (Cons b bs)
    let ?s = "adler_do1 b s1"
    let ?n = "adler_ref (pre @ [b]) (nats s)"
    have out: "adler_outer buf s = adler_outer bs (reduce ?s)"
      using r Cons by (simp add: adler_outer.simps [of buf s] reduce_def Let_def)
    have "same_sums (nats ?s) ?n"
      using same_sums_trans [OF do1_ref [OF pre(2)] ] ref1_same [OF pre(3)]
      by (simp add: adler_ref_append, simp add: adler_ref_def same_sums_def)
    moreover have "fst ?n < 65521" "snd ?n < 65521"
      using ref1_less by (simp_all add: adler_ref_append, simp_all add: adler_ref_def)
    ultimately have red: "nats (reduce ?s) = ?n"
      by (simp add: reduce_nats same_sums_def prod_eq_iff)
    then have "unat (fst (reduce ?s)) = fst ?n" "unat (snd (reduce ?s)) = snd ?n" by (simp_all add: nats_def prod_eq_iff)
    then have "unat (fst (reduce ?s)) < 65536" "unat (snd (reduce ?s)) < 65536"
      using \<open>fst ?n < 65521\<close> \<open>snd ?n < 65521\<close> by simp_all
    from 1(1) [OF r [symmetric] Cons refl this [unfolded reduce_def]]
    have "if bs = [] then adler_outer bs (reduce ?s) = reduce ?s
          else nats (adler_outer bs (reduce ?s)) = adler_ref bs (nats (reduce ?s))"
      unfolding reduce_def .
    then have "nats (adler_outer buf s) = adler_ref bs ?n"
      using red out by (cases "bs = []") (simp_all add: adler_ref_def)
    also have "\<dots> = adler_ref buf (nats s)" using pre(1) Cons by (simp flip: adler_ref_append)
    finally show ?thesis using pre(1) Cons by simp
  qed
qed

section \<open>Properties\<close>

lemma adler_halves: "unat (x AND 0xffff :: u32) < 65536" "unat (drop_bit 16 x :: u32) < 65536"
proof -
  have "x AND 0xffff = take_bit 16 x" by (simp add: take_bit_eq_mask mask_eq_exp_minus_1)
  then show "unat (x AND 0xffff) < 65536" by (simp add: unsigned_take_bit_eq take_bit_nat_less_exp [of 16, simplified])
  have "unat x < 2 ^ LENGTH(32)" by (rule unsigned_less)
  then show "unat (drop_bit 16 x) < 65536" by (simp add: drop_bit_eq_div unat_div less_mult_imp_div_less)
qed

lemma adler_pack:
  assumes "unat a < 65536" "unat b < 65536"
  shows "(push_bit 16 b OR a) AND 0xffff = (a :: u32)" "drop_bit 16 (push_bit 16 b OR a) = (b :: u32)"
proof -
  have a: "take_bit 16 a = a" and b: "take_bit 16 b = b"
    using assms by (simp_all add: word_unat_eq_iff unsigned_take_bit_eq take_bit_nat_eq_self)
  have bits: "bit a i \<Longrightarrow> i < 16" "bit b i \<Longrightarrow> i < 16" for i
    using a b by (metis bit_take_bit_iff)+
  have m: "(0xffff :: u32) = mask 16" by (simp add: mask_eq_exp_minus_1)
  show "(push_bit 16 b OR a) AND 0xffff = a"
    unfolding m by (rule bit_word_eqI) (auto simp: bit_simps dest: bits)
  show "drop_bit 16 (push_bit 16 b OR a) = b"
    by (rule bit_word_eqI) (auto simp: bit_simps dest: bits)
qed

lemma unat_halves: "unat (x :: u32) = unat (drop_bit 16 x) * 65536 + unat (x AND 0xffff)"
proof -
  have "x AND 0xffff = take_bit 16 x" by (simp add: take_bit_eq_mask mask_eq_exp_minus_1)
  then show ?thesis by (simp add: drop_bit_eq_div take_bit_eq_mod unat_div unat_mod)
qed

definition halves :: "u32 \<Rightarrow> nat \<times> nat" where
  "halves x = (unat (x AND 0xffff), unat (drop_bit 16 x))"

lemma halves_inject: "halves x = halves y \<Longrightarrow> x = y"
  by (simp add: halves_def word_unat_eq_iff unat_halves [of x] unat_halves [of y])

lemma calc_halves:
  assumes "buf \<noteq> []"
  shows "halves (calc_adler32 adler buf) = adler_ref buf (halves adler)"
proof -
  let ?s = "(adler AND 0xffff, drop_bit 16 adler)"
  have o: "nats (adler_outer buf ?s) = adler_ref buf (nats ?s)"
    using outer_ref [of ?s buf] adler_halves assms by simp
  have "fst (adler_ref buf (nats ?s)) < 65521 \<and> snd (adler_ref buf (nats ?s)) < 65521"
    using assms ref1_less by (cases buf rule: rev_cases) (simp_all add: adler_ref_def)
  then have "unat (fst (adler_outer buf ?s)) < 65536" "unat (snd (adler_outer buf ?s)) < 65536"
    unfolding o [symmetric] by (simp_all add: nats_def)
  from adler_pack [OF this] o show ?thesis
    by (simp add: calc_adler32_def halves_def nats_def split_beta)
qed

lemma calc_Nil: "calc_adler32 adler [] = adler"
proof -
  have m: "(0xffff :: u32) = mask 16" by (simp add: mask_eq_exp_minus_1)
  have "push_bit 16 (drop_bit 16 adler) OR (adler AND 0xffff) = adler"
    unfolding m by (rule bit_word_eqI) (auto simp: bit_simps)
  then show ?thesis by (simp add: calc_adler32_def adler_outer.simps adler_inner.simps)
qed

text \<open>C25. Adding sixteen bytes at a time and reducing late gives the checksum of the definition, both
  sums reduced after every byte, for buffers of any length and any start value: no 32-bit sum
  wraps in between.\<close>

theorem adler32_is_definition:
  assumes "buf \<noteq> []"
  shows "unat (calc_adler32 adler buf) =
    (case adler_ref buf (unat (adler AND 0xffff), unat (drop_bit 16 adler)) of (a, b) \<Rightarrow> b * 65536 + a)"
  using calc_halves [OF assms, of adler] unat_halves [of "calc_adler32 adler buf"]
  by (auto simp: halves_def split: prod.splits)

theorem adler32_is_definition_witness: "unat (calc_adler32 1 [0x57, 0x69, 0x6B, 0x69]) = 0x03DA0195"
  using adler32_is_definition [of "[0x57, 0x69, 0x6B, 0x69]" 1]
  by (simp add: adler_ref_def adler_ref1_def Let_def)

text \<open>The checksum of a message can be taken in pieces of any sizes, each call starting from the
  result of the one before.\<close>

lemma adler32_incremental: "calc_adler32 (calc_adler32 adler xs) ys = calc_adler32 adler (xs @ ys)"
proof (cases "xs = [] \<or> ys = []")
  case False
  then have "halves (calc_adler32 (calc_adler32 adler xs) ys) = halves (calc_adler32 adler (xs @ ys))"
    by (simp add: calc_halves adler_ref_append)
  then show ?thesis by (rule halves_inject)
qed (auto simp: calc_Nil)

end
