(* ===== verification/Hash_Functions.thy ===== *)
theory Hash_Functions
  imports Endian
begin

unbundle bit_operations_syntax

text \<open>
  The hash functions of \<open>hash.h\<close>. A key and its length are one list of bytes. Where the header has a
  little-endian path that reads whole words and a portable one that adds shifted bytes, the reader
  of a word is a parameter (\<open>rd\<close>): \<open>le_word\<close> for the former, \<open>byte_sum\<close> for the latter. \<open>char\<close> is
  signed, as it is for the compilers the header names on x86.
\<close>

section \<open>Byte by byte\<close>

definition tr1_hash32 :: "byte list \<Rightarrow> u32" where
  "tr1_hash32 s = foldl (\<lambda>key p. (key XOR scast p) * 16777619) 2166136261 s"

definition tr1_hash64 :: "byte list \<Rightarrow> u64" where
  "tr1_hash64 s = foldl (\<lambda>key p. (key XOR scast p) * 1099511628211) 14695981039346656037 s"

definition hash_ieee :: "u32 \<Rightarrow> byte list \<Rightarrow> u32" where
  "hash_ieee key s = foldl (\<lambda>key b. 16777619 * key XOR ucast b) key s"

definition hash37 :: "u32 \<Rightarrow> byte list \<Rightarrow> u32" where
  "hash37 start s = foldl (\<lambda>key b. 37 * key + ucast b) start s"

definition hash131 :: "u32 \<Rightarrow> byte list \<Rightarrow> u32" where
  "hash131 start s = foldl (\<lambda>key b. 131 * key + ucast b) start s"

section \<open>Murmur\<close>

text \<open>\<open>_PACK_4BYTES_\<close> on a little-endian host, and the mixing of one word.\<close>

definition pack_4bytes :: "byte list \<Rightarrow> u32" where
  "pack_4bytes s = le_word (take 4 s)"

definition murmur_m :: u32 where
  "murmur_m = 0x5bd1e995"

definition murmur_k :: "u32 \<Rightarrow> u32" where
  "murmur_k k = (let k = k * murmur_m; k = k XOR drop_bit 24 k in k * murmur_m)"

fun murmur_loop32 :: "u32 \<Rightarrow> byte list \<Rightarrow> u32 \<times> byte list" where
  "murmur_loop32 h (b0 # b1 # b2 # b3 # s) =
     murmur_loop32 ((h * murmur_m) XOR murmur_k (pack_4bytes [b0, b1, b2, b3])) s"
| "murmur_loop32 h s = (h, s)"

text \<open>The \<open>switch\<close> falls through from the number of bytes left.\<close>

definition murmur_tail :: "u32 \<Rightarrow> byte list \<Rightarrow> u32" where
  "murmur_tail h p =
     (let h = (if length p \<ge> 3 then h XOR push_bit 16 (ucast (p ! 2)) else h);
          h = (if length p \<ge> 2 then h XOR push_bit 8 (ucast (p ! 1)) else h)
      in (if length p \<ge> 1 then (h XOR ucast (p ! 0)) * murmur_m else h))"

definition murmur_final :: "u32 \<Rightarrow> u32" where
  "murmur_final h =
     (let h = h XOR drop_bit 13 h; h = h * murmur_m in h XOR drop_bit 15 h)"

definition murmur_hash32 :: "byte list \<Rightarrow> u32" where
  "murmur_hash32 key =
     (case murmur_loop32 (97 XOR of_nat (length key)) key of (h, p) \<Rightarrow> murmur_final (murmur_tail h p))"

fun murmur_loop64 :: "u32 \<Rightarrow> u32 \<Rightarrow> byte list \<Rightarrow> u32 \<times> u32 \<times> byte list" where
  "murmur_loop64 h1 h2 (b0 # b1 # b2 # b3 # b4 # b5 # b6 # b7 # s) =
     murmur_loop64 ((h1 * murmur_m) XOR murmur_k (pack_4bytes [b0, b1, b2, b3]))
       ((h2 * murmur_m) XOR murmur_k (pack_4bytes [b4, b5, b6, b7])) s"
| "murmur_loop64 h1 h2 s = (h1, h2, s)"

definition murmur_final64 :: "u32 \<Rightarrow> u32 \<Rightarrow> u64" where
  "murmur_final64 h1 h2 =
     (let h1 = (h1 XOR drop_bit 18 h2) * murmur_m;
          h2 = (h2 XOR drop_bit 22 h1) * murmur_m;
          h1 = (h1 XOR drop_bit 17 h2) * murmur_m;
          h2 = (h2 XOR drop_bit 19 h1) * murmur_m
      in push_bit 32 (ucast h1) OR ucast h2)"

definition murmur_hash64 :: "byte list \<Rightarrow> u64" where
  "murmur_hash64 key =
     (let (h1, h2, p) = murmur_loop64 (97 XOR of_nat (length key)) 0 key;
          (h1, p) = (if length p \<ge> 4 then ((h1 * murmur_m) XOR murmur_k (pack_4bytes p), drop 4 p)
                     else (h1, p))
      in murmur_final64 h1 (murmur_tail h2 p))"

section \<open>Jenkins' mixes\<close>

text \<open>The portable reading of a word: its bytes shifted and added.\<close>

fun byte_sum :: "byte list \<Rightarrow> 'a::len word" where
  "byte_sum [] = 0"
| "byte_sum (b # bs) = ucast b + push_bit 8 (byte_sum bs)"

text \<open>A case label of a \<open>switch\<close> on the number \<open>n\<close> of bytes left, with the fall into it from above.\<close>

definition fall :: "byte list \<Rightarrow> nat \<Rightarrow> nat \<Rightarrow> 'a::len word \<Rightarrow> 'a word" where
  "fall s i shift x = (if i < length s then x + push_bit shift (ucast (s ! i)) else x)"

definition MIX3_UINT32 :: "u32 \<times> u32 \<times> u32 \<Rightarrow> u32 \<times> u32 \<times> u32" where
  "MIX3_UINT32 abc =
     (case abc of (a, b, c) \<Rightarrow>
        let a = a - b; a = a - c; a = a XOR drop_bit 13 c;
            b = b - c; b = b - a; b = b XOR push_bit 8 a;
            c = c - a; c = c - b; c = c XOR drop_bit 13 b;
            a = a - b; a = a - c; a = a XOR drop_bit 12 c;
            b = b - c; b = b - a; b = b XOR push_bit 16 a;
            c = c - a; c = c - b; c = c XOR drop_bit 5 b;
            a = a - b; a = a - c; a = a XOR drop_bit 3 c;
            b = b - c; b = b - a; b = b XOR push_bit 10 a;
            c = c - a; c = c - b; c = c XOR drop_bit 15 b
        in (a, b, c))"

function mix_loop32 :: "(byte list \<Rightarrow> u32) \<Rightarrow> u32 \<times> u32 \<times> u32 \<Rightarrow> byte list \<Rightarrow> (u32 \<times> u32 \<times> u32) \<times> byte list" where
  "mix_loop32 rd abc s =
     (if length s \<ge> 12
      then (case abc of (a, b, c) \<Rightarrow>
              mix_loop32 rd (MIX3_UINT32 (a + rd (take 4 s), b + rd (take 4 (drop 4 s)),
                                          c + rd (take 4 (drop 8 s)))) (drop 12 s))
      else (abc, s))"
  by pat_completeness auto
termination by (relation "measure (\<lambda>(rd, abc, s). length s)") auto

definition mix_tail32 :: "byte list \<Rightarrow> u32 \<times> u32 \<times> u32 \<Rightarrow> u32 \<times> u32 \<times> u32" where
  "mix_tail32 s abc =
     (case abc of (a, b, c) \<Rightarrow>
        let c = fall s 10 24 c; c = fall s 9 16 c; c = fall s 8 8 c;
            b = fall s 7 24 b; b = fall s 6 16 b; b = fall s 5 8 b; b = fall s 4 0 b;
            a = fall s 3 24 a; a = fall s 2 16 a; a = fall s 1 8 a; a = fall s 0 0 a
        in (a, b, c))"

definition mix_hash32 :: "(byte list \<Rightarrow> u32) \<Rightarrow> u32 \<Rightarrow> byte list \<Rightarrow> u32" where
  "mix_hash32 rd c s =
     (let ((a, b, c), rest) = mix_loop32 rd (0x9e3779b9, 0x9e3779b9, c) s;
          c = c + of_nat (length s);
          (a, b, c) = MIX3_UINT32 (mix_tail32 rest (a, b, c))
      in c)"

definition MIX3_UINT64 :: "u64 \<times> u64 \<times> u64 \<Rightarrow> u64 \<times> u64 \<times> u64" where
  "MIX3_UINT64 abc =
     (case abc of (a, b, c) \<Rightarrow>
        let a = a - b; a = a - c; a = a XOR drop_bit 43 c;
            b = b - c; b = b - a; b = b XOR push_bit 9 a;
            c = c - a; c = c - b; c = c XOR drop_bit 8 b;
            a = a - b; a = a - c; a = a XOR drop_bit 38 c;
            b = b - c; b = b - a; b = b XOR push_bit 23 a;
            c = c - a; c = c - b; c = c XOR drop_bit 5 b;
            a = a - b; a = a - c; a = a XOR drop_bit 35 c;
            b = b - c; b = b - a; b = b XOR push_bit 49 a;
            c = c - a; c = c - b; c = c XOR drop_bit 11 b;
            a = a - b; a = a - c; a = a XOR drop_bit 12 c;
            b = b - c; b = b - a; b = b XOR push_bit 18 a;
            c = c - a; c = c - b; c = c XOR drop_bit 22 b
        in (a, b, c))"

function mix_loop64 :: "(byte list \<Rightarrow> u64) \<Rightarrow> u64 \<times> u64 \<times> u64 \<Rightarrow> byte list \<Rightarrow> (u64 \<times> u64 \<times> u64) \<times> byte list" where
  "mix_loop64 rd abc s =
     (if length s \<ge> 24
      then (case abc of (a, b, c) \<Rightarrow>
              mix_loop64 rd (MIX3_UINT64 (a + rd (take 8 s), b + rd (take 8 (drop 8 s)),
                                          c + rd (take 8 (drop 16 s)))) (drop 24 s))
      else (abc, s))"
  by pat_completeness auto
termination by (relation "measure (\<lambda>(rd, abc, s). length s)") auto

definition mix_tail64 :: "byte list \<Rightarrow> u64 \<times> u64 \<times> u64 \<Rightarrow> u64 \<times> u64 \<times> u64" where
  "mix_tail64 s abc =
     (case abc of (a, b, c) \<Rightarrow>
        let c = fall s 22 56 c; c = fall s 21 48 c; c = fall s 20 40 c; c = fall s 19 32 c;
            c = fall s 18 24 c; c = fall s 17 16 c; c = fall s 16 8 c;
            b = fall s 15 56 b; b = fall s 14 48 b; b = fall s 13 40 b; b = fall s 12 32 b;
            b = fall s 11 24 b; b = fall s 10 16 b; b = fall s 9 8 b; b = fall s 8 0 b;
            a = fall s 7 56 a; a = fall s 6 48 a; a = fall s 5 40 a; a = fall s 4 32 a;
            a = fall s 3 24 a; a = fall s 2 16 a; a = fall s 1 8 a; a = fall s 0 0 a
        in (a, b, c))"

definition mix_hash64 :: "(byte list \<Rightarrow> u64) \<Rightarrow> u64 \<Rightarrow> byte list \<Rightarrow> u64" where
  "mix_hash64 rd c s =
     (let ((a, b, c), rest) = mix_loop64 rd (c, c, push_bit 32 0x9e3779b9 OR 0x7f4a7c13) s;
          c = c + of_nat (length s);
          (a, b, c) = MIX3_UINT64 (mix_tail64 rest (a, b, c))
      in c)"

declare mix_loop32.simps [simp del] mix_loop64.simps [simp del]

section \<open>The twins\<close>

definition ROT_UINT :: "u32 \<Rightarrow> nat \<Rightarrow> u32" where
  "ROT_UINT x k = push_bit k x OR drop_bit (32 - k) x"

definition MIX_UINT_LOOP :: "u32 \<times> u32 \<times> u32 \<Rightarrow> u32 \<times> u32 \<times> u32" where
  "MIX_UINT_LOOP abc =
     (case abc of (a, b, c) \<Rightarrow>
        let a = a - c; a = a XOR ROT_UINT c 4; c = c + b;
            b = b - a; b = b XOR ROT_UINT a 6; a = a + c;
            c = c - b; c = c XOR ROT_UINT b 8; b = b + a;
            a = a - c; a = a XOR ROT_UINT c 16; c = c + b;
            b = b - a; b = b XOR ROT_UINT a 19; a = a + c;
            c = c - b; c = c XOR ROT_UINT b 4; b = b + a
        in (a, b, c))"

definition MIX_UINT_DONE :: "u32 \<times> u32 \<times> u32 \<Rightarrow> u32 \<times> u32 \<times> u32" where
  "MIX_UINT_DONE abc =
     (case abc of (a, b, c) \<Rightarrow>
        let c = c XOR b; c = c - ROT_UINT b 14;
            a = a XOR c; a = a - ROT_UINT c 11;
            b = b XOR a; b = b - ROT_UINT a 25;
            c = c XOR b; c = c - ROT_UINT b 16;
            a = a XOR c; a = a - ROT_UINT c 4;
            b = b XOR a; b = b - ROT_UINT a 14;
            c = c XOR b; c = c - ROT_UINT b 24
        in (a, b, c))"

function twins_loop :: "(byte list \<Rightarrow> u32) \<Rightarrow> u32 \<times> u32 \<times> u32 \<Rightarrow> byte list \<Rightarrow> (u32 \<times> u32 \<times> u32) \<times> byte list" where
  "twins_loop rd abc s =
     (if length s > 12
      then (case abc of (a, b, c) \<Rightarrow>
              twins_loop rd (MIX_UINT_LOOP (a + rd (take 4 s), b + rd (take 4 (drop 4 s)),
                                            c + rd (take 4 (drop 8 s)))) (drop 12 s))
      else (abc, s))"
  by pat_completeness auto
termination by (relation "measure (\<lambda>(rd, abc, s). length s)") auto

declare twins_loop.simps [simp del]

text \<open>The two \<open>switch\<close>es: whole words where the key is aligned, bytes otherwise.\<close>

definition twins_tail_words :: "byte list \<Rightarrow> u32 \<times> u32 \<times> u32 \<Rightarrow> u32 \<times> u32 \<times> u32" where
  "twins_tail_words s abc =
     (case abc of (a, b, c) \<Rightarrow>
        let k0 = le_word (take 4 s); k1 = le_word (take 4 (drop 4 s)); k2 = le_word (take 4 (drop 8 s)) in
        if length s = 12 then (a + k0, b + k1, c + k2)
        else if length s \<ge> 8
        then (let c = fall s 10 16 c; c = fall s 9 8 c; c = fall s 8 0 c in (a + k0, b + k1, c))
        else if length s \<ge> 4
        then (let b = fall s 6 16 b; b = fall s 5 8 b; b = fall s 4 0 b in (a + k0, b, c))
        else (let a = fall s 2 16 a; a = fall s 1 8 a; a = fall s 0 0 a in (a, b, c)))"

definition twins_tail_bytes :: "byte list \<Rightarrow> u32 \<times> u32 \<times> u32 \<Rightarrow> u32 \<times> u32 \<times> u32" where
  "twins_tail_bytes s abc =
     (case abc of (a, b, c) \<Rightarrow>
        let c = fall s 11 24 c; c = fall s 10 16 c; c = fall s 9 8 c; c = fall s 8 0 c;
            b = fall s 7 24 b; b = fall s 6 16 b; b = fall s 5 8 b; b = fall s 4 0 b;
            a = fall s 3 24 a; a = fall s 2 16 a; a = fall s 1 8 a; a = fall s 0 0 a
        in (a, b, c))"

text \<open>\<open>pb\<close> may be \<open>NULL\<close>; the new values of \<open>*pc\<close> and \<open>*pb\<close>. \<open>aligned\<close> is the test of the address.\<close>

definition hash32_twins :: "bool \<Rightarrow> byte list \<Rightarrow> u32 \<Rightarrow> u32 option \<Rightarrow> u32 \<times> u32 option" where
  "hash32_twins aligned s pc pb =
     (let x = 0xdeadbeef + of_nat (length s) + pc;
          c = (case pb of None \<Rightarrow> x | Some p \<Rightarrow> x + p);
          (abc, rest) = twins_loop (if aligned then le_word else byte_sum) (x, x, c) s
      in if rest = [] then (case abc of (a, b, c) \<Rightarrow> (c, map_option (\<lambda>_. b) pb))
         else (case MIX_UINT_DONE ((if aligned then twins_tail_words else twins_tail_bytes) rest abc) of
                 (a, b, c) \<Rightarrow> (c, map_option (\<lambda>_. b) pb)))"

definition hash32_one :: "bool \<Rightarrow> u32 \<Rightarrow> byte list \<Rightarrow> u32" where
  "hash32_one aligned c s = fst (hash32_twins aligned s c None)"

definition g0_twin32 :: "bool \<Rightarrow> byte list \<Rightarrow> u32 \<times> u32 option" where
  "g0_twin32 aligned s = hash32_twins aligned s 13 (Some 0)"

definition g1_hash64 :: "(byte list \<Rightarrow> u32) \<Rightarrow> byte list \<Rightarrow> u64" where
  "g1_hash64 rd s =
     (let i1 = ucast (mix_hash32 rd 0 s); i2 = ucast (mix_hash32 rd 0x13572468 s)
      in push_bit 32 i1 OR i2)"

definition g2_hash64 :: "(byte list \<Rightarrow> u64) \<Rightarrow> byte list \<Rightarrow> u64" where
  "g2_hash64 rd s = mix_hash64 rd (push_bit 32 0x7902cac3 OR 0x9f392d18) s"

definition g3_hash64 :: "bool \<Rightarrow> byte list \<Rightarrow> u64" where
  "g3_hash64 aligned s =
     (case hash32_twins aligned s 13 (Some 0) of (c, b) \<Rightarrow>
        push_bit 32 (ucast (case b of Some b \<Rightarrow> b | None \<Rightarrow> 0)) + ucast c)"

section \<open>Reading words\<close>

lemma byte_sum_le_word: "byte_sum bs = le_word bs"
proof (induction bs)
  case (Cons b bs)
  have "ucast b + push_bit 8 (le_word bs) = (ucast b OR push_bit 8 (le_word bs) :: 'a word)"
    by (rule disjunctive_add_eq_or) (rule bit_word_eqI, auto simp: bit_simps dest: bit_imp_le_length)
  with Cons show ?case by simp
qed simp

lemma byte_sum_fun: "byte_sum = le_word"
  by (rule ext) (rule byte_sum_le_word)

lemma le_word_4:
  assumes "i + 4 \<le> length s"
  shows "(le_word (take 4 (drop i s)) :: u32) = ucast (s ! i) + push_bit 8 (ucast (s ! (i + 1))) +
     push_bit 16 (ucast (s ! (i + 2))) + push_bit 24 (ucast (s ! (i + 3)))"
proof -
  have "take 4 (drop i s) = [s ! i, s ! (i + 1), s ! (i + 2), s ! (i + 3)]"
    using assms by (intro nth_equalityI) (auto simp: less_Suc_eq numeral_eq_Suc)
  then show ?thesis
    by (simp only: byte_sum_le_word [symmetric]) (simp add: push_bit_add push_bit_push_bit add.assoc)
qed

lemma tails_agree:
  assumes "length s \<le> 12"
  shows "twins_tail_words s abc = twins_tail_bytes s abc"
proof -
  obtain a b c where abc: "abc = (a, b, c)" by (cases abc)
  have w: "4 \<le> length s \<Longrightarrow> le_word (take 4 s) = ucast (s ! 0) + push_bit 8 (ucast (s ! 1)) +
       push_bit 16 (ucast (s ! 2)) + push_bit 24 (ucast (s ! 3) :: u32)"
    "8 \<le> length s \<Longrightarrow> le_word (take 4 (drop 4 s)) = ucast (s ! 4) + push_bit 8 (ucast (s ! 5)) +
       push_bit 16 (ucast (s ! 6)) + push_bit 24 (ucast (s ! 7) :: u32)"
    "12 \<le> length s \<Longrightarrow> le_word (take 4 (drop 8 s)) = ucast (s ! 8) + push_bit 8 (ucast (s ! 9)) +
       push_bit 16 (ucast (s ! 10)) + push_bit 24 (ucast (s ! 11) :: u32)"
    using le_word_4 [of 0 s] le_word_4 [of 4 s] le_word_4 [of 8 s]
    by (simp_all add: numeral_2_eq_2 numeral_3_eq_3)
  consider "length s = 12" | "8 \<le> length s" "length s < 12" | "4 \<le> length s" "length s < 8" | "length s < 4"
    using assms by linarith
  then show ?thesis
  proof cases
    case 1
    then have "0 < length s" by simp
    with 1 w(3) show ?thesis
      by (simp add: abc twins_tail_words_def twins_tail_bytes_def fall_def w(1,2) Let_def ac_simps)
  next
    case 2
    then have "0 < length s" by linarith
    with 2 show ?thesis
      by (simp add: abc twins_tail_words_def twins_tail_bytes_def fall_def w Let_def ac_simps)
  next
    case 3
    then have "0 < length s" by linarith
    with 3 show ?thesis
      by (simp add: abc twins_tail_words_def twins_tail_bytes_def fall_def w Let_def ac_simps)
  next
    case 4
    then show ?thesis
      by (simp add: abc twins_tail_words_def twins_tail_bytes_def fall_def Let_def)
  qed
qed

section \<open>Injective steps\<close>

text \<open>A hash that takes a key in one byte after the other, each step losing nothing.\<close>

locale byte_hash =
  fixes hash_step :: "'h \<Rightarrow> 'b \<Rightarrow> 'h"
  assumes state_inj: "hash_step h b = hash_step h' b \<Longrightarrow> h = h'"
    and byte_inj: "hash_step h b = hash_step h b' \<Longrightarrow> b = b'"
begin

lemma run_inj: "foldl hash_step h bs = foldl hash_step h' bs \<Longrightarrow> h = h'"
  by (induction bs arbitrary: h h') (auto dest: state_inj)

lemma single_change: "foldl hash_step h (xs @ x # ys) = foldl hash_step h (xs @ y # ys) \<Longrightarrow> x = y"
  by (auto dest: run_inj byte_inj)

end

lemma ucast_byte_inj: "(ucast a :: u32) = ucast b \<Longrightarrow> a = (b :: byte)"
proof -
  assume "(ucast a :: u32) = ucast b"
  then have "(ucast (ucast a :: u32) :: byte) = ucast (ucast b :: u32)" by simp
  moreover have "(ucast (ucast x :: u32) :: byte) = x" for x :: byte
    by (rule bit_word_eqI) (auto simp: bit_simps)
  ultimately show ?thesis by simp
qed

lemma scast_byte_inj:
  "(scast a :: u32) = scast b \<Longrightarrow> a = (b :: byte)" "(scast c :: u64) = scast d \<Longrightarrow> c = (d :: byte)"
proof -
  have "(ucast (scast x :: u32) :: byte) = x" "(ucast (scast x :: u64) :: byte) = x" for x :: byte
    by (rule bit_word_eqI, auto simp: bit_simps)+
  then show "(scast a :: u32) = scast b \<Longrightarrow> a = b" "(scast c :: u64) = scast d \<Longrightarrow> c = d" by metis+
qed

interpretation tr1_32: byte_hash "\<lambda>key p :: byte. (key XOR scast p) * (16777619 :: u32)"
  by unfold_locales
    (auto dest!: mult_inj [where m' = 899433627, rotated] xor_inj scast_byte_inj)

interpretation tr1_64: byte_hash "\<lambda>key p :: byte. (key XOR scast p) * (1099511628211 :: u64)"
  by unfold_locales
    (auto dest!: mult_inj [where m' = 14886173955864302971, rotated] xor_inj scast_byte_inj)

interpretation ieee_hash: byte_hash "\<lambda>key b :: byte. 16777619 * key XOR (ucast b :: u32)"
  by unfold_locales
    (auto dest!: mult_inj [where m' = 899433627, rotated] xor_inj ucast_byte_inj simp: mult.commute [of 16777619])

interpretation hash_37: byte_hash "\<lambda>key b :: byte. 37 * key + (ucast b :: u32)"
  by unfold_locales
    (auto dest!: mult_inj [where m' = 2437684141, rotated] ucast_byte_inj simp: mult.commute [of 37])

interpretation hash_131: byte_hash "\<lambda>key b :: byte. 131 * key + (ucast b :: u32)"
  by unfold_locales
    (auto dest!: mult_inj [where m' = 3376959019, rotated] ucast_byte_inj simp: mult.commute [of 131])

text \<open>The word-wise steps of the Murmur hash lose nothing either.\<close>

lemma murmur_m_inj: "x * murmur_m = y * murmur_m \<Longrightarrow> x = y"
  by (rule mult_inj [where m = murmur_m and m' = 3852147133]) (simp_all add: murmur_m_def)

lemma murmur_k_inj: "murmur_k x = murmur_k y \<Longrightarrow> x = y"
  by (auto simp: murmur_k_def Let_def dest!: murmur_m_inj xorshift_inj)

definition murmur_step :: "u32 \<Rightarrow> u32 \<Rightarrow> u32" where
  "murmur_step h k = (h * murmur_m) XOR murmur_k k"

interpretation murmur: byte_hash murmur_step
  by unfold_locales (auto simp: murmur_step_def dest!: xor_inj murmur_m_inj murmur_k_inj)

text \<open>The words the loop takes from a key and the bytes it leaves.\<close>

fun blocks4 :: "byte list \<Rightarrow> u32 list" where
  "blocks4 (b0 # b1 # b2 # b3 # s) = pack_4bytes [b0, b1, b2, b3] # blocks4 s"
| "blocks4 s = []"

fun rest4 :: "byte list \<Rightarrow> byte list" where
  "rest4 (b0 # b1 # b2 # b3 # s) = rest4 s"
| "rest4 s = s"

lemma murmur_loop_blocks: "murmur_loop32 h s = (foldl murmur_step h (blocks4 s), rest4 s)"
  by (induction h s rule: murmur_loop32.induct) (simp_all add: murmur_step_def)

lemma blocks4_append:
  "length xs mod 4 = 0 \<Longrightarrow> blocks4 (xs @ ys) = blocks4 xs @ blocks4 ys \<and> rest4 (xs @ ys) = rest4 ys"
  by (induction xs rule: blocks4.induct) simp_all

lemma murmur_tail_inj: "murmur_tail h p = murmur_tail h' p \<Longrightarrow> h = h'"
  by (auto simp: murmur_tail_def Let_def dest!: murmur_m_inj xor_inj split: if_splits)

lemma murmur_final_inj: "murmur_final h = murmur_final h' \<Longrightarrow> h = h'"
  by (auto simp: murmur_final_def Let_def dest!: murmur_m_inj xorshift_inj)

lemma pack_inj:
  assumes "length x = 4" "length y = 4" "pack_4bytes x = pack_4bytes y"
  shows "x = y"
proof -
  have "le_bytes 4 (pack_4bytes x) = x" "le_bytes 4 (pack_4bytes y) = y"
    using le_bytes_le_word [where 'a = 32, of x] le_bytes_le_word [where 'a = 32, of y] assms(1,2)
    by (simp_all add: pack_4bytes_def)
  then show ?thesis using assms(3) by metis
qed

lemma blocks4_single: "length x = 4 \<Longrightarrow> blocks4 x = [pack_4bytes x]"
  by (cases x rule: blocks4.cases) (auto simp: pack_4bytes_def)

section \<open>Properties\<close>

text \<open>Every one-byte change of a key changes its hash, for each of the byte-wise functions and any
  start value.\<close>

lemma byte_hashes_detect_change:
  assumes "x \<noteq> y"
  shows "tr1_hash32 (xs @ x # ys) \<noteq> tr1_hash32 (xs @ y # ys) \<and>
         tr1_hash64 (xs @ x # ys) \<noteq> tr1_hash64 (xs @ y # ys) \<and>
         hash_ieee key (xs @ x # ys) \<noteq> hash_ieee key (xs @ y # ys) \<and>
         hash37 key (xs @ x # ys) \<noteq> hash37 key (xs @ y # ys) \<and>
         hash131 key (xs @ x # ys) \<noteq> hash131 key (xs @ y # ys)"
proof (intro conjI notI)
  note d = notE [OF assms]
  { assume "tr1_hash32 (xs @ x # ys) = tr1_hash32 (xs @ y # ys)"
    then show False unfolding tr1_hash32_def by (rule d [OF tr1_32.single_change]) }
  { assume "tr1_hash64 (xs @ x # ys) = tr1_hash64 (xs @ y # ys)"
    then show False unfolding tr1_hash64_def by (rule d [OF tr1_64.single_change]) }
  { assume "hash_ieee key (xs @ x # ys) = hash_ieee key (xs @ y # ys)"
    then show False unfolding hash_ieee_def by (rule d [OF ieee_hash.single_change]) }
  { assume "hash37 key (xs @ x # ys) = hash37 key (xs @ y # ys)"
    then show False unfolding hash37_def by (rule d [OF hash_37.single_change]) }
  { assume "hash131 key (xs @ x # ys) = hash131 key (xs @ y # ys)"
    then show False unfolding hash131_def by (rule d [OF hash_131.single_change]) }
qed

text \<open>Two keys that differ only in one aligned word of four bytes have different Murmur hashes.\<close>

lemma murmur_hash32_detects_word:
  assumes "length xs mod 4 = 0" and "length x = 4" and "length y = 4" and "x \<noteq> y"
  shows "murmur_hash32 (xs @ x @ ys) \<noteq> murmur_hash32 (xs @ y @ ys)"
proof
  assume eq: "murmur_hash32 (xs @ x @ ys) = murmur_hash32 (xs @ y @ ys)"
  have b: "blocks4 (xs @ z @ ys) = blocks4 xs @ pack_4bytes z # blocks4 ys \<and> rest4 (xs @ z @ ys) = rest4 ys"
    if "length z = 4" for z
    using blocks4_append [OF assms(1), of "z @ ys"] blocks4_append [of z ys] blocks4_single [OF that] that by simp
  from eq have "pack_4bytes x = pack_4bytes y"
    by (auto simp: murmur_hash32_def murmur_loop_blocks b [OF assms(2)] b [OF assms(3)] assms(2,3)
        dest!: murmur_final_inj murmur_tail_inj murmur.run_inj murmur.byte_inj)
  then show False using pack_inj assms by blast
qed

text \<open>C28. The value of a hash does not depend on how the code reads the key: the aligned word reads of
  \<open>hash32_twins\<close> give what its byte-wise path gives, and the functions built on it and on the mixes
  give the same on the little-endian and on the portable path.\<close>

theorem jenkins_hashes_portable:
  "hash32_twins True s pc pb = hash32_twins False s pc pb \<and>
   hash32_one True key s = hash32_one False key s \<and>
   g0_twin32 True s = g0_twin32 False s \<and> g1_hash64 le_word s = g1_hash64 byte_sum s \<and>
   g2_hash64 le_word s = g2_hash64 byte_sum s \<and> g3_hash64 True s = g3_hash64 False s"
proof -
  have "length (snd (twins_loop rd abc s)) \<le> 12" for rd abc s
    by (induction rd abc s rule: twins_loop.induct) (subst twins_loop.simps, auto)
  then have "hash32_twins True s pc pb = hash32_twins False s pc pb" for s pc pb
    by (simp add: hash32_twins_def byte_sum_fun split_beta Let_def tails_agree)
  then show ?thesis
    by (simp add: hash32_one_def g0_twin32_def g3_hash64_def byte_sum_fun)
qed

end
