(* ===== verification/Mt_Rand.thy ===== *)
theory Mt_Rand
  imports Complex_Main Prelude
begin

unbundle bit_operations_syntax

text \<open>
  The Mersenne Twister (\<open>mt_rand.c\<close>, without \<open>USE_PHP_STYLE\<close>): seeding from a word and from an
  array, the renewal of the state in place, tempering, and the derived numbers. The state is a list
  of 624 words; \<open>next\<close> is an index into it. A floating-point operation is the real one followed by
  a rounding \<open>rnd\<close> (\<open>rounds_normal\<close> is what is used of it: exact at 0, a relative error of 2^-53
  where the result is a normal number); \<open>double_round\<close> is that of IEEE doubles, to the nearest,
  ties to even, subnormals included.
\<close>

section \<open>The generator\<close>

definition MT_N :: nat where "MT_N = 624"
definition MT_M :: nat where "MT_M = 397"

definition hiBit :: "u32 \<Rightarrow> u32" where
  "hiBit u = u AND 0x80000000"

definition loBit :: "u32 \<Rightarrow> u32" where
  "loBit u = u AND 0x00000001"

definition loBits :: "u32 \<Rightarrow> u32" where
  "loBits u = u AND 0x7FFFFFFF"

definition mixBits :: "u32 \<Rightarrow> u32 \<Rightarrow> u32" where
  "mixBits u v = hiBit u OR loBits v"

definition twist :: "u32 \<Rightarrow> u32 \<Rightarrow> u32 \<Rightarrow> u32" where
  "twist m u v = m XOR drop_bit 1 (mixBits u v) XOR (if loBit v \<noteq> 0 then 0x9908b0df else 0)"

record mt_str =
  mt_state :: "u32 list"
  mt_left :: nat
  mt_next :: nat

text \<open>\<open>init_state\<close> writes the words one after the other, each from the one before.\<close>

fun init_state_loop :: "nat \<Rightarrow> nat \<Rightarrow> u32 \<Rightarrow> u32 list" where
  "init_state_loop 0 i r = []"
| "init_state_loop (Suc n) i r =
     (let s = 1812433253 * (r XOR drop_bit 30 r) + of_nat i in s # init_state_loop n (Suc i) s)"

definition init_state :: "u32 \<Rightarrow> u32 list" where
  "init_state seed = seed # init_state_loop (MT_N - 1) 1 seed"

text \<open>\<open>init_state_ex\<close>: the two loops on the state and the positions \<open>i\<close> and \<open>j\<close>.\<close>

definition mt_wrap :: "u32 list \<times> nat \<Rightarrow> u32 list \<times> nat" where
  "mt_wrap s = (case s of (st, i) \<Rightarrow> if i \<ge> MT_N then (st[0 := st ! (MT_N - 1)], 1) else (st, i))"

fun init_ex_seed :: "u32 list \<Rightarrow> nat \<Rightarrow> u32 list \<Rightarrow> nat \<Rightarrow> nat \<Rightarrow> u32 list \<times> nat" where
  "init_ex_seed seed 0 st i j = (st, i)"
| "init_ex_seed seed (Suc k) st i j =
     (let x = st ! i XOR ((st ! (i - 1) XOR drop_bit 30 (st ! (i - 1))) * 1664525);
          (st, i) = mt_wrap (st[i := x + (seed ! j + of_nat j)], i + 1);
          j = (if j + 1 \<ge> length seed then 0 else j + 1)
      in init_ex_seed seed k st i j)"

fun init_ex_mix :: "nat \<Rightarrow> u32 list \<Rightarrow> nat \<Rightarrow> u32 list" where
  "init_ex_mix 0 st i = st"
| "init_ex_mix (Suc k) st i =
     (let x = st ! i XOR ((st ! (i - 1) XOR drop_bit 30 (st ! (i - 1))) * 1566083941);
          (st, i) = mt_wrap (st[i := x - of_nat i], i + 1)
      in init_ex_mix k st i)"

definition init_state_ex :: "u32 list \<Rightarrow> u32 list" where
  "init_state_ex seed =
     (let k = (if MT_N > length seed then MT_N else length seed);
          (st, i) = init_ex_seed seed k (init_state 19650218) 1 0
      in (init_ex_mix (MT_N - 1) st i)[0 := 0x80000000])"

text \<open>\<open>renew_state\<close>: every word is overwritten in turn; \<open>m\<close> is the offset of the third word it reads.\<close>

definition renew_at :: "int \<Rightarrow> nat \<Rightarrow> u32 list \<Rightarrow> u32 list" where
  "renew_at m i st = st[i := twist (st ! nat (int i + m)) (st ! i) (st ! (i + 1))]"

definition renew_state :: "u32 list \<Rightarrow> u32 list" where
  "renew_state st0 =
     (let st = fold (renew_at (int MT_M)) [0..<MT_N - MT_M] st0;
          st = fold (renew_at (int MT_M - int MT_N)) [MT_N - MT_M..<MT_N - 1] st;
          p = MT_N - 1
      in st[p := twist (st ! (p + MT_M - MT_N)) (st ! p) (st ! 0)])"

definition mt_temper :: "u32 \<Rightarrow> u32" where
  "mt_temper s1 =
     (let s1 = s1 XOR drop_bit 11 s1;
          s1 = s1 XOR (push_bit 7 s1 AND 0x9d2c5680);
          s1 = s1 XOR (push_bit 15 s1 AND 0xefc60000)
      in s1 XOR drop_bit 18 s1)"

definition exec_rand :: "mt_str \<Rightarrow> u32 \<times> mt_str" where
  "exec_rand mt =
     (let mt = (if mt_left mt = 0
                then \<lparr>mt_state = renew_state (mt_state mt), mt_left = MT_N, mt_next = 0\<rparr> else mt)
      in (mt_temper (mt_state mt ! mt_next mt),
          mt\<lparr>mt_left := mt_left mt - 1, mt_next := mt_next mt + 1\<rparr>))"

text \<open>\<open>malloced\<close> tells whether \<open>malloc\<close> returned memory.\<close>

definition mt_seed :: "bool \<Rightarrow> u32 \<Rightarrow> mt_str option" where
  "mt_seed malloced seed =
     (if malloced
      then Some \<lparr>mt_state = init_state (if seed = 0 then 5489 else seed), mt_left = 0, mt_next = 0\<rparr>
      else None)"

definition mt_seed_ex :: "bool \<Rightarrow> u32 list \<Rightarrow> mt_str option" where
  "mt_seed_ex malloced seed =
     (if malloced then Some \<lparr>mt_state = init_state_ex seed, mt_left = 0, mt_next = 0\<rparr> else None)"

section \<open>Derived numbers\<close>

definition mt_rand :: "mt_str \<Rightarrow> int \<times> mt_str" where
  "mt_rand mt = (case exec_rand mt of (r, mt') \<Rightarrow> (sint (drop_bit 1 r), mt'))"

definition mt_rand_u32 :: "mt_str \<Rightarrow> u32 \<times> mt_str" where
  "mt_rand_u32 mt = exec_rand mt"

definition mt_rand_r53 :: "(real \<Rightarrow> real) \<Rightarrow> mt_str \<Rightarrow> real \<times> mt_str" where
  "mt_rand_r53 rnd mt =
     (let (a, mt) = exec_rand mt; (b, mt) = exec_rand mt;
          a = real (unat (drop_bit 5 a)); b = real (unat (drop_bit 6 b))
      in (rnd (rnd (rnd (a * 67108864) + b) * rnd (1 / 9007199254740992)), mt))"

definition mt_rand_r1 :: "(real \<Rightarrow> real) \<Rightarrow> mt_str \<Rightarrow> real \<times> mt_str" where
  "mt_rand_r1 rnd mt = (case exec_rand mt of (r, mt') \<Rightarrow> (rnd (real (unat r) * rnd (1 / 4294967295)), mt'))"

definition mt_rand_r2 :: "(real \<Rightarrow> real) \<Rightarrow> mt_str \<Rightarrow> real \<times> mt_str" where
  "mt_rand_r2 rnd mt = (case exec_rand mt of (r, mt') \<Rightarrow> (rnd (real (unat r) * rnd (1 / 4294967296)), mt'))"

definition mt_rand_r3 :: "(real \<Rightarrow> real) \<Rightarrow> mt_str \<Rightarrow> real \<times> mt_str" where
  "mt_rand_r3 rnd mt =
     (case exec_rand mt of (r, mt') \<Rightarrow> (rnd (rnd (real (unat r) + 1 / 2) * rnd (1 / 4294967296)), mt'))"

text \<open>\<open>None\<close>: the number of values does not fit an \<open>int32_t\<close>.\<close>

definition mt_range :: "(real \<Rightarrow> real) \<Rightarrow> mt_str \<Rightarrow> int \<Rightarrow> int \<Rightarrow> (int \<times> mt_str) option" where
  "mt_range rnd mt tmin tmax =
     (let n = tmax - tmin + 1 in
      if - (2 ^ 31) \<le> tmax - tmin \<and> tmax - tmin < 2 ^ 31 \<and> n < 2 ^ 31
      then (case mt_rand_r2 rnd mt of (r, mt') \<Rightarrow>
              let x = rnd (of_int n * r)
              in Some (tmin + (if x \<ge> 0 then \<lfloor>x\<rfloor> else \<lceil>x\<rceil>), mt'))
      else None)"

section \<open>The sequence\<close>

text \<open>The numbers of the recurrence that continues the initial state without end.\<close>

function mt_seq :: "u32 list \<Rightarrow> nat \<Rightarrow> u32" where
  "mt_seq init n =
     (if n < 624 then init ! n
      else twist (mt_seq init (n - 227)) (mt_seq init (n - 624)) (mt_seq init (n - 623)))"
  by pat_completeness auto
termination by (relation "measure snd") auto

declare mt_seq.simps [simp del]

lemma mt_seq_rec:
  "mt_seq init (n + 624) = twist (mt_seq init (n + 397)) (mt_seq init n) (mt_seq init (n + 1))"
  by (subst mt_seq.simps) (simp add: add.commute)

text \<open>After \<open>i\<close> words are renewed the state holds the sequence shifted by 624 up to there.\<close>

definition part_renewed :: "(nat \<Rightarrow> u32) \<Rightarrow> nat \<Rightarrow> u32 list \<Rightarrow> bool" where
  "part_renewed x i st \<longleftrightarrow> length st = 624 \<and>
     (\<forall>j < 624. st ! j = (if j < i then x (j + 624) else x j))"

lemma renew_state_sequence:
  assumes rec: "\<And>n. x (n + 624) = twist (x (n + 397)) (x n) (x (n + 1))"
    and st: "length st = 624" "\<And>j. j < 624 \<Longrightarrow> st ! j = x j"
  shows "length (renew_state st) = 624 \<and> (\<forall>j < 624. renew_state st ! j = x (j + 624))"
proof -
  let ?s1 = "fold (renew_at 397) [0..<227] st"
  let ?s2 = "fold (renew_at (- 227)) [227..<623] ?s1"
  have "part_renewed x 0 st" using st by (simp add: part_renewed_def)
  then have "part_renewed x 227 ?s1"
  proof (rule fold_upt_invariant [where P = "part_renewed x" and a = 0 and b = 227, rotated])
    fix i s assume "i < 227" "part_renewed x i s"
    then show "part_renewed x (Suc i) (renew_at 397 i s)"
      using rec [of i] by (auto simp: part_renewed_def renew_at_def nth_list_update less_Suc_eq nat_add_distrib add.commute)
  qed simp
  then have "part_renewed x 623 ?s2"
  proof (rule fold_upt_invariant [where P = "part_renewed x" and a = 227 and b = 623, rotated])
    fix i s assume i: "227 \<le> i" "i < 623" "part_renewed x i s"
    then have "nat (int i - 227) = i - 227" by (simp add: nat_diff_distrib)
    moreover have "i - 227 + 624 = i + 397" using i(1) by simp
    ultimately show "part_renewed x (Suc i) (renew_at (- 227) i s)"
      using i rec [of i] by (auto simp: part_renewed_def renew_at_def nth_list_update less_Suc_eq add.commute)
  qed simp
  then have s2: "length ?s2 = 624" "\<And>j. j < 624 \<Longrightarrow> ?s2 ! j = (if j < 623 then x (j + 624) else x j)"
    by (simp_all add: part_renewed_def less_Suc_eq del: upt_rec_numeral)
  have r: "renew_state st = ?s2[623 := twist (?s2 ! 396) (?s2 ! 623) (?s2 ! 0)]"
    by (simp add: renew_state_def MT_N_def MT_M_def del: upt_rec_numeral)
  have "?s2 ! 396 = x (623 + 397)" "?s2 ! 623 = x 623" "?s2 ! 0 = x (623 + 1)"
    using s2(2) [of 396] s2(2) [of 623] s2(2) [of 0] by simp_all
  then have "twist (?s2 ! 396) (?s2 ! 623) (?s2 ! 0) = x (623 + 624)"
    using rec [of 623] by (simp del: upt_rec_numeral)
  moreover have "renew_state st ! j = x (j + 624)" if "j < 624" for j
    unfolding r using s2 calculation that by (simp add: nth_list_update del: upt_rec_numeral)
  ultimately show ?thesis using s2(1) unfolding r by (simp del: upt_rec_numeral)
qed

section \<open>Draws\<close>

primrec mt_take :: "nat \<Rightarrow> mt_str \<Rightarrow> u32 list \<times> mt_str" where
  "mt_take 0 mt = ([], mt)"
| "mt_take (Suc n) mt =
     (case mt_rand_u32 mt of (r, mt') \<Rightarrow> (case mt_take n mt' of (rs, mt'') \<Rightarrow> (r # rs, mt'')))"

text \<open>The generator after \<open>k\<close> draws: \<open>q\<close> renewals, and the words not yet handed out.\<close>

definition mt_at :: "u32 list \<Rightarrow> nat \<Rightarrow> mt_str \<Rightarrow> bool" where
  "mt_at init k mt \<longleftrightarrow> length (mt_state mt) = 624 \<and> mt_left mt \<le> 624 \<and>
     (mt_left mt > 0 \<longrightarrow> mt_next mt = 624 - mt_left mt) \<and>
     (\<exists>q. k + mt_left mt = 624 * q \<and> (\<forall>j < 624. mt_state mt ! j = mt_seq init (624 * q + j)))"

lemma mt_at_start: "mt_left mt = 0 \<Longrightarrow> length (mt_state mt) = 624 \<Longrightarrow> mt_at (mt_state mt) 0 mt"
  by (auto simp: mt_at_def mt_seq.simps)

lemma exec_rand_at:
  assumes "mt_at init k mt"
  shows "fst (exec_rand mt) = mt_temper (mt_seq init (624 + k)) \<and> mt_at init (Suc k) (snd (exec_rand mt))"
proof -
  obtain q where q: "k + mt_left mt = 624 * q" "\<And>j. j < 624 \<Longrightarrow> mt_state mt ! j = mt_seq init (624 * q + j)"
    "length (mt_state mt) = 624" "mt_left mt \<le> 624" "mt_left mt > 0 \<longrightarrow> mt_next mt = 624 - mt_left mt"
    using assms by (auto simp: mt_at_def)
  show ?thesis
  proof (cases "mt_left mt = 0")
    case True
    let ?st = "renew_state (mt_state mt)"
    have st: "length ?st = 624" "\<And>j. j < 624 \<Longrightarrow> ?st ! j = mt_seq init (624 * q + (j + 624))"
      using renew_state_sequence [of "\<lambda>n. mt_seq init (624 * q + n)" "mt_state mt"] mt_seq_rec [of init] q(2,3)
      by (simp_all add: add.assoc [symmetric])
    then have "?st ! j = mt_seq init (624 * Suc q + j)" if "j < 624" for j
      using that by (simp add: ac_simps)
    moreover have "Suc k + 623 = 624 * Suc q" using True q(1) by simp
    ultimately show ?thesis using True st q(1)
      by (auto simp: exec_rand_def mt_at_def MT_N_def Let_def ac_simps intro!: exI [of _ "Suc q"])
  next
    case False
    then have n: "mt_next mt = 624 - mt_left mt" "mt_next mt < 624" using q(5) by simp_all
    then have "624 * q + mt_next mt = 624 + k" using q(1,4) by simp
    then have "mt_state mt ! mt_next mt = mt_seq init (624 + k)" using q(2) [OF n(2)] by simp
    moreover have "Suc k + (mt_left mt - 1) = 624 * q" using False q(1) by simp
    ultimately show ?thesis using False q n
      by (auto simp: exec_rand_def mt_at_def Let_def intro!: exI [of _ q])
  qed
qed

lemma mt_take_at:
  "mt_at init k mt \<Longrightarrow> fst (mt_take n mt) = map (\<lambda>i. mt_temper (mt_seq init (624 + k + i))) [0..<n]"
proof (induction n arbitrary: k mt)
  case (Suc n)
  obtain r mt' where e: "exec_rand mt = (r, mt')" by fastforce
  with exec_rand_at [OF Suc.prems] have "r = mt_temper (mt_seq init (624 + k))" "mt_at init (Suc k) mt'" by auto
  moreover from Suc.IH [OF this(2)]
  have "fst (mt_take n mt') = map (\<lambda>i. mt_temper (mt_seq init (624 + k + Suc i))) [0..<n]"
    by (simp add: add.assoc)
  ultimately show ?case
    by (simp add: mt_rand_u32_def e split_beta map_upt_Suc del: upt_Suc)
qed simp

lemma length_init_state [simp]: "length (init_state seed) = 624"
proof -
  have "length (init_state_loop n i r) = n" for n i r
    by (induction n arbitrary: i r) (simp_all add: Let_def)
  then show ?thesis by (simp add: init_state_def MT_N_def)
qed

lemma length_init_state_ex [simp]: "length (init_state_ex seed) = 624"
proof -
  have w: "length (fst (mt_wrap s)) = length (fst s)" for s
    by (cases s) (simp add: mt_wrap_def)
  have "length (fst (init_ex_seed seed k st i j)) = length st" for k st i j
    by (induction k arbitrary: st i j) (simp_all add: Let_def split_beta w)
  moreover have "length (init_ex_mix k st i) = length st" for k st i
    by (induction k arbitrary: st i) (simp_all add: Let_def split_beta w)
  ultimately show ?thesis by (simp add: init_state_ex_def Let_def split_beta)
qed

section \<open>Tempering loses nothing\<close>

lemma temper_inj: "mt_temper x = mt_temper y \<Longrightarrow> x = y"
  unfolding mt_temper_def Let_def
  by (drule xorshift_inj [OF _ zero_less_numeral], drule xor_shift_left_inj [OF _ zero_less_numeral],
      drule xor_shift_left_inj [OF _ zero_less_numeral], drule xorshift_inj [OF _ zero_less_numeral])

lemma sequences_agree:
  assumes "\<And>k. k < 624 \<Longrightarrow> mt_seq s (624 + k) = mt_seq t (624 + k)"
  shows "mt_seq s (624 + k) = mt_seq t (624 + k)"
proof (induction k rule: less_induct)
  case (less k)
  show ?case
  proof (cases "k < 624")
    case False
    then obtain m where k: "k = m + 624" using le_iff_add [of 624 k] by (auto simp: add.commute)
    then have "mt_seq s (624 + (m + 397)) = mt_seq t (624 + (m + 397))"
      "mt_seq s (624 + m) = mt_seq t (624 + m)" "mt_seq s (624 + (m + 1)) = mt_seq t (624 + (m + 1))"
      by (intro less; simp)+
    then show ?thesis
      using mt_seq_rec [of s "624 + m"] mt_seq_rec [of t "624 + m"] by (simp add: k ac_simps)
  qed (rule assms)
qed

section \<open>Properties\<close>

text \<open>C29. The numbers a seeded generator hands out are the tempered words of the recurrence
  \<open>x (n + 624) = x (n + 397) XOR A (x n, x (n + 1))\<close> in order, from the word 624 on, through any number of
  in-place renewals; so for a seed word and for a seed array.\<close>

theorem mt_rand_sequence:
  assumes "mt_seed True seed = Some mt \<or> mt_seed_ex True seeds = Some mt"
  shows "fst (mt_take n mt) = map (\<lambda>k. mt_temper (mt_seq (mt_state mt) (624 + k))) [0..<n]"
proof -
  have "mt_at (mt_state mt) 0 mt"
    using assms by (intro mt_at_start) (auto simp: mt_seed_def mt_seed_ex_def)
  from mt_take_at [OF this] show ?thesis by simp
qed

theorem mt_rand_sequence_witness:
  "fst (mt_take 2 \<lparr>mt_state = init_state 7, mt_left = 0, mt_next = 0\<rparr>) =
     [mt_temper (mt_seq (init_state 7) 624), mt_temper (mt_seq (init_state 7) 625)]"
proof -
  have "mt_seed True 7 = Some \<lparr>mt_state = init_state 7, mt_left = 0, mt_next = 0\<rparr>"
    by (simp add: mt_seed_def)
  moreover have "[0..<2] = [0, 1 :: nat]" by (simp add: upt_rec)
  ultimately show ?thesis
    using mt_rand_sequence [of 7 "\<lparr>mt_state = init_state 7, mt_left = 0, mt_next = 0\<rparr>" "[]" 2] by simp
qed

text \<open>Any 624 consecutive numbers determine all that follow: two generators at the end of their state
  that agree on the next 624 draws agree for ever.\<close>

lemma mt_rand_predictable:
  assumes "mt_left m1 = 0" and "length (mt_state m1) = 624" and "mt_left m2 = 0" and "length (mt_state m2) = 624"
    and "fst (mt_take 624 m1) = fst (mt_take 624 m2)"
  shows "fst (mt_take n m1) = fst (mt_take n m2)"
proof -
  have m: "mt_at (mt_state m1) 0 m1" "mt_at (mt_state m2) 0 m2"
    using assms(1-4) by (simp_all add: mt_at_start)
  have eq: "mt_temper (mt_seq (mt_state m1) (624 + k)) = mt_temper (mt_seq (mt_state m2) (624 + k))"
    if "k < 624" for k
  proof -
    have "fst (mt_take 624 m1) ! k = fst (mt_take 624 m2) ! k" by (rule arg_cong [OF assms(5)])
    moreover have "[0..<624] ! k = k" using that by (subst nth_upt) simp_all
    ultimately show ?thesis
      unfolding mt_take_at [OF m(1)] mt_take_at [OF m(2)]
      by (subst (asm) (1 2) nth_map) (use that in \<open>simp_all del: upt_rec_numeral\<close>)
  qed
  have "mt_seq (mt_state m1) (624 + k) = mt_seq (mt_state m2) (624 + k)" for k
    by (rule sequences_agree [OF temper_inj [OF eq]])
  then show ?thesis by (simp add: mt_take_at [OF m(1)] mt_take_at [OF m(2)])
qed

text \<open>Only the highest bit of the first word of a state counts.\<close>

lemma first_word_low_bits:
  assumes "length st = 624" "hiBit y = hiBit (st ! 0)"
  shows "mt_seq (st[0 := y]) (Suc n) = mt_seq st (Suc n)"
proof (induction n rule: less_induct)
  case (less n)
  show ?case
  proof (cases "Suc n < 624")
    case False
    then obtain m where n: "Suc n = m + 624" using le_iff_add [of 624 "Suc n"] by (auto simp: add.commute)
    have mix: "mixBits (mt_seq (st[0 := y]) m) v = mixBits (mt_seq st m) v" for v
    proof (cases m)
      case 0
      then show ?thesis using assms by (simp add: mixBits_def mt_seq.simps)
    next
      case (Suc m')
      then show ?thesis using less [of m'] n by simp
    qed
    have "mt_seq (st[0 := y]) (m + 397) = mt_seq st (m + 397)" "mt_seq (st[0 := y]) (m + 1) = mt_seq st (m + 1)"
      using less [of "m + 396"] less [of m] n by (simp_all add: add.commute)
    then show ?thesis unfolding n mt_seq_rec by (simp add: twist_def mix)
  qed (use assms in \<open>simp add: mt_seq.simps\<close>)
qed

definition demo_mt :: "u32 \<Rightarrow> mt_str" where
  "demo_mt w = \<lparr>mt_state = (replicate 624 0)[0 := w], mt_left = 0, mt_next = 0\<rparr>"

lemma demo_mt_simps [simp]:
  "mt_left (demo_mt w) = 0" "length (mt_state (demo_mt w)) = 624"
  by (simp_all add: demo_mt_def)

text \<open>The rounding of IEEE doubles, to the nearest with ties to even: 53 bits from the leading one, but
  none below 2^-1074. (A result of 2^1024 and more is infinite in the program; nothing here comes near it.)\<close>

definition nearest_even :: "real \<Rightarrow> int" where
  "nearest_even y =
     (let k = \<lfloor>y\<rfloor>; d = y - of_int k in if d < 1 / 2 \<or> (d = 1 / 2 \<and> even k) then k else k + 1)"

definition double_round :: "real \<Rightarrow> real" where
  "double_round x =
     (if x = 0 then 0
      else let ulp = 2 powr of_int (max \<lfloor>log 2 \<bar>x\<bar>\<rfloor> (- 1022) - 52) in of_int (nearest_even (x / ulp)) * ulp)"

definition rounds_normal :: "(real \<Rightarrow> real) \<Rightarrow> bool" where
  "rounds_normal rnd \<longleftrightarrow>
     rnd 0 = 0 \<and> (\<forall>x. 1 / 2 ^ 1022 \<le> \<bar>x\<bar> \<and> \<bar>x\<bar> \<le> 2 ^ 1023 \<longrightarrow> \<bar>rnd x - x\<bar> \<le> \<bar>x\<bar> / 2 ^ 53)"

lemma nearest_even_error: "\<bar>of_int (nearest_even y) - y\<bar> \<le> 1 / 2"
proof -
  have y: "of_int \<lfloor>y\<rfloor> \<le> y" "y < of_int \<lfloor>y\<rfloor> + 1" by linarith+
  show ?thesis
  proof (cases "y - of_int \<lfloor>y\<rfloor> < 1 / 2 \<or> (y - of_int \<lfloor>y\<rfloor> = 1 / 2 \<and> even \<lfloor>y\<rfloor>)")
    case True
    then have "nearest_even y = \<lfloor>y\<rfloor>" "y - of_int \<lfloor>y\<rfloor> \<le> 1 / 2" by (auto simp: nearest_even_def)
    then show ?thesis using y by simp
  next
    case False
    then have "nearest_even y = \<lfloor>y\<rfloor> + 1" "1 / 2 \<le> y - of_int \<lfloor>y\<rfloor>" unfolding nearest_even_def Let_def
      by (simp_all only: if_False) linarith
    then show ?thesis using y by simp
  qed
qed

lemma double_round_error:
  assumes "1 / 2 ^ 1022 \<le> \<bar>x\<bar>"
  shows "\<bar>double_round x - x\<bar> \<le> \<bar>x\<bar> / 2 ^ 53"
proof -
  let ?k = "\<lfloor>log 2 \<bar>x\<bar>\<rfloor>"
  have "(0::real) < 1 / 2 ^ 1022" by simp
  then have x: "0 < \<bar>x\<bar>" using assms by linarith
  have "(2::real) powr (- 1022) = 1 / 2 ^ 1022" using powr_minus_divide [of "2::real" 1022] powr_realpow [of "2::real" 1022] by simp
  then have "2 powr (- 1022) \<le> \<bar>x\<bar>" using assms by simp
  then have "(- 1022 :: real) \<le> log 2 \<bar>x\<bar>" using x by (subst le_log_iff) simp_all
  then have k: "max ?k (- 1022) = ?k" by (simp add: le_floor_iff)
  define ulp where "ulp = (2::real) powr of_int (?k - 52)"
  have p: "0 < ulp" by (simp add: ulp_def)
  have "(2::real) powr of_int ?k \<le> 2 powr log 2 \<bar>x\<bar>" by (rule powr_mono) simp_all
  then have pk: "(2::real) powr of_int ?k \<le> \<bar>x\<bar>" using x by simp
  have "(2::real) powr of_int (?k - 52) = 2 powr of_int ?k / 2 powr 52" by (simp add: powr_diff)
  moreover have "(2::real) powr 52 = 2 ^ 52" using powr_realpow [of "2::real" 52] by simp
  ultimately have ulp: "ulp \<le> \<bar>x\<bar> / 2 ^ 52" using pk by (simp add: ulp_def divide_right_mono)
  have "double_round x - x = (of_int (nearest_even (x / ulp)) - x / ulp) * ulp"
    using x p unfolding double_round_def Let_def k ulp_def [symmetric] by (simp add: left_diff_distrib)
  then have "\<bar>double_round x - x\<bar> = \<bar>of_int (nearest_even (x / ulp)) - x / ulp\<bar> * ulp"
    using p by (simp add: abs_mult)
  also have "\<dots> \<le> 1 / 2 * ulp" using nearest_even_error p by (intro mult_right_mono) simp_all
  also have "\<dots> \<le> \<bar>x\<bar> / 2 ^ 53" using ulp by simp
  finally show ?thesis .
qed

lemma double_rounds_normal: "rounds_normal double_round"
proof -
  have "double_round 0 = 0" by (simp only: double_round_def if_True simp_thms)
  then show ?thesis unfolding rounds_normal_def using double_round_error by blast
qed

lemma rounds_normalD:
  assumes "rounds_normal rnd" and "x = 0 \<or> (1 / 2 ^ 64 \<le> x \<and> x \<le> 2 ^ 64)"
  shows "x * (1 - 1 / 2 ^ 53) \<le> rnd x \<and> rnd x \<le> x * (1 + 1 / 2 ^ 53)"
proof (cases "x = 0")
  case True then show ?thesis using assms(1) by (simp add: rounds_normal_def)
next
  case False
  then have x: "1 / 2 ^ 64 \<le> x" "x \<le> 2 ^ 64" using assms(2) by blast+
  have "(2::real) ^ 64 \<le> 2 ^ 1022" "(2::real) ^ 64 \<le> 2 ^ 1023" by (rule power_increasing; simp)+
  then have "(1::real) / 2 ^ 1022 \<le> 1 / 2 ^ 64" "(2::real) ^ 64 \<le> 2 ^ 1023" by (simp_all add: divide_left_mono)
  moreover have "0 \<le> x" using x(1) by (rule order.trans [rotated]) simp
  ultimately have "\<bar>rnd x - x\<bar> \<le> x / 2 ^ 53" using assms(1) x unfolding rounds_normal_def
    by (metis abs_of_nonneg order.trans)
  then have "rnd x - x \<le> x / 2 ^ 53" "x - rnd x \<le> x / 2 ^ 53" by linarith+
  then have "rnd x \<le> x + x / 2 ^ 53" "x - x / 2 ^ 53 \<le> rnd x" by linarith+
  then show ?thesis by (simp add: distrib_left right_diff_distrib)
qed

text \<open>A uniform number of \<open>mt_rand_r2\<close>: the product of the word with 2^-32 is 0 or well inside the normal
  numbers, and below 1 by more than the roundings add.\<close>

lemma mt_rand_r2_bounds:
  assumes "rounds_normal rnd"
  obtains r mt' where "mt_rand_r2 rnd mt = (r, mt')" and "r = 0 \<or> 1 / 2 ^ 34 \<le> r"
    and "r \<le> (2 ^ 32 - 1) / 2 ^ 32 * (1 + 1 / 2 ^ 53) ^ 2"
proof -
  let ?e = "1 + 1 / 2 ^ 53 :: real"
  obtain u mt' where e: "exec_rand mt = (u, mt')" by fastforce
  have "unat u < 2 ^ LENGTH(32)" by (rule unsigned_less)
  then have "unat u \<le> 2 ^ 32 - 1" by simp
  then have "real (unat u) \<le> real (2 ^ 32 - 1)" by (rule of_nat_mono)
  then have u: "real (unat u) \<le> 2 ^ 32 - 1" by simp
  define c where "c = rnd (1 / 4294967296)"
  have c: "1 / 4294967296 * (1 - 1 / 2 ^ 53) \<le> c" "c \<le> 1 / 4294967296 * ?e"
    using rounds_normalD [OF assms, of "1 / 4294967296"] by (simp_all add: c_def)
  have c0: "1 / 2 ^ 33 \<le> c" "c \<le> 1" using c by simp_all
  define y where "y = real (unat u) * c"
  have hi: "y \<le> (2 ^ 32 - 1) * (1 / 4294967296 * ?e)"
    unfolding y_def using u c(2) c0(1) by (intro mult_mono) simp_all
  then have y64: "y \<le> 2 ^ 64" by (rule order.trans) simp
  have lo: "y = 0 \<or> 1 / 2 ^ 33 \<le> y"
  proof (cases "unat u = 0")
    case False
    then have "1 \<le> unat u" by linarith
    then have "real 1 \<le> real (unat u)" by (rule of_nat_mono)
    then have "1 \<le> real (unat u)" by (simp only: of_nat_1)
    then have "1 * c \<le> y" unfolding y_def using c0 by (intro mult_right_mono) simp_all
    then show ?thesis using c0(1) by linarith
  qed (simp add: y_def)
  have "(1::real) / 2 ^ 64 \<le> 1 / 2 ^ 33" by simp
  then have "y = 0 \<or> (1 / 2 ^ 64 \<le> y \<and> y \<le> 2 ^ 64)" using lo y64 by linarith
  from rounds_normalD [OF assms this]
  have r: "y * (1 - 1 / 2 ^ 53) \<le> rnd y" "rnd y \<le> y * ?e" by auto
  have "rnd y = 0 \<or> 1 / 2 ^ 34 \<le> rnd y"
  proof (cases "y = 0")
    case True then show ?thesis using r by simp
  next
    case False
    then have "1 / 2 ^ 33 * (1 - 1 / 2 ^ 53) \<le> y * (1 - 1 / 2 ^ 53)" using lo by (intro mult_right_mono) simp_all
    then show ?thesis using r(1) by (simp add: field_simps)
  qed
  moreover have "y * ?e \<le> (2 ^ 32 - 1) / 2 ^ 32 * ?e ^ 2"
    using mult_right_mono [OF hi, of ?e] by (simp add: power2_eq_square)
  then have "rnd y \<le> (2 ^ 32 - 1) / 2 ^ 32 * ?e ^ 2" using r(2) by linarith
  moreover have "mt_rand_r2 rnd mt = (rnd y, mt')" by (simp add: mt_rand_r2_def e y_def c_def)
  ultimately show thesis using that by blast
qed

text \<open>C30. A number drawn from a range of fewer than 2^31 values (a range \<open>tmin .. tmax\<close> whose size fits an
  \<open>int32_t\<close>) lies in that range, for every state of the generator, whatever the rounding of the floating-point
  products does within the error of normal \<open>double\<close>s; the witness has the rounding of IEEE doubles themselves.\<close>

theorem mt_range_in_range:
  assumes "rounds_normal rnd" and "tmin \<le> tmax" and "tmax - tmin + 1 < 2 ^ 31"
  shows "\<exists>r mt'. mt_range rnd mt tmin tmax = Some (r, mt') \<and> tmin \<le> r \<and> r \<le> tmax"
proof -
  let ?n = "real_of_int (tmax - tmin + 1)"
  let ?e = "1 + 1 / 2 ^ 53 :: real"
  obtain r mt' where e: "mt_rand_r2 rnd mt = (r, mt')" and lo: "r = 0 \<or> 1 / 2 ^ 34 \<le> r"
    and hi: "r \<le> (2 ^ 32 - 1) / 2 ^ 32 * ?e ^ 2" using assms(1) by (rule mt_rand_r2_bounds)
  have "tmax - tmin + 1 \<le> 2 ^ 31" "1 \<le> tmax - tmin + 1" using assms(2,3) by linarith+
  then have "of_int (1 :: int) \<le> ?n" "?n \<le> of_int (2 ^ 31)" by (simp_all only: of_int_le_iff)
  then have n: "1 \<le> ?n" "?n \<le> 2 ^ 31" by (simp_all only: of_int_1 of_int_power of_int_numeral)
  have r1: "r * ?e < 1"
  proof -
    have "r * ?e \<le> (2 ^ 32 - 1) / 2 ^ 32 * ?e ^ 2 * ?e" using hi by (rule mult_right_mono) simp
    also have "\<dots> < 1" by (simp add: power2_eq_square)
    finally show ?thesis .
  qed
  have "r \<le> 1" using hi by (rule order.trans) (simp add: power2_eq_square)
  have "?n * r = 0 \<or> (1 / 2 ^ 64 \<le> ?n * r \<and> ?n * r \<le> 2 ^ 64)"
  proof (cases "r = 0")
    case False
    then have r: "1 / 2 ^ 34 \<le> r" using lo by blast
    have "1 * (1 / 2 ^ 34) \<le> ?n * r" using n(1) r by (intro mult_mono) simp_all
    moreover have "0 \<le> r" using r by (rule order.trans [rotated]) simp
    then have "?n * r \<le> 2 ^ 31 * 1" using n(2) \<open>r \<le> 1\<close> by (intro mult_mono) simp_all
    ultimately show ?thesis by simp
  qed simp
  from rounds_normalD [OF assms(1) this]
  have x: "?n * r * (1 - 1 / 2 ^ 53) \<le> rnd (?n * r)" "rnd (?n * r) \<le> ?n * r * ?e" by auto
  have "0 \<le> r" using lo by (auto intro: order.trans [rotated])
  then have x0: "0 \<le> rnd (?n * r)" using n(1) by (intro order.trans [OF _ x(1)] mult_nonneg_nonneg) simp_all
  have "?n * (r * ?e) < ?n * 1" using n r1 by (intro mult_strict_left_mono) simp_all
  then have "?n * r * ?e < ?n" by (simp only: mult.assoc mult_1_right)
  then have "rnd (?n * r) < ?n" using x(2) by linarith
  then have "real_of_int \<lfloor>rnd (?n * r)\<rfloor> < ?n" using of_int_floor_le [of "rnd (?n * r)"] by linarith
  then have "\<lfloor>rnd (?n * r)\<rfloor> < tmax - tmin + 1" by (simp only: of_int_less_iff)
  then have "tmin + \<lfloor>rnd (?n * r)\<rfloor> \<le> tmax" by linarith
  moreover have "mt_range rnd mt tmin tmax = Some (tmin + \<lfloor>rnd (?n * r)\<rfloor>, mt')"
    using assms(2,3) x0 by (simp add: mt_range_def e)
  ultimately show ?thesis using x0 by auto
qed

theorem mt_range_in_range_witness:
  "\<exists>r mt'. mt_range double_round (demo_mt 5) (- 3) 6 = Some (r, mt') \<and> - 3 \<le> r \<and> r \<le> 6"
  by (rule mt_range_in_range) (simp_all add: double_rounds_normal)

end
