(* ===== verification/Htab.thy ===== *)
theory Htab
  imports Prelude "HOL-Library.Multiset"
begin

unbundle bit_operations_syntax

text \<open>
  The chained hash table \<open>g_htab_t\<close> (\<open>htab.c\<close>). A chain is the list of its entries from the table's
  slot on; keys are of any type, values are addresses with \<open>0\<close> for \<open>NULL\<close>. The client's \<open>hashfn\<close> and
  \<open>eqfn\<close> are parameters, and so is the load limit for a size (a product with a \<open>float\<close>); what the
  allocations return is an argument of the calls. \<open>None\<close> is undefined behaviour.
\<close>

section \<open>State and operations\<close>

record 'k entry =
  e_k :: 'k
  e_v :: nat
  e_h :: u32

record 'k htab =
  h_table :: "'k entry list list"
  h_tablelength :: nat
  h_entrycount :: nat
  h_loadlimit :: nat
  h_primeindex :: nat

definition do_hash :: "('k \<Rightarrow> u32) \<Rightarrow> 'k \<Rightarrow> u32" where
  "do_hash hashfn k =
     (let i = hashfn k;
          i = i + NOT (push_bit 9 i);
          i = i XOR (drop_bit 14 i OR push_bit 18 i);
          i = i + push_bit 4 i;
          i = i XOR (drop_bit 10 i OR push_bit 22 i)
      in i)"

definition primes :: "nat list" where
  "primes = [53, 97, 193, 389, 769, 1543, 3079, 6151, 12289, 24593, 49157, 98317,
     196613, 393241, 786433, 1572869, 3145739, 6291469, 12582917, 25165843,
     50331653, 100663319, 201326611, 402653189, 805306457, 1610612741]"

text \<open>The first prime above \<open>minsize\<close> and its index; \<open>primes[0]\<close> if the loop finds none.\<close>

fun pick_prime :: "nat list \<Rightarrow> nat \<Rightarrow> nat \<Rightarrow> nat \<times> nat" where
  "pick_prime [] pindex minsize = (primes ! 0, pindex)"
| "pick_prime (p # ps) pindex minsize =
     (if p > minsize then (p, pindex) else pick_prime ps (pindex + 1) minsize)"

definition htab_create :: "(nat \<Rightarrow> nat) \<Rightarrow> bool \<Rightarrow> bool \<Rightarrow> nat \<Rightarrow> 'k htab option" where
  "htab_create lim h_ok table_ok minsize =
     (if minsize > 2 ^ 30 then None
      else (let (size, pindex) = pick_prime primes 0 minsize in
        if \<not> h_ok then None else if \<not> table_ok then None
        else Some \<lparr>h_table = replicate size [], h_tablelength = size, h_entrycount = 0,
                   h_loadlimit = lim size, h_primeindex = pindex\<rparr>))"

definition push_entry :: "'k entry \<Rightarrow> 'k entry list list \<Rightarrow> 'k entry list list" where
  "push_entry e table = (let index = unat (e_h e) mod length table in table[index := e # table ! index])"

text \<open>
  The new table takes the entries slot by slot, each chain from its head. The second plan, after a
  failed \<open>malloc\<close>, hands \<open>memset\<close> an element of the grown table in place of its address.
\<close>

definition htab_expand :: "(nat \<Rightarrow> nat) \<Rightarrow> bool \<Rightarrow> bool \<Rightarrow> 'k htab \<Rightarrow> (bool \<times> 'k htab) option" where
  "htab_expand lim malloc_ok realloc_ok h =
     (if h_primeindex h = length primes - 1 then Some (False, h)
      else (let newsize = primes ! (h_primeindex h + 1) in
        if malloc_ok
        then Some (True, h\<lparr>h_table := fold push_entry (concat (h_table h)) (replicate newsize []),
                           h_primeindex := h_primeindex h + 1, h_tablelength := newsize,
                           h_loadlimit := lim newsize\<rparr>)
        else if realloc_ok then None else Some (False, h)))"

text \<open>The growth at the start of \<open>insert\<close>; the result of \<open>expand\<close> is ignored.\<close>

definition htab_grow :: "(nat \<Rightarrow> nat) \<Rightarrow> bool \<Rightarrow> bool \<Rightarrow> 'k htab \<Rightarrow> 'k htab option" where
  "htab_grow lim malloc_ok realloc_ok h =
     (if h_entrycount h > h_loadlimit h then map_option snd (htab_expand lim malloc_ok realloc_ok h)
      else Some h)"

definition htab_insert :: "('k \<Rightarrow> u32) \<Rightarrow> (nat \<Rightarrow> nat) \<Rightarrow> bool \<Rightarrow> bool \<Rightarrow> bool \<Rightarrow> 'k htab \<Rightarrow> 'k \<Rightarrow> nat
    \<Rightarrow> (bool \<times> 'k htab) option" where
  "htab_insert hashfn lim malloc_ok realloc_ok entry_ok h k v =
     (let h1 = h\<lparr>h_entrycount := h_entrycount h + 1\<rparr> in
      map_option (\<lambda>h2.
          if \<not> entry_ok then (False, h2\<lparr>h_entrycount := h_entrycount h2 - 1\<rparr>)
          else (let e = \<lparr>e_k = k, e_v = v, e_h = do_hash hashfn k\<rparr>;
                    index = unat (e_h e) mod h_tablelength h2
                in (True, h2\<lparr>h_table := (h_table h2)[index := e # h_table h2 ! index]\<rparr>)))
        (htab_grow lim malloc_ok realloc_ok h1))"

text \<open>The walk along a chain: the first entry with the hash value and an equal key.\<close>

fun chain_find :: "('k \<Rightarrow> 'k \<Rightarrow> bool) \<Rightarrow> u32 \<Rightarrow> 'k \<Rightarrow> 'k entry list \<Rightarrow> nat" where
  "chain_find eqfn hashvalue k [] = 0"
| "chain_find eqfn hashvalue k (e # es) =
     (if hashvalue = e_h e \<and> eqfn k (e_k e) then e_v e else chain_find eqfn hashvalue k es)"

fun chain_remove :: "('k \<Rightarrow> 'k \<Rightarrow> bool) \<Rightarrow> u32 \<Rightarrow> 'k \<Rightarrow> 'k entry list \<Rightarrow> (nat \<times> 'k entry list) option" where
  "chain_remove eqfn hashvalue k [] = None"
| "chain_remove eqfn hashvalue k (e # es) =
     (if hashvalue = e_h e \<and> eqfn k (e_k e) then Some (e_v e, es)
      else map_option (\<lambda>(v, es'). (v, e # es')) (chain_remove eqfn hashvalue k es))"

definition htab_search :: "('k \<Rightarrow> u32) \<Rightarrow> ('k \<Rightarrow> 'k \<Rightarrow> bool) \<Rightarrow> 'k htab \<Rightarrow> 'k \<Rightarrow> nat" where
  "htab_search hashfn eqfn h k =
     (let hashvalue = do_hash hashfn k; index = unat hashvalue mod h_tablelength h
      in chain_find eqfn hashvalue k (h_table h ! index))"

definition htab_remove :: "('k \<Rightarrow> u32) \<Rightarrow> ('k \<Rightarrow> 'k \<Rightarrow> bool) \<Rightarrow> 'k htab \<Rightarrow> 'k \<Rightarrow> nat \<times> 'k htab" where
  "htab_remove hashfn eqfn h k =
     (let hashvalue = do_hash hashfn k; index = unat hashvalue mod h_tablelength h in
      case chain_remove eqfn hashvalue k (h_table h ! index) of
        None \<Rightarrow> (0, h)
      | Some (v, es) \<Rightarrow> (v, h\<lparr>h_table := (h_table h)[index := es], h_entrycount := h_entrycount h - 1\<rparr>))"

definition htab_count :: "'k htab \<Rightarrow> nat" where
  "htab_count h = h_entrycount h"

text \<open>The callback sees the entries in table order with the client's data, until it returns zero.\<close>

fun foreach_entries :: "('k \<Rightarrow> nat \<Rightarrow> 'u \<Rightarrow> int \<times> 'u) \<Rightarrow> 'k entry list \<Rightarrow> 'u \<Rightarrow> 'u" where
  "foreach_entries cb [] user = user"
| "foreach_entries cb (e # es) user =
     (case cb (e_k e) (e_v e) user of (r, user') \<Rightarrow>
        if r = 0 then user' else foreach_entries cb es user')"

definition htab_foreach :: "'k htab \<Rightarrow> ('k \<Rightarrow> nat \<Rightarrow> 'u \<Rightarrow> int \<times> 'u) \<Rightarrow> 'u \<Rightarrow> 'u" where
  "htab_foreach h cb user = foreach_entries cb (concat (h_table h)) user"

text \<open>The entries \<open>destroy\<close> frees, in order (the table and the header after them).\<close>

definition htab_destroy :: "'k htab \<Rightarrow> 'k entry list" where
  "htab_destroy h = concat (h_table h)"

section \<open>Invariant\<close>

text \<open>
  Every entry is in the chain of its hash value, which is that of its key, and the count is right.
  With an equivalence for \<open>eqfn\<close>, a key stands for the set \<open>eqfn k\<close> of the keys equal to it.
\<close>

definition htab_inv :: "('k \<Rightarrow> u32) \<Rightarrow> 'k htab \<Rightarrow> bool" where
  "htab_inv hashfn h \<longleftrightarrow> h_tablelength h = length (h_table h) \<and> 0 < h_tablelength h \<and>
     h_primeindex h < length primes \<and> h_entrycount h = length (concat (h_table h)) \<and>
     (\<forall>i < length (h_table h). \<forall>e \<in> set (h_table h ! i).
        e_h e = do_hash hashfn (e_k e) \<and> unat (e_h e) mod length (h_table h) = i)"

definition keyed :: "('k \<Rightarrow> 'k \<Rightarrow> bool) \<Rightarrow> 'k entry list \<Rightarrow> (('k \<Rightarrow> bool) \<times> nat) list" where
  "keyed eqfn es = map (\<lambda>e. (eqfn (e_k e), e_v e)) es"

definition htab_map :: "('k \<Rightarrow> 'k \<Rightarrow> bool) \<Rightarrow> 'k htab \<Rightarrow> ('k \<Rightarrow> bool) \<rightharpoonup> nat" where
  "htab_map eqfn h = map_of (keyed eqfn (concat (h_table h)))"

definition htab_unique :: "('k \<Rightarrow> 'k \<Rightarrow> bool) \<Rightarrow> 'k htab \<Rightarrow> bool" where
  "htab_unique eqfn h \<longleftrightarrow> distinct (map (\<lambda>e. eqfn (e_k e)) (concat (h_table h)))"

definition client_ok :: "('k \<Rightarrow> u32) \<Rightarrow> ('k \<Rightarrow> 'k \<Rightarrow> bool) \<Rightarrow> bool" where
  "client_ok hashfn eqfn \<longleftrightarrow> equivp eqfn \<and> (\<forall>k k'. eqfn k k' \<longrightarrow> hashfn k = hashfn k')"

lemma client_eq: "client_ok hashfn eqfn \<Longrightarrow> eqfn k k' \<longleftrightarrow> eqfn k = eqfn k'"
  by (auto simp: client_ok_def equivp_def)

lemma client_hash: "client_ok hashfn eqfn \<Longrightarrow> eqfn k k' \<Longrightarrow> do_hash hashfn k = do_hash hashfn k'"
  by (auto simp: client_ok_def do_hash_def)

lemma mset_push:
  assumes "0 < length table"
  shows "mset (concat (push_entry e table)) = add_mset e (mset (concat table))"
proof -
  let ?i = "unat (e_h e) mod length table"
  have i: "?i < length table" using assms by simp
  then have "table = take ?i table @ table ! ?i # drop (Suc ?i) table" by (simp add: id_take_nth_drop)
  moreover have "push_entry e table = take ?i table @ (e # table ! ?i) # drop (Suc ?i) table"
    using i by (simp add: push_entry_def Let_def upd_conv_take_nth_drop)
  ultimately have "mset (concat table) = mset (concat (take ?i table @ table ! ?i # drop (Suc ?i) table))"
    by metis
  then show ?thesis using \<open>push_entry e table = _\<close> by simp
qed

definition chains_ok :: "('k \<Rightarrow> u32) \<Rightarrow> 'k entry list list \<Rightarrow> bool" where
  "chains_ok hashfn table \<longleftrightarrow> (\<forall>i < length table. \<forall>e \<in> set (table ! i).
     e_h e = do_hash hashfn (e_k e) \<and> unat (e_h e) mod length table = i)"

lemma inv_alt:
  "htab_inv hashfn h \<longleftrightarrow> h_tablelength h = length (h_table h) \<and> 0 < h_tablelength h \<and>
     h_primeindex h < length primes \<and> h_entrycount h = length (concat (h_table h)) \<and> chains_ok hashfn (h_table h)"
  by (simp add: htab_inv_def chains_ok_def)

lemma length_push [simp]: "length (push_entry e table) = length table"
  by (simp add: push_entry_def Let_def)

lemma chains_okD:
  "chains_ok hashfn t \<Longrightarrow> i < length t \<Longrightarrow> e \<in> set (t ! i) \<Longrightarrow>
     e_h e = do_hash hashfn (e_k e) \<and> unat (e_h e) mod length t = i"
  unfolding chains_ok_def by blast

lemma push_chains:
  assumes "chains_ok hashfn table" "e_h e = do_hash hashfn (e_k e)"
  shows "chains_ok hashfn (push_entry e table)"
proof -
  let ?j = "unat (e_h e) mod length table"
  have "e_h e' = do_hash hashfn (e_k e') \<and> unat (e_h e') mod length table = i"
    if i: "i < length table" and e': "e' \<in> set (push_entry e table ! i)" for i e'
  proof -
    have "?j < length table" by (rule mod_less_divisor) (use i in linarith)
    then have "e' \<in> set (table ! i) \<or> e' = e \<and> i = ?j"
      using e' by (auto simp: push_entry_def Let_def nth_list_update split: if_splits)
    then show ?thesis
    proof
      assume "e' \<in> set (table ! i)"
      then show ?thesis by (rule chains_okD [OF assms(1) i])
    next
      assume "e' = e \<and> i = ?j"
      then show ?thesis using assms(2) by simp
    qed
  qed
  then show ?thesis unfolding chains_ok_def length_push by blast
qed

lemma chains_entry: "chains_ok hashfn table \<Longrightarrow> e \<in> set (concat table) \<Longrightarrow> e_h e = do_hash hashfn (e_k e)"
  by (force simp: chains_ok_def in_set_conv_nth [of _ table])

lemma fold_push:
  assumes "chains_ok hashfn table" "0 < length table" "\<forall>e \<in> set es. e_h e = do_hash hashfn (e_k e)"
  shows "chains_ok hashfn (fold push_entry es table) \<and> length (fold push_entry es table) = length table \<and>
         mset (concat (fold push_entry es table)) = mset es + mset (concat table)"
  using assms
proof (induction es arbitrary: table)
  case (Cons e es)
  have "chains_ok hashfn (push_entry e table)" "0 < length (push_entry e table)"
    using Cons.prems by (simp_all add: push_chains)
  from Cons.IH [OF this] Cons.prems show ?case by (simp add: mset_push)
qed simp

lemma primes_pos: "p \<in> set primes \<Longrightarrow> 0 < p"
  by (auto simp: primes_def)

lemma expand_inv:
  assumes "htab_inv hashfn (h\<lparr>h_entrycount := n\<rparr>)" "htab_expand lim malloc_ok realloc_ok h = Some (ok, h')"
  shows "htab_inv hashfn (h'\<lparr>h_entrycount := n\<rparr>) \<and> mset (concat (h_table h')) = mset (concat (h_table h)) \<and>
         h_entrycount h' = h_entrycount h"
proof (cases "ok")
  case True
  let ?m = "primes ! (h_primeindex h + 1)"
  have i: "h_primeindex h + 1 < length primes"
    using assms True by (auto simp: htab_expand_def inv_alt Let_def split: if_splits)
  then have m: "0 < ?m" by (intro primes_pos) simp
  have ok: "chains_ok hashfn (h_table h)" using assms(1) by (simp add: inv_alt)
  have "chains_ok hashfn (fold push_entry (concat (h_table h)) (replicate ?m [])) \<and>
      length (fold push_entry (concat (h_table h)) (replicate ?m [])) = ?m \<and>
      mset (concat (fold push_entry (concat (h_table h)) (replicate ?m []))) = mset (concat (h_table h))"
  proof -
    have "chains_ok hashfn (replicate ?m [])" by (simp add: chains_ok_def)
    from fold_push [OF this, of "concat (h_table h)"] chains_entry [OF ok] m show ?thesis by simp
  qed
  moreover from this have "length (concat (fold push_entry (concat (h_table h)) (replicate ?m []))) = length (concat (h_table h))"
    by (metis size_mset)
  ultimately show ?thesis using assms True i m
    by (auto simp: htab_expand_def inv_alt Let_def split: if_splits)
next
  case False
  then show ?thesis using assms by (auto simp: htab_expand_def Let_def split: if_splits)
qed

text \<open>The map of a table does not depend on the order of its entries.\<close>

lemma keyed_distinct: "distinct (map fst (keyed eqfn es)) = distinct (map (\<lambda>e. eqfn (e_k e)) es)"
  by (simp add: keyed_def comp_def)

lemma map_order:
  assumes "mset es = mset es'" "distinct (map (\<lambda>e. eqfn (e_k e)) es)"
  shows "distinct (map (\<lambda>e. eqfn (e_k e)) es') \<and> map_of (keyed eqfn es') = map_of (keyed eqfn es)"
proof -
  have m: "mset (map (\<lambda>e. eqfn (e_k e)) es) = mset (map (\<lambda>e. eqfn (e_k e)) es')"
    using assms(1) by simp
  then have d: "distinct (map (\<lambda>e. eqfn (e_k e)) es')" using assms(2) by (metis mset_eq_imp_distinct_iff)
  have "set (keyed eqfn es') = set (keyed eqfn es)"
    using mset_eq_setD [OF assms(1)] by (simp add: keyed_def)
  then show ?thesis using d assms(2) by (simp add: map_of_inject_set keyed_distinct flip: map_of_inject_set)
qed

section \<open>The operations on the map\<close>

lemma find_map:
  assumes "client_ok hashfn eqfn" "\<forall>e \<in> set es. e_h e = do_hash hashfn (e_k e)"
  shows "chain_find eqfn (do_hash hashfn k) k es =
    (case map_of (keyed eqfn es) (eqfn k) of None \<Rightarrow> 0 | Some v \<Rightarrow> v)"
  using assms(2)
proof (induction es)
  case (Cons e es)
  then show ?case
    using client_eq [OF assms(1), of k "e_k e"] client_hash [OF assms(1), of k "e_k e"]
    by (auto simp: keyed_def)
qed (simp add: keyed_def)

text \<open>All entries with a key equal to \<open>k\<close> are in the chain of its hash value.\<close>

lemma map_of_chain:
  assumes "client_ok hashfn eqfn" "chains_ok hashfn table" "0 < length table"
    and "distinct (map (\<lambda>e. eqfn (e_k e)) (concat table))"
  shows "map_of (keyed eqfn (table ! (unat (do_hash hashfn k) mod length table))) (eqfn k) =
         map_of (keyed eqfn (concat table)) (eqfn k)"
proof -
  let ?i = "unat (do_hash hashfn k) mod length table"
  have i: "?i < length table" using assms(3) by simp
  have split: "concat table = concat (take ?i table) @ table ! ?i @ concat (drop (Suc ?i) table)"
    using id_take_nth_drop [OF i] by (metis concat.simps(2) concat_append)
  have in_chain: "e \<in> set (table ! ?i)" if "e \<in> set (concat table)" "eqfn (e_k e) = eqfn k" for e
  proof -
    from that(1) obtain j where j: "j < length table" "e \<in> set (table ! j)"
      by (auto simp: in_set_conv_nth [of _ table])
    have "eqfn (e_k e) k" using client_eq [OF assms(1)] that(2) by auto
    then have "do_hash hashfn (e_k e) = do_hash hashfn k" by (rule client_hash [OF assms(1)])
    then have "j = ?i" using chains_okD [OF assms(2) j] by metis
    then show ?thesis using j by simp
  qed
  have "map_of (keyed eqfn (table ! ?i)) (eqfn k) = Some v \<longleftrightarrow> map_of (keyed eqfn (concat table)) (eqfn k) = Some v" for v
  proof -
    have d: "distinct (map fst (keyed eqfn (concat table)))" "distinct (map fst (keyed eqfn (table ! ?i)))"
      using assms(4) by (simp_all add: keyed_distinct) (simp add: split)
    have "(eqfn k, v) \<in> set (keyed eqfn (table ! ?i)) \<longleftrightarrow> (eqfn k, v) \<in> set (keyed eqfn (concat table))"
    proof
      assume "(eqfn k, v) \<in> set (keyed eqfn (table ! ?i))"
      then show "(eqfn k, v) \<in> set (keyed eqfn (concat table))" by (subst split) (auto simp: keyed_def)
    next
      assume "(eqfn k, v) \<in> set (keyed eqfn (concat table))"
      then obtain e where "e \<in> set (concat table)" "eqfn (e_k e) = eqfn k" "v = e_v e"
        by (auto simp: keyed_def simp del: set_concat)
      then show "(eqfn k, v) \<in> set (keyed eqfn (table ! ?i))" using in_chain by (force simp: keyed_def)
    qed
    then show ?thesis using d by simp
  qed
  then show ?thesis by (metis not_Some_eq)
qed

lemma search_map:
  assumes "client_ok hashfn eqfn" "htab_inv hashfn h" "htab_unique eqfn h"
  shows "htab_search hashfn eqfn h k = (case htab_map eqfn h (eqfn k) of None \<Rightarrow> 0 | Some v \<Rightarrow> v)"
proof -
  let ?i = "unat (do_hash hashfn k) mod length (h_table h)"
  have t: "chains_ok hashfn (h_table h)" "0 < length (h_table h)" "h_tablelength h = length (h_table h)"
    using assms(2) by (auto simp: inv_alt)
  moreover have "?i < length (h_table h)" using t(2) by (rule mod_less_divisor)
  ultimately have "\<forall>e \<in> set (h_table h ! ?i). e_h e = do_hash hashfn (e_k e)"
    using chains_okD [OF t(1), of ?i] by blast
  from find_map [OF assms(1) this, of k] map_of_chain [OF assms(1) t(1,2), of k] assms(3) t(3)
  show ?thesis by (simp add: htab_search_def htab_map_def htab_unique_def Let_def)
qed

lemma insert_map:
  assumes "client_ok hashfn eqfn" "htab_inv hashfn h" "htab_unique eqfn h"
    and "htab_insert hashfn lim malloc_ok realloc_ok entry_ok h k v = Some (r, h')"
    and "htab_map eqfn h (eqfn k) = None"
  shows "htab_inv hashfn h' \<and> htab_unique eqfn h' \<and> r = entry_ok \<and>
         htab_map eqfn h' = (if entry_ok then (htab_map eqfn h)(eqfn k \<mapsto> v) else htab_map eqfn h) \<and>
         htab_count h' = htab_count h + (if entry_ok then 1 else 0)"
proof -
  let ?h1 = "h\<lparr>h_entrycount := h_entrycount h + 1\<rparr>"
  obtain h2 where h2: "htab_grow lim malloc_ok realloc_ok ?h1 = Some h2"
    using assms(4) by (cases "htab_grow lim malloc_ok realloc_ok ?h1") (auto simp: htab_insert_def)
  have i1: "htab_inv hashfn (?h1\<lparr>h_entrycount := h_entrycount h\<rparr>)" using assms(2) by simp
  have e: "htab_inv hashfn (h2\<lparr>h_entrycount := h_entrycount h\<rparr>) \<and>
      mset (concat (h_table h2)) = mset (concat (h_table h)) \<and> h_entrycount h2 = h_entrycount h + 1"
    using h2 expand_inv [OF i1] assms(2) by (auto simp: htab_grow_def split: if_splits)
  let ?e = "\<lparr>e_k = k, e_v = v, e_h = do_hash hashfn k\<rparr>"
  have t: "chains_ok hashfn (h_table h2)" "0 < length (h_table h2)" "h_tablelength h2 = length (h_table h2)"
    "h_primeindex h2 < length primes" "h_entrycount h = length (concat (h_table h2))"
    using e by (auto simp: inv_alt)
  have o: "distinct (map (\<lambda>e. eqfn (e_k e)) (concat (h_table h2)))"
    "map_of (keyed eqfn (concat (h_table h2))) = htab_map eqfn h"
    using map_order [of "concat (h_table h)" "concat (h_table h2)" eqfn] e assms(3)
    by (simp_all add: htab_unique_def htab_map_def)
  show ?thesis
  proof (cases entry_ok)
    case False
    then have "r = False" "h' = h2\<lparr>h_entrycount := h_entrycount h\<rparr>"
      using assms(4) h2 e by (auto simp: htab_insert_def Let_def)
    then show ?thesis using False e o by (simp add: htab_unique_def htab_map_def htab_count_def)
  next
    case True
    then have h': "r = True" "h' = h2\<lparr>h_table := push_entry ?e (h_table h2)\<rparr>"
      using assms(4) h2 t(3) by (auto simp: htab_insert_def push_entry_def Let_def)
    have m: "mset (concat (push_entry ?e (h_table h2))) = mset (?e # concat (h_table h2))"
      using mset_push [OF t(2)] by simp
    have "eqfn k \<notin> set (map (\<lambda>e. eqfn (e_k e)) (concat (h_table h2)))"
    proof -
      have "map_of (keyed eqfn (concat (h_table h2))) (eqfn k) = None" using o(2) assms(5) by simp
      then show ?thesis by (simp add: map_of_eq_None_iff keyed_def image_image del: set_concat)
    qed
    then have "distinct (map (\<lambda>e. eqfn (e_k e)) (?e # concat (h_table h2)))" using o(1) by simp
    from map_order [OF m [symmetric] this]
    have "htab_unique eqfn h'" "htab_map eqfn h' = (htab_map eqfn h)(eqfn k \<mapsto> v)"
      using o(2) by (simp_all add: h' htab_unique_def htab_map_def keyed_def)
    moreover have "htab_inv hashfn h'"
    proof -
      have "length (concat (h_table h2)) = length (concat (h_table h))" using e by (metis size_mset)
      then show ?thesis
        using t e push_chains [OF t(1), of ?e] arg_cong [OF m, of size] by (simp add: h' inv_alt)
    qed
    ultimately show ?thesis using True h' e by (simp add: htab_count_def)
  qed
qed

lemma chain_remove_None:
  assumes "client_ok hashfn eqfn" "\<forall>e \<in> set es. e_h e = do_hash hashfn (e_k e)"
  shows "chain_remove eqfn (do_hash hashfn k) k es = None \<longleftrightarrow> map_of (keyed eqfn es) (eqfn k) = None"
  using assms(2)
proof (induction es)
  case (Cons e es)
  then show ?case
    using client_eq [OF assms(1), of k "e_k e"] client_hash [OF assms(1), of k "e_k e"]
    by (auto simp: keyed_def)
qed (simp add: keyed_def)

lemma chain_remove_Some:
  assumes "client_ok hashfn eqfn"
  shows "chain_remove eqfn (do_hash hashfn k) k es = Some (v, es') \<Longrightarrow>
    \<exists>xs e ys. es = xs @ e # ys \<and> es' = xs @ ys \<and> eqfn (e_k e) = eqfn k \<and> v = e_v e"
proof (induction es arbitrary: es')
  case (Cons e es)
  show ?case
  proof (cases "do_hash hashfn k = e_h e \<and> eqfn k (e_k e)")
    case True
    then have "e # es = [] @ e # es \<and> es' = [] @ es \<and> eqfn (e_k e) = eqfn k \<and> v = e_v e"
      using Cons.prems client_eq [OF assms(1), of k "e_k e"] by simp
    then show ?thesis by blast
  next
    case False
    then obtain es'' where r: "chain_remove eqfn (do_hash hashfn k) k es = Some (v, es'')" "es' = e # es''"
      using Cons.prems by auto
    from Cons.IH [OF r(1)] obtain xs e' ys where
      "es = xs @ e' # ys" "es'' = xs @ ys" "eqfn (e_k e') = eqfn k" "v = e_v e'" by blast
    then have "e # es = (e # xs) @ e' # ys \<and> es' = (e # xs) @ ys \<and> eqfn (e_k e') = eqfn k \<and> v = e_v e'"
      using r(2) by simp
    then show ?thesis by blast
  qed
qed simp

lemma remove_map:
  assumes "client_ok hashfn eqfn" "htab_inv hashfn h" "htab_unique eqfn h"
    and "htab_remove hashfn eqfn h k = (v, h')"
  shows "htab_inv hashfn h' \<and> htab_unique eqfn h' \<and>
         v = (case htab_map eqfn h (eqfn k) of None \<Rightarrow> 0 | Some v \<Rightarrow> v) \<and>
         htab_map eqfn h' = (htab_map eqfn h)(eqfn k := None) \<and>
         htab_count h' = htab_count h - (if htab_map eqfn h (eqfn k) = None then 0 else 1)"
proof -
  let ?t = "h_table h"
  let ?i = "unat (do_hash hashfn k) mod length ?t"
  have t: "chains_ok hashfn ?t" "0 < length ?t" "h_tablelength h = length ?t" "h_entrycount h = length (concat ?t)"
    using assms(2) by (auto simp: inv_alt)
  have i: "?i < length ?t" using t(2) by (rule mod_less_divisor)
  have ok: "\<forall>e \<in> set (?t ! ?i). e_h e = do_hash hashfn (e_k e)" using chains_okD [OF t(1) i] by blast
  have m: "map_of (keyed eqfn (?t ! ?i)) (eqfn k) = htab_map eqfn h (eqfn k)"
    using map_of_chain [OF assms(1) t(1,2)] assms(3) by (simp add: htab_map_def htab_unique_def)
  show ?thesis
  proof (cases "chain_remove eqfn (do_hash hashfn k) k (?t ! ?i)")
    case None
    then have "htab_map eqfn h (eqfn k) = None" using chain_remove_None [OF assms(1) ok] m by simp
    then show ?thesis using None assms t by (auto simp: htab_remove_def Let_def htab_count_def)
  next
    case (Some r)
    obtain es' where r: "r = (v, es')" and h': "h' = h\<lparr>h_table := ?t[?i := es'], h_entrycount := h_entrycount h - 1\<rparr>"
      using Some assms(4) t(3) by (cases r) (auto simp: htab_remove_def Let_def)
    from chain_remove_Some [OF assms(1) Some [unfolded r]] obtain xs e ys where
      c: "?t ! ?i = xs @ e # ys" "es' = xs @ ys" "eqfn (e_k e) = eqfn k" "v = e_v e" by blast
    have split: "concat ?t = concat (take ?i ?t) @ (xs @ e # ys) @ concat (drop (Suc ?i) ?t)"
      using id_take_nth_drop [OF i] c(1) by (metis concat.simps(2) concat_append)
    have split': "concat (?t[?i := es']) = concat (take ?i ?t) @ (xs @ ys) @ concat (drop (Suc ?i) ?t)"
      using i c(2) by (simp add: upd_conv_take_nth_drop)
    have mset: "mset (concat ?t) = mset (e # concat (?t[?i := es']))" by (simp add: split split')
    from map_order [OF this] assms(3)
    have d: "distinct (map (\<lambda>e. eqfn (e_k e)) (e # concat (?t[?i := es'])))"
      "map_of (keyed eqfn (e # concat (?t[?i := es']))) = htab_map eqfn h"
      by (simp_all add: htab_unique_def htab_map_def)
    have k: "htab_map eqfn h (eqfn k) = Some v"
      using fun_cong [OF d(2), of "eqfn k"] c(3,4) by (simp add: keyed_def)
    have none: "map_of (keyed eqfn (concat (?t[?i := es']))) (eqfn k) = None"
      using d(1) c(3) by (simp add: map_of_eq_None_iff keyed_def image_image)
    have "htab_map eqfn h' = (htab_map eqfn h)(eqfn k := None)"
    proof
      fix q
      show "htab_map eqfn h' q = ((htab_map eqfn h)(eqfn k := None)) q"
      proof (cases "q = eqfn k")
        case True
        then show ?thesis using none by (simp add: h' htab_map_def)
      next
        case False
        then show ?thesis using fun_cong [OF d(2), of q] c(3) by (simp add: h' htab_map_def keyed_def)
      qed
    qed
    moreover have "htab_unique eqfn h'" using d(1) by (simp add: h' htab_unique_def)
    moreover have "chains_ok hashfn (?t[?i := es'])"
    proof -
      have sub: "set (?t[?i := es'] ! j) \<subseteq> set (?t ! j)" for j
        using c i by (cases "j = ?i") auto
      show ?thesis unfolding chains_ok_def length_list_update using chains_okD [OF t(1)] sub by blast
    qed
    moreover have "h_entrycount h = Suc (length (concat (?t[?i := es'])))"
      using t(4) arg_cong [OF mset, of size] by simp
    moreover have "h_entrycount h' = length (concat (h_table h'))"
      using calculation(4) by (simp add: h')
    moreover have "htab_count h' = htab_count h - 1" by (simp add: h' htab_count_def)
    ultimately have "htab_inv hashfn h'" "htab_unique eqfn h'"
      "htab_map eqfn h' = (htab_map eqfn h)(eqfn k := None)" "htab_count h' = htab_count h - 1"
      using t assms(2) by (simp_all add: h' inv_alt del: length_concat length_greater_0_conv)
    then show ?thesis using k by simp
  qed
qed

section \<open>Runs\<close>

text \<open>
  A call with the outcomes of its allocations (\<open>malloc\<close> and \<open>realloc\<close> of the growth, \<open>malloc\<close> of
  the entry), and what it answers: the result of an insertion, a value or a count.
\<close>

datatype 'k call =
  Insert 'k nat bool bool bool
| Search 'k
| Remove 'k
| Count

datatype answer = Done bool | Found nat | Number nat

fun htab_call :: "('k \<Rightarrow> u32) \<Rightarrow> ('k \<Rightarrow> 'k \<Rightarrow> bool) \<Rightarrow> (nat \<Rightarrow> nat) \<Rightarrow> 'k htab \<Rightarrow> 'k call
    \<Rightarrow> (answer \<times> 'k htab) option" where
  "htab_call hashfn eqfn lim h (Insert k v m r e) =
     map_option (\<lambda>(ok, h'). (Done ok, h')) (htab_insert hashfn lim m r e h k v)"
| "htab_call hashfn eqfn lim h (Search k) = Some (Found (htab_search hashfn eqfn h k), h)"
| "htab_call hashfn eqfn lim h (Remove k) = (case htab_remove hashfn eqfn h k of (v, h') \<Rightarrow> Some (Found v, h'))"
| "htab_call hashfn eqfn lim h Count = Some (Number (htab_count h), h)"

fun htab_calls :: "('k \<Rightarrow> u32) \<Rightarrow> ('k \<Rightarrow> 'k \<Rightarrow> bool) \<Rightarrow> (nat \<Rightarrow> nat) \<Rightarrow> 'k htab \<Rightarrow> 'k call list
    \<Rightarrow> (answer list \<times> 'k htab) option" where
  "htab_calls hashfn eqfn lim h [] = Some ([], h)"
| "htab_calls hashfn eqfn lim h (c # cs) =
     Option.bind (htab_call hashfn eqfn lim h c) (\<lambda>(a, h').
       map_option (\<lambda>(as, h''). (a # as, h'')) (htab_calls hashfn eqfn lim h' cs))"

text \<open>
  The specification: a partial map on the classes of equal keys and its size. An insertion of a key
  that is present is refused here, as the code's comment asks of its callers.
\<close>

fun map_call :: "('k \<Rightarrow> 'k \<Rightarrow> bool) \<Rightarrow> (('k \<Rightarrow> bool) \<rightharpoonup> nat) \<times> nat \<Rightarrow> 'k call
    \<Rightarrow> (answer \<times> (('k \<Rightarrow> bool) \<rightharpoonup> nat) \<times> nat) option" where
  "map_call eqfn (m, n) (Insert k v mo re e) =
     (if m (eqfn k) \<noteq> None then None
      else if e then Some (Done True, m(eqfn k \<mapsto> v), n + 1) else Some (Done False, m, n))"
| "map_call eqfn (m, n) (Search k) = Some (Found (case m (eqfn k) of None \<Rightarrow> 0 | Some v \<Rightarrow> v), m, n)"
| "map_call eqfn (m, n) (Remove k) =
     (case m (eqfn k) of
        None \<Rightarrow> Some (Found 0, m, n)
      | Some v \<Rightarrow> Some (Found v, m(eqfn k := None), n - 1))"
| "map_call eqfn (m, n) Count = Some (Number n, m, n)"

fun map_calls :: "('k \<Rightarrow> 'k \<Rightarrow> bool) \<Rightarrow> (('k \<Rightarrow> bool) \<rightharpoonup> nat) \<times> nat \<Rightarrow> 'k call list
    \<Rightarrow> answer list option" where
  "map_calls eqfn s [] = Some []"
| "map_calls eqfn s (c # cs) =
     Option.bind (map_call eqfn s c) (\<lambda>(a, s'). map_option (\<lambda>as. a # as) (map_calls eqfn s' cs))"

text \<open>The growth is defined unless its \<open>malloc\<close> fails and its \<open>realloc\<close> does not.\<close>

fun grow_ok :: "'k call \<Rightarrow> bool" where
  "grow_ok (Insert k v m r e) = (m \<or> \<not> r)"
| "grow_ok c = True"

definition htab_rel :: "('k \<Rightarrow> u32) \<Rightarrow> ('k \<Rightarrow> 'k \<Rightarrow> bool) \<Rightarrow> 'k htab \<Rightarrow> (('k \<Rightarrow> bool) \<rightharpoonup> nat) \<times> nat \<Rightarrow> bool" where
  "htab_rel hashfn eqfn h s \<longleftrightarrow> htab_inv hashfn h \<and> htab_unique eqfn h \<and> s = (htab_map eqfn h, htab_count h)"

lemma insert_defined:
  assumes "malloc_ok \<or> \<not> realloc_ok"
  shows "\<exists>r h'. htab_insert hashfn lim malloc_ok realloc_ok entry_ok h k v = Some (r, h')"
  using assms by (auto simp: htab_insert_def htab_grow_def htab_expand_def Let_def)

lemma call_sim:
  assumes c: "client_ok hashfn eqfn" and r: "htab_rel hashfn eqfn h s" and g: "grow_ok c"
    and m: "map_call eqfn s c = Some (a, s')"
  shows "\<exists>h'. htab_call hashfn eqfn lim h c = Some (a, h') \<and> htab_rel hashfn eqfn h' s'"
proof -
  have i: "htab_inv hashfn h" "htab_unique eqfn h" and s: "s = (htab_map eqfn h, htab_count h)"
    using r by (auto simp: htab_rel_def)
  show ?thesis
  proof (cases c)
    case (Insert k v mo re e)
    obtain ok h' where h': "htab_insert hashfn lim mo re e h k v = Some (ok, h')"
      using insert_defined [of mo re] g Insert by fastforce
    have none: "htab_map eqfn h (eqfn k) = None" using m s Insert by (auto split: if_splits)
    from insert_map [OF c i h' none] show ?thesis using m s h' none
      by (cases e) (auto simp: Insert htab_rel_def)
  next
    case (Search k)
    then show ?thesis using m s r search_map [OF c i, of k] by (simp add: Search)
  next
    case (Remove k)
    obtain v h' where h': "htab_remove hashfn eqfn h k = (v, h')" by (rule prod.exhaust)
    show ?thesis
    proof (cases "htab_map eqfn h (eqfn k)")
      case None
      then have "(htab_map eqfn h)(eqfn k := None) = htab_map eqfn h" by auto
      with remove_map [OF c i h'] None show ?thesis using m s h' by (auto simp: Remove htab_rel_def)
    next
      case (Some v')
      with remove_map [OF c i h'] show ?thesis using m s h' by (auto simp: Remove htab_rel_def)
    qed
  next
    case Count
    then show ?thesis using m s r by simp
  qed
qed

lemma create_rel:
  assumes "htab_create lim h_ok table_ok minsize = Some h"
  shows "htab_rel hashfn eqfn h (Map.empty, 0)"
proof -
  have pick: "\<exists>size pindex. pick_prime primes 0 minsize = (size, pindex) \<and> 0 < size \<and> pindex < length primes"
    if "minsize \<le> 2 ^ 30"
    using that by (simp add: primes_def)
  then show ?thesis using assms
    by (auto simp: htab_create_def htab_rel_def inv_alt chains_ok_def htab_unique_def htab_map_def keyed_def
        htab_count_def fun_eq_iff split: if_splits)
qed

lemma calls_sim:
  assumes "client_ok hashfn eqfn"
  shows "htab_rel hashfn eqfn h s \<Longrightarrow> list_all grow_ok cs \<Longrightarrow> map_calls eqfn s cs = Some as \<Longrightarrow>
    \<exists>h'. htab_calls hashfn eqfn lim h cs = Some (as, h')"
proof (induction cs arbitrary: h s as)
  case (Cons c cs)
  from Cons.prems(3) obtain a s' as' where
    c: "map_call eqfn s c = Some (a, s')" "map_calls eqfn s' cs = Some as'" "as = a # as'"
    by (auto simp: bind_eq_Some_conv)
  obtain h1 where h1: "htab_call hashfn eqfn lim h c = Some (a, h1)" "htab_rel hashfn eqfn h1 s'"
    using call_sim [OF assms Cons.prems(1) _ c(1)] Cons.prems(2) by auto
  from Cons.IH [OF h1(2) _ c(2)] Cons.prems(2) show ?case using h1(1) c(3) by auto
qed simp

section \<open>Properties\<close>

text \<open>C31. From \<open>g_htab_create\<close> on, any sequence of insertions of absent keys, searches, removals and
  counts gives the answers of a map on the client's classes of equal keys, with the hash function,
  the table sizes, the load limit, the failed allocations of entries and the growths (failed or not)
  all invisible, as long as the hash function respects the equality, which is an equivalence, and no
  growth falls through to its second plan with success.
\<close>

theorem htab_refines_map:
  assumes "client_ok hashfn eqfn" "htab_create lim True True minsize = Some h"
    and "list_all grow_ok cs" "map_calls eqfn (Map.empty, 0) cs = Some as"
  shows "\<exists>h'. htab_calls hashfn eqfn lim h cs = Some (as, h')"
  by (rule calls_sim [OF assms(1) create_rel [OF assms(2)] assms(3,4)])

text \<open>Keys equal modulo 10, all with one hash value, and a growth on every insertion.\<close>

lemma htab_refines_map_witness:
  "\<exists>h'. htab_calls (\<lambda>k :: nat. 7) (\<lambda>a b. a mod 10 = b mod 10) (\<lambda>size. 0)
      (the (htab_create (\<lambda>size. 0) True True 5))
      [Insert 3 30 True True True, Insert 4 40 False False True, Search 13, Remove 24, Search 4, Count] =
    Some ([Done True, Done True, Found 30, Found 40, Found 0, Number 1], h')"
proof -
  have c: "client_ok (\<lambda>k :: nat. 7) (\<lambda>a b. a mod 10 = b mod 10)"
    by (simp add: client_ok_def equivp_def fun_eq_iff) metis
  have h: "htab_create (\<lambda>size. 0) True True 5 = Some (the (htab_create (\<lambda>size. 0) True True 5))"
    by (simp add: htab_create_def primes_def)
  have "\<not> (\<forall>b :: nat. (b mod 10 = 3) = (b mod 10 = 4))" by (rule notI, drule spec [of _ 3]) simp
  then have ne: "(\<lambda>b :: nat. b mod 10 = 3) \<noteq> (\<lambda>b. b mod 10 = 4)" unfolding fun_eq_iff .
  show ?thesis
    by (rule htab_refines_map [OF c h]) (simp_all add: ne ne [symmetric])
qed

end
