(* ===== verification/Spin_Lock.thy ===== *)
theory Spin_Lock
  imports Prelude
begin

unbundle bit_operations_syntax

text \<open>
  The spin locks of \<open>os_api.c\<close> (\<open>g_spin_t\<close>, \<open>g_spin_rw_t\<close>) and the ticket \<open>g_now_uid\<close>, as step
  relations: a state is the shared object and the program counters of the threads, a step is one
  atomic action (a read of a volatile, a \<open>__sync\<close> builtin) of one thread. A thread calls the
  functions in any order, but unlocks only what it holds. Pauses, yields and the clock of the timed
  calls show only in the choice whether a deadline has passed.
\<close>

section \<open>Threads on a shared object\<close>

text \<open>
  \<open>act s p s' p'\<close>: a thread at \<open>p\<close> takes one atomic action that leaves the object \<open>s'\<close> and the thread
  at \<open>p'\<close>. All \<open>n\<close> threads start out of the object's functions.
\<close>

inductive par_step :: "('s \<Rightarrow> 'p \<Rightarrow> 's \<Rightarrow> 'p \<Rightarrow> bool) \<Rightarrow> 's \<times> 'p list \<Rightarrow> 's \<times> 'p list \<Rightarrow> bool" for act where
  par: "i < length ts \<Longrightarrow> act s (ts ! i) s' p \<Longrightarrow> par_step act (s, ts) (s', ts[i := p])"

inductive par_reachable :: "('s \<Rightarrow> 'p \<Rightarrow> 's \<Rightarrow> 'p \<Rightarrow> bool) \<Rightarrow> 's \<Rightarrow> 'p \<Rightarrow> nat \<Rightarrow> 's \<times> 'p list \<Rightarrow> bool"
  for act s0 p0 n where
  start: "par_reachable act s0 p0 n (s0, replicate n p0)"
| more: "par_reachable act s0 p0 n c \<Longrightarrow> par_step act c c' \<Longrightarrow> par_reachable act s0 p0 n c'"

lemma reach_step:
  assumes "par_reachable act s0 p0 n (s, ts)" "i < length ts" "act s (ts ! i) s' p"
  shows "par_reachable act s0 p0 n (s', ts[i := p])"
  using par_reachable.more [OF assms(1) par_step.par [of i ts act s s' p, OF assms(2,3)]] .

text \<open>What an object has to show for an invariant of all interleavings.\<close>

locale shared_object =
  fixes act :: "'s \<Rightarrow> 'p \<Rightarrow> 's \<Rightarrow> 'p \<Rightarrow> bool"
    and s0 :: 's
    and p0 :: 'p
    and inv :: "'s \<times> 'p list \<Rightarrow> bool"
  assumes inv_start: "inv (s0, replicate n p0)"
    and inv_action: "inv (s, ts) \<Longrightarrow> i < length ts \<Longrightarrow> act s (ts ! i) s' p \<Longrightarrow> inv (s', ts[i := p])"
begin

lemma inv_reachable:
  assumes "par_reachable act s0 p0 n c"
  shows "inv c \<and> length (snd c) = n"
  using assms
proof induction
  case (more c c')
  from more.hyps(2) show ?case
    by (cases rule: par_step.cases) (use more.IH inv_action in auto)
qed (simp add: inv_start)

end

section \<open>The retry loop\<close>

text \<open>
  A lock function tries once or in the nested loops: the outer \<open>while\<close> and the macro \<open>SPIN\<close> with
  its counter \<open>n\<close>. The arguments are \<open>spin\<close> and, for the timed calls, whether \<open>sec > 0\<close>.
\<close>

datatype request =
  Untimed int
| Timed bool int

datatype phase = First | Outer | Inner int

fun spin_of :: "request \<Rightarrow> int" where
  "spin_of (Untimed spin) = spin"
| "spin_of (Timed patient spin) = spin"

fun is_timed :: "request \<Rightarrow> bool" where
  "is_timed (Untimed spin) = False"
| "is_timed (Timed patient spin) = True"

fun impatient :: "request \<Rightarrow> bool" where
  "impatient (Untimed spin) = False"
| "impatient (Timed patient spin) = (\<not> patient)"

text \<open>Where a failed attempt leads (the number of pauses, an \<open>int\<close> that is doubled while it is below
  \<open>spin\<close>, is that of the code for a \<open>spin\<close> of at most 2^30); \<open>late\<close> tells that the deadline has passed, \<open>None\<close> is giving up.\<close>

fun next_phase :: "request \<Rightarrow> phase \<Rightarrow> bool \<Rightarrow> phase option" where
  "next_phase r First late = (if impatient r then None else Some Outer)"
| "next_phase r Outer late = Some (Inner 1)"
| "next_phase r (Inner n) late =
     (if n * 2 < spin_of r then Some (Inner (n * 2))
      else if is_timed r \<and> late then None else Some Outer)"

section \<open>The reader-writer lock\<close>

record spin_rw =
  rw_sem :: u32
  rw_w :: u32
  rw_prefer_writer :: bool

definition SPIN_WRITER_LOCK_FLAG :: u32 where "SPIN_WRITER_LOCK_FLAG = 0x40000000"
definition SPIN_RWLOCK_INIT_VALUE :: u32 where "SPIN_RWLOCK_INIT_VALUE = 0x00000000"
definition SPIN_WRITER_LOCK_VALUE :: u32 where
  "SPIN_WRITER_LOCK_VALUE = SPIN_RWLOCK_INIT_VALUE OR SPIN_WRITER_LOCK_FLAG"

definition spin_rw_init :: "bool \<Rightarrow> spin_rw" where
  "spin_rw_init prefer_writer =
     \<lparr>rw_sem = SPIN_RWLOCK_INIT_VALUE, rw_w = 0, rw_prefer_writer = prefer_writer\<rparr>"

text \<open>Whether the assertions of \<open>g_spin_rw_free\<close> hold.\<close>

definition spin_rw_free :: "spin_rw \<Rightarrow> bool" where
  "spin_rw_free s \<longleftrightarrow> rw_sem s = SPIN_RWLOCK_INIT_VALUE \<and> rw_w s = 0"

definition writer_swap :: "spin_rw \<Rightarrow> bool \<times> spin_rw" where
  "writer_swap s =
     (if rw_sem s = SPIN_RWLOCK_INIT_VALUE then (True, s\<lparr>rw_sem := SPIN_WRITER_LOCK_VALUE\<rparr>) else (False, s))"

definition writer_unlock :: "spin_rw \<Rightarrow> spin_rw" where
  "writer_unlock s = s\<lparr>rw_sem := rw_sem s AND NOT SPIN_WRITER_LOCK_FLAG\<rparr>"

definition writer_announce :: "spin_rw \<Rightarrow> spin_rw" where
  "writer_announce s = (if rw_prefer_writer s then s\<lparr>rw_w := rw_w s + 1\<rparr> else s)"

definition writer_retire :: "spin_rw \<Rightarrow> spin_rw" where
  "writer_retire s = (if rw_prefer_writer s then s\<lparr>rw_w := rw_w s - 1\<rparr> else s)"

text \<open>The third test of a reader adds itself and looks at the value before.\<close>

definition reader_add :: "spin_rw \<Rightarrow> bool \<times> spin_rw" where
  "reader_add s = (rw_sem s AND SPIN_WRITER_LOCK_FLAG = 0, s\<lparr>rw_sem := rw_sem s + 1\<rparr>)"

definition reader_sub :: "spin_rw \<Rightarrow> spin_rw" where
  "reader_sub s = s\<lparr>rw_sem := rw_sem s - 1\<rparr>"

text \<open>
  What a thread does next: a writer reads \<open>sem\<close>, swaps it, enters itself in \<open>w\<close> or takes itself out
  (with the outcome of the call); a reader reads \<open>w\<close> and \<open>sem\<close>, adds itself or backs off.
\<close>

datatype pc =
  Idle
| W_Read request phase
| W_Swap request phase
| W_Announce request
| W_Retire bool
| W_Hold
| R_Read_W request phase
| R_Read_Sem request phase
| R_Add request phase
| R_Back request phase
| R_Hold

text \<open>A failed attempt of a writer (\<open>g_spin_lockw\<close>, \<open>g_spin_try_lockw\<close>), and of a reader.\<close>

definition w_failed :: "request \<Rightarrow> phase \<Rightarrow> bool \<Rightarrow> pc" where
  "w_failed r ph late =
     (case next_phase r ph late of
        None \<Rightarrow> if ph = First then Idle else W_Retire False
      | Some ph' \<Rightarrow> if ph = First then W_Announce r else W_Read r ph')"

definition w_locked :: "phase \<Rightarrow> pc" where
  "w_locked ph = (if ph = First then W_Hold else W_Retire True)"

definition r_failed :: "request \<Rightarrow> phase \<Rightarrow> bool \<Rightarrow> pc" where
  "r_failed r ph late = (case next_phase r ph late of None \<Rightarrow> Idle | Some ph' \<Rightarrow> R_Read_W r ph')"

inductive rw_action :: "spin_rw \<Rightarrow> pc \<Rightarrow> spin_rw \<Rightarrow> pc \<Rightarrow> bool" where
  w_call: "rw_action s Idle s (W_Read r First)"
| w_read: "rw_action s (W_Read r ph) s
     (if rw_sem s = SPIN_RWLOCK_INIT_VALUE then W_Swap r ph else w_failed r ph late)"
| w_swap: "rw_action s (W_Swap r ph) (snd (writer_swap s))
     (if fst (writer_swap s) then w_locked ph else w_failed r ph late)"
| w_announce: "rw_action s (W_Announce r) (writer_announce s) (W_Read r Outer)"
| w_retire: "rw_action s (W_Retire ok) (writer_retire s) (if ok then W_Hold else Idle)"
| w_unlock: "rw_action s W_Hold (writer_unlock s) Idle"
| r_call: "rw_action s Idle s (R_Read_W r (if is_timed r then First else Outer))"
| r_read_w: "rw_action s (R_Read_W r ph) s (if rw_w s = 0 then R_Read_Sem r ph else r_failed r ph late)"
| r_read_sem: "rw_action s (R_Read_Sem r ph) s
     (if rw_sem s AND SPIN_WRITER_LOCK_FLAG = 0 then R_Add r ph else r_failed r ph late)"
| r_add: "rw_action s (R_Add r ph) (snd (reader_add s)) (if fst (reader_add s) then R_Hold else R_Back r ph)"
| r_back: "rw_action s (R_Back r ph) (reader_sub s) (r_failed r ph late)"
| r_unlock: "rw_action s R_Hold (reader_sub s) Idle"

abbreviation rw_step :: "spin_rw \<times> pc list \<Rightarrow> spin_rw \<times> pc list \<Rightarrow> bool" where
  "rw_step \<equiv> par_step rw_action"

abbreviation rw_reachable :: "bool \<Rightarrow> nat \<Rightarrow> spin_rw \<times> pc list \<Rightarrow> bool" where
  "rw_reachable prefers_writer n \<equiv> par_reachable rw_action (spin_rw_init prefers_writer) Idle n"

section \<open>Invariant\<close>

definition count :: "('a \<Rightarrow> bool) \<Rightarrow> 'a list \<Rightarrow> nat" where
  "count P xs = length (filter P xs)"

lemma count_update:
  "i < length xs \<Longrightarrow> count P (xs[i := y]) + (if P (xs ! i) then 1 else 0) = count P xs + (if P y then 1 else 0)"
proof (induction xs arbitrary: i)
  case (Cons x xs)
  then show ?case by (cases i) (auto simp: count_def)
qed simp

lemma count_le: "count P xs \<le> length xs"
  by (simp add: count_def)

lemma count_0: "count P xs = 0 \<longleftrightarrow> (\<forall>i < length xs. \<not> P (xs ! i))"
  by (simp add: count_def filter_empty_conv all_set_conv_all_nth)

lemma count_pos: "i < length xs \<Longrightarrow> P (xs ! i) \<Longrightarrow> 0 < count P xs"
  using count_0 [of P xs] by auto

lemma count_two:
  assumes "i < length xs" "j < length xs" "i \<noteq> j" "P (xs ! i)" "P (xs ! j)"
  shows "2 \<le> count P xs"
proof -
  have "card {i, j} \<le> card {k. k < length xs \<and> P (xs ! k)}"
    using assms by (intro card_mono) auto
  then show ?thesis using assms(3) by (simp add: count_def length_filter_conv_card)
qed

fun holds_w :: "pc \<Rightarrow> bool" where
  "holds_w W_Hold = True"
| "holds_w (W_Retire ok) = ok"
| "holds_w _ = False"

fun holds_r :: "pc \<Rightarrow> bool" where
  "holds_r R_Hold = True"
| "holds_r _ = False"

fun added_r :: "pc \<Rightarrow> bool" where
  "added_r R_Hold = True"
| "added_r (R_Back r ph) = True"
| "added_r _ = False"

fun announced :: "pc \<Rightarrow> bool" where
  "announced (W_Read r ph) = (ph \<noteq> First)"
| "announced (W_Swap r ph) = (ph \<noteq> First)"
| "announced (W_Retire ok) = True"
| "announced _ = False"

definition rw_inv :: "spin_rw \<times> pc list \<Rightarrow> bool" where
  "rw_inv c \<longleftrightarrow> (case c of (s, ts) \<Rightarrow>
     rw_sem s = of_nat (count added_r ts) + (if count holds_w ts = 1 then SPIN_WRITER_LOCK_FLAG else 0) \<and>
     count holds_w ts \<le> 1 \<and> (count holds_w ts = 1 \<longrightarrow> count holds_r ts = 0) \<and>
     rw_w s = (if rw_prefer_writer s then of_nat (count announced ts) else 0))"

lemma sem_tests:
  assumes "c < 2 ^ 30"
  shows "(of_nat c + (if b then SPIN_WRITER_LOCK_FLAG else 0) = 0) \<longleftrightarrow> c = 0 \<and> \<not> b"
    and "(of_nat c + (if b then SPIN_WRITER_LOCK_FLAG else 0)) AND SPIN_WRITER_LOCK_FLAG = 0 \<longleftrightarrow> \<not> b"
    and "(of_nat c + SPIN_WRITER_LOCK_FLAG) AND NOT SPIN_WRITER_LOCK_FLAG = (of_nat c :: u32)"
proof -
  let ?F = "SPIN_WRITER_LOCK_FLAG"
  let ?c = "of_nat c :: u32"
  have m: "?c AND mask 30 = ?c"
    by (simp only: take_bit_nat_eq_self [OF assms] flip: take_bit_eq_mask of_nat_take_bit)
  have mF: "mask 30 AND ?F = 0" "mask 30 AND NOT ?F = mask 30"
    by (simp_all add: SPIN_WRITER_LOCK_FLAG_def mask_eq_exp_minus_1)
  have "?c AND ?F = (?c AND mask 30) AND ?F" "?c AND NOT ?F = (?c AND mask 30) AND NOT ?F"
    by (simp_all only: m)
  then have d: "?c AND ?F = 0" and n: "?c AND NOT ?F = ?c"
    unfolding and.assoc mF by (simp_all only: m and_zero_eq)
  have or: "?c + ?F = ?c OR ?F" by (rule disjunctive_add_eq_or [OF d])
  have F: "?F \<noteq> 0" by (simp add: SPIN_WRITER_LOCK_FLAG_def)
  have z: "?c = 0 \<longleftrightarrow> c = 0"
    using assms dvd_imp_le [of "2 ^ 32" c] by (auto simp: word_of_nat_eq_0_iff)
  have f: "(?c OR ?F) AND ?F = ?F" by (simp add: bit.conj_disj_distrib2 and.commute)
  have o: "?c OR ?F \<noteq> 0" using F f by (metis zero_and_eq)
  show "(?c + (if b then ?F else 0) = 0) \<longleftrightarrow> c = 0 \<and> \<not> b"
    using or z o by (cases b) simp_all
  show "(?c + (if b then ?F else 0)) AND ?F = 0 \<longleftrightarrow> \<not> b"
    using F or d f by (cases b) simp_all
  show "(?c + ?F) AND NOT ?F = ?c"
    using n by (simp add: or bit.conj_disj_distrib2)
qed

lemma next_phase_neq [simp]: "next_phase r ph late \<noteq> Some First"
  by (induction r ph late rule: next_phase.induct) auto

lemma w_failed_simps [simp]:
  "\<not> holds_w (w_failed r ph late)" "\<not> holds_r (w_failed r ph late)" "\<not> added_r (w_failed r ph late)"
  "announced (w_failed r ph late) \<longleftrightarrow> ph \<noteq> First"
  using next_phase_neq [of r ph late] by (auto simp: w_failed_def split: option.splits)

lemma w_locked_simps [simp]:
  "holds_w (w_locked ph)" "\<not> holds_r (w_locked ph)" "\<not> added_r (w_locked ph)"
  "announced (w_locked ph) \<longleftrightarrow> ph \<noteq> First"
  by (auto simp: w_locked_def)

lemma r_failed_simps [simp]:
  "\<not> holds_w (r_failed r ph late)" "\<not> holds_r (r_failed r ph late)" "\<not> added_r (r_failed r ph late)"
  "\<not> announced (r_failed r ph late)"
  by (auto simp: r_failed_def split: option.splits)

text \<open>One step changes the counts by what the thread is before and after.\<close>

lemma count_move:
  assumes "i < length ts"
  shows "count P (ts[i := p]) =
    (if P p = P (ts ! i) then count P ts else if P p then count P ts + 1 else count P ts - 1)"
    and "P (ts ! i) \<Longrightarrow> 0 < count P ts"
  using count_update [OF assms, of P p] count_pos [OF assms, of P] by (auto split: if_splits)

lemma count_mono: "(\<And>x. P x \<Longrightarrow> Q x) \<Longrightarrow> count P xs \<le> count Q xs"
  by (induction xs) (auto simp: count_def)

lemma of_nat_pred: "0 < k \<Longrightarrow> (of_nat (k - Suc 0) :: u32) = of_nat k - 1"
  by (simp add: of_nat_diff)

lemma action_inv:
  assumes "rw_inv (s, ts)" and i: "i < length ts" and "length ts < 2 ^ 30" and "rw_action s (ts ! i) s' p"
  shows "rw_inv (s', ts[i := p])"
proof -
  let ?a = "count added_r ts" and ?h = "count holds_w ts" and ?r = "count holds_r ts" and ?n = "count announced ts"
  have inv: "rw_sem s = of_nat ?a + (if ?h = 1 then SPIN_WRITER_LOCK_FLAG else 0)" "?h \<le> 1"
    "?h = 1 \<longrightarrow> ?r = 0" "rw_w s = (if rw_prefer_writer s then of_nat ?n else 0)"
    using assms(1) by (simp_all add: rw_inv_def)
  have a: "?a < 2 ^ 30" using count_le [of added_r ts] assms(3) by simp
  have ra: "?r \<le> ?a" by (rule count_mono) (auto elim: holds_r.elims)
  note pos = count_move(2) [OF i, of added_r] count_move(2) [OF i, of holds_w] count_move(2) [OF i, of holds_r]
    count_move(2) [OF i, of announced]
  note tests = sem_tests [OF a]
  show ?thesis using assms(4)
  proof (cases rule: rw_action.cases)
    case (w_read r ph late)
    then show ?thesis using inv pos by (cases ph) (auto simp: rw_inv_def count_move(1) [OF i])
  next
    case (w_swap r ph late)
    then show ?thesis using inv pos tests(1) [of "?h = 1"] ra
      by (auto simp: rw_inv_def count_move(1) [OF i] writer_swap_def SPIN_RWLOCK_INIT_VALUE_def SPIN_WRITER_LOCK_VALUE_def)
  next
    case (w_announce r)
    then show ?thesis using inv pos by (auto simp: rw_inv_def count_move(1) [OF i] writer_announce_def add.commute)
  next
    case (w_retire ok)
    then show ?thesis using inv pos
      by (auto simp: rw_inv_def count_move(1) [OF i] writer_retire_def of_nat_pred)
  next
    case w_unlock
    then show ?thesis using inv pos tests(3)
      by (auto simp: rw_inv_def count_move(1) [OF i] writer_unlock_def)
  next
    case (r_add r ph)
    then show ?thesis using inv pos tests(2) [of "?h = 1"]
      by (auto simp: rw_inv_def count_move(1) [OF i] reader_add_def)
  next
    case (r_back r ph late)
    then show ?thesis using inv pos
      by (auto simp: rw_inv_def count_move(1) [OF i] reader_sub_def of_nat_pred)
  next
    case r_unlock
    then show ?thesis using inv pos
      by (auto simp: rw_inv_def count_move(1) [OF i] reader_sub_def of_nat_pred)
  qed (use inv pos in \<open>auto simp: rw_inv_def count_move(1) [OF i]\<close>)
qed

lemma action_prefer:
  "rw_action s p s' p' \<Longrightarrow> rw_prefer_writer s' = rw_prefer_writer s"
  by (cases rule: rw_action.cases)
    (auto simp: writer_swap_def writer_announce_def writer_retire_def writer_unlock_def reader_add_def reader_sub_def
      split: if_splits)

lemma count_replicate: "\<not> P x \<Longrightarrow> count P (replicate n x) = 0"
  by (simp add: count_def)

interpretation rw: shared_object rw_action "spin_rw_init pw" Idle
  "\<lambda>c. rw_prefer_writer (fst c) = pw \<and> (length (snd c) < 2 ^ 30 \<longrightarrow> rw_inv c)" for pw
proof
  show "rw_prefer_writer (fst (spin_rw_init pw, replicate n Idle)) = pw \<and>
      (length (snd (spin_rw_init pw, replicate n Idle)) < 2 ^ 30 \<longrightarrow> rw_inv (spin_rw_init pw, replicate n Idle))" for n
    by (simp add: rw_inv_def spin_rw_init_def SPIN_RWLOCK_INIT_VALUE_def count_replicate)
qed (use action_inv action_prefer in fastforce)

lemma reachable_inv:
  assumes "rw_reachable pw n c" "n < 2 ^ 30"
  shows "rw_inv c \<and> length (snd c) = n \<and> rw_prefer_writer (fst c) = pw"
  using rw.inv_reachable [OF assms(1)] assms(2) by simp

text \<open>With every thread out of the lock its assertions on release hold.\<close>

lemma rw_idle_free:
  assumes "rw_reachable pw n (s, replicate n Idle)" "n < 2 ^ 30"
  shows "spin_rw_free s"
  using reachable_inv [OF assms]
  by (simp add: rw_inv_def spin_rw_free_def SPIN_RWLOCK_INIT_VALUE_def count_replicate)

text \<open>A thread that has not yet passed the test of \<open>w\<close> as a reader.\<close>

fun outside_r :: "pc \<Rightarrow> bool" where
  "outside_r (R_Read_Sem r ph) = False"
| "outside_r (R_Add r ph) = False"
| "outside_r (R_Back r ph) = False"
| "outside_r R_Hold = False"
| "outside_r _ = True"

lemma outside_r_simps [simp]:
  "outside_r (w_failed r ph late)" "outside_r (w_locked ph)" "outside_r (r_failed r ph late)"
  by (auto simp: w_failed_def w_locked_def r_failed_def split: option.splits)

lemma outside_r_step:
  assumes "rw_step c c'" "rw_w (fst c) \<noteq> 0" "j < length (snd c)" "outside_r (snd c ! j)"
  shows "outside_r (snd c' ! j)"
  using assms(1)
proof (cases rule: par_step.cases)
  case (par i ts s s' p)
  have "outside_r p" if "outside_r (ts ! i)"
    using par(4) that assms(2) par(1) by (cases rule: rw_action.cases) auto
  then show ?thesis using par assms(3,4) by (cases "i = j") auto
qed

section \<open>Properties of the reader-writer lock\<close>

text \<open>C14. In every state the threads can reach, while one thread has the lock for writing no other
  thread has it, for writing or for reading, if there are fewer than \<open>2 ^ 30\<close> threads (each counts
  one below the flag).\<close>

theorem spin_rw_exclusion:
  assumes "rw_reachable pw n (s, ts)" "n < 2 ^ 30"
    and "i < n" "j < n" "i \<noteq> j" "holds_w (ts ! i)"
  shows "\<not> holds_w (ts ! j) \<and> \<not> holds_r (ts ! j)"
proof -
  have inv: "count holds_w ts \<le> 1" "count holds_w ts = 1 \<longrightarrow> count holds_r ts = 0" "length ts = n"
    using reachable_inv [OF assms(1,2)] by (simp_all add: rw_inv_def)
  then have "\<not> holds_w (ts ! j)" using count_two [of i ts j holds_w] assms(3-6) by auto
  moreover have "count holds_w ts = 1" using count_pos [of i ts holds_w] inv assms(3,6) by simp
  then have "\<not> holds_r (ts ! j)" using inv count_0 [of holds_r ts] assms(4) by simp
  ultimately show ?thesis ..
qed

lemma demo_writer:
  "rw_reachable pw 2 ((spin_rw_init pw)\<lparr>rw_sem := SPIN_WRITER_LOCK_VALUE\<rparr>, [W_Hold, Idle])"
proof -
  let ?r = "Untimed 100"
  have "rw_reachable pw 2 (spin_rw_init pw, [Idle, Idle])"
    using par_reachable.start [of rw_action "spin_rw_init pw" Idle 2] by (simp add: numeral_2_eq_2)
  from reach_step [OF this, of 0] rw_action.w_call [of "spin_rw_init pw" ?r]
  have "rw_reachable pw 2 (spin_rw_init pw, [W_Read ?r First, Idle])" by fastforce
  from reach_step [OF this, of 0] rw_action.w_read [of "spin_rw_init pw" ?r First]
  have "rw_reachable pw 2 (spin_rw_init pw, [W_Swap ?r First, Idle])"
    by (fastforce simp: spin_rw_init_def)
  from reach_step [OF this, of 0] rw_action.w_swap [of "spin_rw_init pw" ?r First]
  show ?thesis by (fastforce simp: spin_rw_init_def writer_swap_def w_locked_def)
qed

theorem spin_rw_exclusion_witness: "\<not> holds_w ([W_Hold, Idle] ! 1) \<and> \<not> holds_r ([W_Hold, Idle] ! 1)"
  by (rule spin_rw_exclusion [OF demo_writer [of False], of 0]) simp_all

text \<open>C15. With writers preferred, a thread that is out of the lock when some writer waits does not get
  the lock for reading as long as that writer waits, however the steps of the threads mix.\<close>

theorem spin_rw_writer_preference:
  assumes "rw_reachable True n c" "n < 2 ^ 30" "i < n" "j < n" "snd c ! j = Idle"
    and "(\<lambda>c c'. rw_step c c' \<and> announced (snd c ! i))\<^sup>*\<^sup>* c c'"
  shows "\<not> holds_r (snd c' ! j)"
proof -
  have "rw_reachable True n c' \<and> outside_r (snd c' ! j)"
    using assms(6)
  proof induction
    case base
    then show ?case using assms(1,5) by simp
  next
    case (step c' c'')
    have inv: "rw_inv c'" "length (snd c') = n" "rw_prefer_writer (fst c')"
      using reachable_inv [of True n c'] step.IH assms(2) by auto
    have "0 < count announced (snd c')" "count announced (snd c') < 2 ^ 30"
      using count_pos [of i "snd c'" announced] count_le [of announced "snd c'"] step.hyps inv(2) assms(2,3) by auto
    then have "rw_w (fst c') \<noteq> 0"
      using inv sem_tests(1) [of "count announced (snd c')" False] by (auto simp: rw_inv_def split: prod.splits)
    then have "outside_r (snd c'' ! j)"
      using outside_r_step [of c' c'' j] step inv(2) assms(4) by auto
    moreover have "rw_reachable True n c''" using step by (blast intro: par_reachable.more)
    ultimately show ?case by simp
  qed
  then show ?thesis by (cases "snd c' ! j") auto
qed

text \<open>The first thread holds the lock, the second waits, the third calls and finds \<open>w\<close> set.\<close>

definition demo_waiting :: spin_rw where
  "demo_waiting = \<lparr>rw_sem = SPIN_WRITER_LOCK_VALUE, rw_w = 1, rw_prefer_writer = True\<rparr>"

lemma demo_waiting_reachable:
  "rw_reachable True 3 (demo_waiting, [W_Hold, W_Read (Untimed 9) Outer, Idle])"
proof -
  let ?r = "Untimed 9" and ?s = "spin_rw_init True"
  let ?h = "?s\<lparr>rw_sem := SPIN_WRITER_LOCK_VALUE\<rparr>"
  have "rw_reachable True 3 (?s, [Idle, Idle, Idle])"
    using par_reachable.start [of rw_action "spin_rw_init True" Idle 3] by (simp add: numeral_3_eq_3)
  from reach_step [OF this, of 0] rw_action.w_call [of ?s ?r]
  have "rw_reachable True 3 (?s, [W_Read ?r First, Idle, Idle])" by fastforce
  from reach_step [OF this, of 0] rw_action.w_read [of ?s ?r First]
  have "rw_reachable True 3 (?s, [W_Swap ?r First, Idle, Idle])" by (fastforce simp: spin_rw_init_def)
  from reach_step [OF this, of 0] rw_action.w_swap [of ?s ?r First]
  have "rw_reachable True 3 (?h, [W_Hold, Idle, Idle])"
    by (fastforce simp: spin_rw_init_def writer_swap_def w_locked_def)
  from reach_step [OF this, of 1] rw_action.w_call [of ?h ?r]
  have "rw_reachable True 3 (?h, [W_Hold, W_Read ?r First, Idle])" by fastforce
  from reach_step [OF this, of 1] rw_action.w_read [of ?h ?r First False]
  have "rw_reachable True 3 (?h, [W_Hold, W_Announce ?r, Idle])"
    by (fastforce simp: w_failed_def SPIN_RWLOCK_INIT_VALUE_def SPIN_WRITER_LOCK_VALUE_def SPIN_WRITER_LOCK_FLAG_def)
  from reach_step [OF this, of 1] rw_action.w_announce [of ?h ?r]
  show ?thesis by (fastforce simp: writer_announce_def spin_rw_init_def demo_waiting_def)
qed

theorem spin_rw_writer_preference_witness:
  "\<not> holds_r (snd (demo_waiting, [W_Hold, W_Read (Untimed 9) Outer, R_Read_W (Untimed 4) Outer]) ! 2)"
proof (rule spin_rw_writer_preference [OF demo_waiting_reachable, of 1])
  show "(\<lambda>c c'. rw_step c c' \<and> announced (snd c ! 1))\<^sup>*\<^sup>* (demo_waiting, [W_Hold, W_Read (Untimed 9) Outer, Idle])
      (demo_waiting, [W_Hold, W_Read (Untimed 9) Outer, R_Read_W (Untimed 4) Outer])"
    using par_step.par [of 2 "[W_Hold, W_Read (Untimed 9) Outer, Idle]" rw_action demo_waiting]
      rw_action.r_call [of demo_waiting "Untimed 4"]
    by (intro r_into_rtranclp) fastforce
qed simp_all

text \<open>
  Steps of one thread alone: \<open>solo_gets k goal s p\<close> says that from \<open>p\<close>, while no other thread steps,
  it is at a \<open>goal\<close> after at most \<open>k\<close> of its own actions, whichever they are, and that it always has
  one to take before.
\<close>

primrec solo_gets :: "nat \<Rightarrow> (pc \<Rightarrow> bool) \<Rightarrow> spin_rw \<Rightarrow> pc \<Rightarrow> bool" where
  "solo_gets 0 goal s p = goal p"
| "solo_gets (Suc k) goal s p =
     (goal p \<or> (\<exists>s' p'. rw_action s p s' p') \<and> (\<forall>s' p'. rw_action s p s' p' \<longrightarrow> solo_gets k goal s' p'))"

inductive_simps rw_action_simps:
  "rw_action s (W_Read r ph) s' p" "rw_action s (W_Swap r ph) s' p" "rw_action s (W_Announce r) s' p"
  "rw_action s (W_Retire ok) s' p" "rw_action s (R_Read_W r ph) s' p" "rw_action s (R_Read_Sem r ph) s' p"
  "rw_action s (R_Add r ph) s' p" "rw_action s (R_Back r ph) s' p"

text \<open>
  A call in progress that is not giving up: a writer before its lock, up to taking itself out of
  \<open>w\<close> with the lock held; a reader before its lock. A timed reader that is just backing off after a
  writer was in its way may still find its deadline passed; every other call gets the lock.
\<close>

fun wants_w :: "pc \<Rightarrow> bool" where
  "wants_w (W_Read r ph) = True"
| "wants_w (W_Swap r ph) = True"
| "wants_w (W_Announce r) = True"
| "wants_w (W_Retire ok) = ok"
| "wants_w _ = False"

fun wants_r :: "pc \<Rightarrow> bool" where
  "wants_r (R_Read_W r ph) = True"
| "wants_r (R_Read_Sem r ph) = True"
| "wants_r (R_Add r ph) = True"
| "wants_r (R_Back r ph) = True"
| "wants_r _ = False"

fun may_quit :: "pc \<Rightarrow> bool" where
  "may_quit (R_Back r ph) = is_timed r"
| "may_quit _ = False"

definition rw_outcome :: "pc \<Rightarrow> pc \<Rightarrow> bool" where
  "rw_outcome p q \<longleftrightarrow> (if wants_w p then q = W_Hold else q = R_Hold \<or> may_quit p \<and> q = Idle)"

lemma solo_gets_Suc: "solo_gets k goal s p \<Longrightarrow> solo_gets (Suc k) goal s p"
proof (induction k arbitrary: s p)
  case (Suc k)
  from Suc.prems consider "goal p"
    | "\<exists>s' p'. rw_action s p s' p'" "\<And>s' p'. rw_action s p s' p' \<Longrightarrow> solo_gets k goal s' p'" by auto
  then show ?case
  proof cases
    case 2
    with Suc.IH show ?thesis by (subst solo_gets.simps(2)) blast
  qed simp
qed simp

lemma solo_gets_mono: "solo_gets k goal s p \<Longrightarrow> k \<le> n \<Longrightarrow> solo_gets n goal s p"
  by (induction n) (auto simp: le_Suc_eq simp del: solo_gets.simps intro: solo_gets_Suc)

lemma solo_step:
  assumes "wants_w p \<or> wants_r p" "\<And>s' p'. rw_action s p s' p' \<Longrightarrow> solo_gets k goal s' p'"
  shows "solo_gets (Suc k) goal s p"
proof -
  have "\<exists>s' p'. rw_action s p s' p'"
    using assms(1) by (cases p) (auto intro!: exI intro: rw_action.intros)
  with assms(2) show ?thesis by simp
qed

lemma solo_writer:
  assumes "goal W_Hold"
  shows "solo_gets 1 goal s (W_Retire True)"
    and "rw_sem s = 0 \<Longrightarrow> solo_gets 2 goal s (W_Swap r ph)"
    and "rw_sem s = 0 \<Longrightarrow> solo_gets 3 goal s (W_Read r ph)"
    and "rw_sem s = 0 \<Longrightarrow> solo_gets 4 goal s (W_Announce r)"
proof -
  show 1: "solo_gets 1 goal s (W_Retire True)" for s using assms unfolding One_nat_def by - (rule solo_step, auto simp: rw_action_simps)
  have locked: "solo_gets 1 goal s (w_locked ph)" for s ph
    using 1 [of s] assms by (auto simp: w_locked_def)
  show 2: "solo_gets 2 goal s (W_Swap r ph)" if "rw_sem s = 0" for s r ph
    using locked that unfolding numeral_2_eq_2
    by - (rule solo_step, auto simp: rw_action_simps writer_swap_def SPIN_RWLOCK_INIT_VALUE_def simp del: solo_gets.simps)
  show 3: "solo_gets 3 goal s (W_Read r ph)" if "rw_sem s = 0" for s r ph
    using 2 [OF that] that unfolding eval_nat_numeral(3)
    by - (rule solo_step, auto simp: rw_action_simps SPIN_RWLOCK_INIT_VALUE_def simp del: solo_gets.simps)
  have "rw_sem (writer_announce s) = rw_sem s" by (simp add: writer_announce_def)
  then show "solo_gets 4 goal s (W_Announce r)" if "rw_sem s = 0"
    using 3 [of "writer_announce s" r Outer] that unfolding eval_nat_numeral(2)
    by - (rule solo_step, auto simp: rw_action_simps simp del: solo_gets.simps)
qed

lemma solo_reader:
  assumes "goal R_Hold"
  shows "rw_sem s = 0 \<Longrightarrow> solo_gets 1 goal s (R_Add r ph)"
    and "rw_sem s = 0 \<Longrightarrow> solo_gets 2 goal s (R_Read_Sem r ph)"
    and "rw_sem s = 0 \<Longrightarrow> rw_w s = 0 \<Longrightarrow> solo_gets 3 goal s (R_Read_W r ph)"
    and "rw_sem s = 1 \<Longrightarrow> rw_w s = 0 \<Longrightarrow> is_timed r \<longrightarrow> goal Idle \<Longrightarrow> solo_gets 4 goal s (R_Back r ph)"
proof -
  show 1: "solo_gets 1 goal s (R_Add r ph)" if "rw_sem s = 0" for s r ph
    using assms that unfolding One_nat_def by - (rule solo_step, auto simp: rw_action_simps reader_add_def)
  show 2: "solo_gets 2 goal s (R_Read_Sem r ph)" if "rw_sem s = 0" for s r ph
    using 1 [OF that] that unfolding numeral_2_eq_2
    by - (rule solo_step, auto simp: rw_action_simps simp del: solo_gets.simps)
  show 3: "solo_gets 3 goal s (R_Read_W r ph)" if "rw_sem s = 0" "rw_w s = 0" for s r ph
    using 2 [OF that(1)] that unfolding eval_nat_numeral(3)
    by - (rule solo_step, auto simp: rw_action_simps simp del: solo_gets.simps)
  show "solo_gets 4 goal s (R_Back r ph)" if "rw_sem s = 1" "rw_w s = 0" "is_timed r \<longrightarrow> goal Idle"
  proof -
    have s: "rw_sem (reader_sub s) = 0" "rw_w (reader_sub s) = 0" using that by (simp_all add: reader_sub_def)
    have "solo_gets 3 goal (reader_sub s) (r_failed r ph late)" for late
    proof (cases "next_phase r ph late")
      case None
      then have "is_timed r" by (induction r ph late rule: next_phase.induct) (auto elim: impatient.elims split: if_splits)
      with None that(3) have "solo_gets 0 goal (reader_sub s) (r_failed r ph late)" by (simp add: r_failed_def)
      then show ?thesis by (rule solo_gets_mono) simp
    next
      case (Some ph')
      with 3 [OF s] show ?thesis by (simp add: r_failed_def)
    qed
    then show ?thesis
      unfolding eval_nat_numeral(2)
      by - (rule solo_step, auto simp: rw_action_simps simp del: solo_gets.simps)
  qed
qed

lemma count_only:
  assumes "i < length ts" "\<And>j. j < length ts \<Longrightarrow> j \<noteq> i \<Longrightarrow> \<not> P (ts ! j)"
  shows "count P ts = (if P (ts ! i) then 1 else 0)"
proof -
  have "{j. j < length ts \<and> P (ts ! j)} = (if P (ts ! i) then {i} else {})" using assms by auto
  then show ?thesis by (simp add: count_def length_filter_conv_card)
qed

text \<open>C16. Whenever the lock is free of the other threads (none of them has it or has counted itself
  in; with writers preferred, for a reader, none waits as a writer), a thread anywhere in a call for
  it gets it within four steps of its own while the others stand still, wherever in their own calls
  these have stopped; only a timed reader that is backing off may find its deadline passed and
  return instead.\<close>

theorem spin_rw_solo_progress:
  assumes "rw_reachable pw n (s, ts)" "n < 2 ^ 30" "i < n" "wants_w (ts ! i) \<or> wants_r (ts ! i)"
    and "\<And>j. j < n \<Longrightarrow> j \<noteq> i \<Longrightarrow> \<not> holds_w (ts ! j) \<and> \<not> added_r (ts ! j) \<and>
           (wants_r (ts ! i) \<and> rw_prefer_writer s \<longrightarrow> \<not> announced (ts ! j))"
  shows "solo_gets 4 (rw_outcome (ts ! i)) s (ts ! i)"
proof -
  let ?p = "ts ! i"
  have inv: "rw_inv (s, ts)" "length ts = n" using reachable_inv [OF assms(1,2)] by simp_all
  have c: "count added_r ts = (if added_r ?p then 1 else 0)" "count holds_w ts = (if holds_w ?p then 1 else 0)"
    by (rule count_only; use assms(3,5) inv(2) in auto)+
  have sem: "rw_sem s = (if added_r ?p then 1 else 0) + (if holds_w ?p then SPIN_WRITER_LOCK_FLAG else 0)"
    using inv(1) c by (auto simp: rw_inv_def)
  have w: "rw_w s = 0" if r: "wants_r ?p"
  proof (cases "rw_prefer_writer s")
    case True
    have "\<not> announced ?p" using r by (cases ?p) auto
    then have "count announced ts = 0" using assms(3,5) inv(2) True r by (subst count_only [of i]) auto
    then show ?thesis using inv(1) by (simp add: rw_inv_def)
  next
    case False
    then show ?thesis using inv(1) by (simp add: rw_inv_def)
  qed
  have mono: "solo_gets k (rw_outcome ?p) s ?p \<Longrightarrow> k \<le> 4 \<Longrightarrow> ?thesis" for k by (rule solo_gets_mono)
  show ?thesis
  proof (cases "wants_w ?p")
    case True
    then have "rw_outcome ?p W_Hold" by (simp add: rw_outcome_def)
    note get = solo_writer [of "rw_outcome ?p", OF this]
    show ?thesis
      using True sem get(1) [of s] get(2,3,4) [of s] mono [of 1] mono [of 2] mono [of 3] mono [of 4]
      by (cases ?p) (simp_all del: solo_gets.simps)
  next
    case False
    then have r: "wants_r ?p" using assms(4) by simp
    have g: "rw_outcome ?p R_Hold" "may_quit ?p \<longrightarrow> rw_outcome ?p Idle"
      using False by (simp_all add: rw_outcome_def)
    note get = solo_reader [of "rw_outcome ?p", OF g(1)]
    show ?thesis
      using r sem w [OF r] g(2) get [of s] mono [of 1] mono [of 2] mono [of 3] mono [of 4]
      by (cases ?p) (simp_all del: solo_gets.simps)
  qed
qed

theorem spin_rw_solo_progress_witness:
  "solo_gets 4 (rw_outcome ([W_Read (Untimed 5) First, Idle] ! 0)) (spin_rw_init True)
     ([W_Read (Untimed 5) First, Idle] ! 0)"
proof (rule spin_rw_solo_progress)
  have "rw_reachable True 2 (spin_rw_init True, (replicate 2 Idle)[0 := W_Read (Untimed 5) First])"
    by (rule reach_step [OF par_reachable.start]) (simp_all add: rw_action.w_call)
  then show "rw_reachable True 2 (spin_rw_init True, [W_Read (Untimed 5) First, Idle])"
    by (simp add: numeral_2_eq_2)
  show "(2 :: nat) < 2 ^ 30" by simp
qed (auto simp: less_Suc_eq numeral_2_eq_2)

section \<open>The plain spin lock\<close>

definition SPIN_PURE_INIT_VALUE :: u32 where "SPIN_PURE_INIT_VALUE = 0x00000000"
definition SPIN_PURE_LOCK_VALUE :: u32 where "SPIN_PURE_LOCK_VALUE = 0x00000001"

record spin =
  sp_sem :: u32

definition spin_init :: spin where
  "spin_init = \<lparr>sp_sem = SPIN_PURE_INIT_VALUE\<rparr>"

definition spin_free :: "spin \<Rightarrow> bool" where
  "spin_free s \<longleftrightarrow> sp_sem s = SPIN_PURE_INIT_VALUE"

definition spin_swap :: "spin \<Rightarrow> bool \<times> spin" where
  "spin_swap s =
     (if sp_sem s = SPIN_PURE_INIT_VALUE then (True, s\<lparr>sp_sem := SPIN_PURE_LOCK_VALUE\<rparr>) else (False, s))"

definition spin_unlock :: "spin \<Rightarrow> spin" where
  "spin_unlock s = s\<lparr>sp_sem := SPIN_PURE_INIT_VALUE\<rparr>"

datatype spc = S_Idle | S_Read request phase | S_Swap request phase | S_Hold

definition s_failed :: "request \<Rightarrow> phase \<Rightarrow> spc" where
  "s_failed r ph = (case next_phase r ph False of None \<Rightarrow> S_Idle | Some ph' \<Rightarrow> S_Read r ph')"

inductive spin_action :: "spin \<Rightarrow> spc \<Rightarrow> spin \<Rightarrow> spc \<Rightarrow> bool" where
  s_call: "spin_action s S_Idle s (S_Read (Untimed spins) Outer)"
| s_read: "spin_action s (S_Read r ph) s
     (if sp_sem s = SPIN_PURE_INIT_VALUE then S_Swap r ph else s_failed r ph)"
| s_swap: "spin_action s (S_Swap r ph) (snd (spin_swap s)) (if fst (spin_swap s) then S_Hold else s_failed r ph)"
| s_leave: "spin_action s S_Hold (spin_unlock s) S_Idle"

abbreviation spin_reachable :: "nat \<Rightarrow> spin \<times> spc list \<Rightarrow> bool" where
  "spin_reachable n \<equiv> par_reachable spin_action spin_init S_Idle n"

definition spin_inv :: "spin \<times> spc list \<Rightarrow> bool" where
  "spin_inv c \<longleftrightarrow> (case c of (s, ts) \<Rightarrow>
     (sp_sem s = SPIN_PURE_INIT_VALUE \<and> count ((=) S_Hold) ts = 0 \<or>
      sp_sem s = SPIN_PURE_LOCK_VALUE \<and> count ((=) S_Hold) ts = 1))"

lemma s_failed_neq [simp]: "S_Hold \<noteq> s_failed r ph"
  by (auto simp: s_failed_def split: option.splits)

lemma spin_values [simp]: "SPIN_PURE_INIT_VALUE \<noteq> SPIN_PURE_LOCK_VALUE" "SPIN_PURE_LOCK_VALUE \<noteq> SPIN_PURE_INIT_VALUE"
  by (simp_all add: SPIN_PURE_INIT_VALUE_def SPIN_PURE_LOCK_VALUE_def)

interpretation sl: shared_object spin_action spin_init S_Idle spin_inv
proof
  show "spin_inv (spin_init, replicate n S_Idle)" for n
    by (simp add: spin_inv_def spin_init_def count_replicate)
next
  fix s ts i s' p
  assume inv: "spin_inv (s, ts)" and i: "i < length ts" and act: "spin_action s (ts ! i) s' p"
  show "spin_inv (s', ts[i := p])"
    using act inv count_move(2) [OF i, of "(=) S_Hold"]
    by (cases rule: spin_action.cases)
      (auto simp: spin_inv_def count_move(1) [OF i] spin_swap_def spin_unlock_def)
qed

text \<open>When no thread holds the lock its assertion on release holds.\<close>

lemma spin_idle_free: "spin_reachable n (s, ts) \<Longrightarrow> S_Hold \<notin> set ts \<Longrightarrow> spin_free s"
  using sl.inv_reachable [of n "(s, ts)"] count_0 [of "(=) S_Hold" ts]
  by (auto simp: spin_inv_def spin_free_def in_set_conv_nth)

text \<open>At most one thread holds the spin lock, in every state the threads can reach.\<close>

lemma spin_exclusion:
  assumes "spin_reachable n (s, ts)" "i < n" "j < n" "i \<noteq> j" "ts ! i = S_Hold"
  shows "ts ! j \<noteq> S_Hold"
  using sl.inv_reachable [OF assms(1)] count_two [of i ts j "(=) S_Hold"] assms(2-5)
  by (fastforce simp: spin_inv_def)

lemma demo_spin:
  "spin_reachable 2 (spin_init\<lparr>sp_sem := SPIN_PURE_LOCK_VALUE\<rparr>, [S_Hold, S_Idle])"
proof -
  let ?r = "Untimed 3"
  have "spin_reachable 2 (spin_init, [S_Idle, S_Idle])"
    using par_reachable.start [of spin_action spin_init S_Idle 2] by (simp add: numeral_2_eq_2)
  from reach_step [OF this, of 0] spin_action.s_call [of spin_init 3]
  have "spin_reachable 2 (spin_init, [S_Read ?r Outer, S_Idle])" by fastforce
  from reach_step [OF this, of 0] spin_action.s_read [of spin_init ?r Outer]
  have "spin_reachable 2 (spin_init, [S_Swap ?r Outer, S_Idle])" by (fastforce simp: spin_init_def)
  from reach_step [OF this, of 0] spin_action.s_swap [of spin_init ?r Outer]
  show ?thesis by (fastforce simp: spin_init_def spin_swap_def)
qed

section \<open>Unique ticks\<close>

text \<open>
  \<open>g_now_uid\<close> with its static \<open>_tic\<close> and \<open>_ack\<close>; \<open>u_log\<close> records the ticks in the order in which their
  calls leave the lock, the latest first. The clock \<open>g_now_us\<close> is read before the lock is taken and may
  return any value up to \<open>b\<close>.
\<close>

record uid =
  u_tic :: u64
  u_ack :: bool
  u_log :: "u64 list"

definition uid_init :: uid where
  "uid_init = \<lparr>u_tic = 0, u_ack = False, u_log = []\<rparr>"

datatype upc = U_Idle | U_Lock u64 | U_Compare u64 | U_Store u64 | U_Increment | U_Unlock u64

inductive uid_action :: "nat \<Rightarrow> uid \<Rightarrow> upc \<Rightarrow> uid \<Rightarrow> upc \<Rightarrow> bool" for b where
  u_call: "unat now \<le> b \<Longrightarrow> uid_action b s U_Idle s (U_Lock now)"
| u_lock: "uid_action b s (U_Lock now) (s\<lparr>u_ack := True\<rparr>) (if u_ack s then U_Lock now else U_Compare now)"
| u_compare: "uid_action b s (U_Compare now) s (if u_tic s < now then U_Store now else U_Increment)"
| u_store: "uid_action b s (U_Store now) (s\<lparr>u_tic := now\<rparr>) (U_Unlock now)"
| u_increment: "uid_action b s U_Increment (s\<lparr>u_tic := u_tic s + 1\<rparr>) (U_Unlock (u_tic s + 1))"
| u_unlock: "uid_action b s (U_Unlock now) (s\<lparr>u_ack := False, u_log := now # u_log s\<rparr>) U_Idle"

fun u_inside :: "upc \<Rightarrow> bool" where
  "u_inside U_Idle = False"
| "u_inside (U_Lock now) = False"
| "u_inside _ = True"

text \<open>What the thread in the lock knows about the last tick.\<close>

fun u_knows :: "uid \<Rightarrow> nat \<Rightarrow> upc \<Rightarrow> bool" where
  "u_knows s b (U_Lock now) = (unat now \<le> b)"
| "u_knows s b (U_Compare now) = (unat now \<le> b \<and> (\<forall>x \<in> set (u_log s). x \<le> u_tic s) \<and>
     unat (u_tic s) \<le> b + length (u_log s))"
| "u_knows s b (U_Store now) = (unat now \<le> b \<and> u_tic s < now \<and> (\<forall>x \<in> set (u_log s). x \<le> u_tic s))"
| "u_knows s b U_Increment = ((\<forall>x \<in> set (u_log s). x \<le> u_tic s) \<and> unat (u_tic s) \<le> b + length (u_log s))"
| "u_knows s b (U_Unlock now) = (now = u_tic s \<and> (\<forall>x \<in> set (u_log s). x < now) \<and>
     unat now \<le> b + length (u_log s) + 1)"
| "u_knows s b U_Idle = True"

definition uid_inv :: "nat \<Rightarrow> uid \<times> upc list \<Rightarrow> bool" where
  "uid_inv b c \<longleftrightarrow> (case c of (s, ts) \<Rightarrow>
     sorted_wrt (>) (u_log s) \<and> count u_inside ts = (if u_ack s then 1 else 0) \<and>
     (\<forall>i < length ts. u_knows s b (ts ! i)) \<and>
     (\<not> u_ack s \<longrightarrow> (\<forall>x \<in> set (u_log s). x \<le> u_tic s) \<and> unat (u_tic s) \<le> b + length (u_log s)))"

lemma u_knows_outside: "\<not> u_inside p \<Longrightarrow> u_knows s b p \<longleftrightarrow> u_knows s' b p"
  by (cases p) auto

lemma uid_inv_action:
  assumes inv: "uid_inv b (s, ts)" and i: "i < length ts" and act: "uid_action b s (ts ! i) s' p"
    and bound: "b + length (u_log s') + 1 < 2 ^ 64"
  shows "uid_inv b (s', ts[i := p])"
proof -
  have c: "count u_inside ts = (if u_ack s then 1 else 0)" and k: "u_knows s b (ts ! i)"
    and log: "sorted_wrt (>) (u_log s)"
    using inv i by (auto simp: uid_inv_def)
  have others: "u_knows s' b (ts ! j)" if "j < length ts" "j \<noteq> i" "u_inside (ts ! i) \<or> s' = s \<or> s' = s\<lparr>u_ack := True\<rparr>" for j
  proof -
    have kj: "u_knows s b (ts ! j)" using inv that(1) by (simp add: uid_inv_def)
    show ?thesis
    proof (cases "u_inside (ts ! i)")
      case True
      then have "\<not> u_inside (ts ! j)" using count_two [of i ts j u_inside] c i that by (auto split: if_splits)
      then show ?thesis using kj u_knows_outside by blast
    next
      case False
      then show ?thesis using kj that(3) by (cases "ts ! j") auto
    qed
  qed
  have move: "(\<forall>j < length (ts[i := p]). u_knows s' b (ts[i := p] ! j))" if "u_knows s' b p"
    "u_inside (ts ! i) \<or> s' = s \<or> s' = s\<lparr>u_ack := True\<rparr>"
  proof (intro allI impI)
    fix j assume "j < length (ts[i := p])"
    then show "u_knows s' b (ts[i := p] ! j)" using that others by (cases "j = i") auto
  qed
  note count = count_move [OF i, of u_inside]
  show ?thesis using act
  proof (cases rule: uid_action.cases)
    case (u_call now)
    then show ?thesis using inv move count by (simp add: uid_inv_def)
  next
    case (u_lock now)
    have "u_knows s' b p" using u_lock inv k by (auto simp: uid_inv_def)
    from move [OF this] show ?thesis using u_lock c log count by (auto simp: uid_inv_def)
  next
    case (u_compare now)
    have "u_knows s' b p" using u_compare k by auto
    from move [OF this] show ?thesis using u_compare c log count by (auto simp: uid_inv_def)
  next
    case (u_store now)
    have "u_knows s' b p" using u_store k by auto
    from move [OF this] show ?thesis using u_store c log count by (auto simp: uid_inv_def)
  next
    case u_increment
    have "unat (u_tic s) + 1 < 2 ^ 64" using k u_increment bound by simp
    then have "unat (u_tic s + 1) = unat (u_tic s) + 1" by (subst unat_plus_if') (simp add: unat_1)
    then have "u_knows s' b p" using u_increment k by (auto simp: word_less_nat_alt word_le_nat_alt)
    from move [OF this] show ?thesis using u_increment c log count by (auto simp: uid_inv_def)
  next
    case (u_unlock now)
    have "u_knows s' b p" using u_unlock by auto
    from move [OF this] show ?thesis using u_unlock c log count k by (auto simp: uid_inv_def)
  qed
qed

interpretation uid: shared_object "uid_action b" uid_init U_Idle
  "\<lambda>c. b + length (u_log (fst c)) + 1 < 2 ^ 64 \<longrightarrow> uid_inv b c" for b
proof
  show "b + length (u_log (fst (uid_init, replicate n U_Idle))) + 1 < 2 ^ 64 \<longrightarrow>
      uid_inv b (uid_init, replicate n U_Idle)" for n
    by (simp add: uid_inv_def uid_init_def count_replicate)
next
  fix s ts i s' p
  assume "b + length (u_log (fst (s, ts))) + 1 < 2 ^ 64 \<longrightarrow> uid_inv b (s, ts)"
    and i: "i < length ts" and act: "uid_action b s (ts ! i) s' p"
  moreover have "length (u_log s) \<le> length (u_log s')" using act by (cases rule: uid_action.cases) auto
  ultimately show "b + length (u_log (fst (s', ts[i := p]))) + 1 < 2 ^ 64 \<longrightarrow> uid_inv b (s', ts[i := p])"
    using uid_inv_action [OF _ i act] by auto
qed

text \<open>C17. The ticks of \<open>g_now_uid\<close> grow strictly in the order in which the calls leave its lock, so no two
  calls get the same, whatever the interleaving and whatever the clock does, even if it stands
  still or goes back, until clock and calls together use up 64 bits.\<close>

theorem now_uid_unique:
  assumes "par_reachable (uid_action b) uid_init U_Idle n (s, ts)" "b + length (u_log s) + 1 < 2 ^ 64"
  shows "sorted_wrt (>) (u_log s) \<and> distinct (u_log s)"
proof -
  have "sorted_wrt (>) (u_log s)"
    using uid.inv_reachable [OF assms(1)] assms(2) by (simp add: uid_inv_def)
  then show ?thesis by (auto simp: distinct_conv_nth sorted_wrt_iff_nth_less) (metis linorder_neqE_nat order_less_irrefl)
qed

text \<open>Two calls of one thread at the same time of the clock.\<close>

lemma demo_uid:
  "par_reachable (uid_action 7) uid_init U_Idle 1 (\<lparr>u_tic = 8, u_ack = False, u_log = [8, 7]\<rparr>, [U_Idle])"
proof -
  let ?s = "\<lambda>t a l. \<lparr>u_tic = t, u_ack = a, u_log = l\<rparr> :: uid"
  have call: "par_reachable (uid_action 7) uid_init U_Idle 1 (?s t True l, [U_Compare 7])"
    if "par_reachable (uid_action 7) uid_init U_Idle 1 (?s t False l, [U_Idle])" for t l
  proof -
    from reach_step [OF that, of 0] uid_action.u_call [of 7 7 "?s t False l"]
    have "par_reachable (uid_action 7) uid_init U_Idle 1 (?s t False l, [U_Lock 7])" by fastforce
    from reach_step [OF this, of 0] uid_action.u_lock [of 7 "?s t False l" 7] show ?thesis by fastforce
  qed
  have "par_reachable (uid_action 7) uid_init U_Idle 1 (?s 0 False [], [U_Idle])"
    using par_reachable.start [of "uid_action 7" uid_init U_Idle 1] by (simp add: uid_init_def)
  from reach_step [OF call [OF this], of 0] uid_action.u_compare [of 7 "?s 0 True []" 7]
  have "par_reachable (uid_action 7) uid_init U_Idle 1 (?s 0 True [], [U_Store 7])" by fastforce
  from reach_step [OF this, of 0] uid_action.u_store [of 7 "?s 0 True []" 7]
  have "par_reachable (uid_action 7) uid_init U_Idle 1 (?s 7 True [], [U_Unlock 7])" by fastforce
  from reach_step [OF this, of 0] uid_action.u_unlock [of 7 "?s 7 True []" 7]
  have "par_reachable (uid_action 7) uid_init U_Idle 1 (?s 7 False [7], [U_Idle])" by fastforce
  from reach_step [OF call [OF this], of 0] uid_action.u_compare [of 7 "?s 7 True [7]" 7]
  have "par_reachable (uid_action 7) uid_init U_Idle 1 (?s 7 True [7], [U_Increment])" by fastforce
  from reach_step [OF this, of 0] uid_action.u_increment [of 7 "?s 7 True [7]"]
  have "par_reachable (uid_action 7) uid_init U_Idle 1 (?s 8 True [7], [U_Unlock 8])" by fastforce
  from reach_step [OF this, of 0] uid_action.u_unlock [of 7 "?s 8 True [7]" 8]
  show ?thesis by fastforce
qed

theorem now_uid_unique_witness: "sorted_wrt (>) [8, 7 :: u64] \<and> distinct [8, 7 :: u64]"
  using now_uid_unique [OF demo_uid] by simp

end
