(* ===== verification/Codec.thy ===== *)
theory Codec
  imports Prelude
begin

unbundle bit_operations_syntax

text \<open>
  The URL escapes and the 64-character encoding of \<open>os_api.c\<close>, with the wrappers of \<open>strutil.cpp\<close> that
  choose the sizes. A string is the list of its bytes up to the terminator, which is there to be
  read. A result is the list of the bytes before the terminator that is written at the end, which
  needs a destination of at least one byte (\<open>None\<close> otherwise).
\<close>

section \<open>Characters\<close>

definition char_isdigit :: "byte \<Rightarrow> bool" where
  "char_isdigit c \<longleftrightarrow> 0x30 \<le> c \<and> c \<le> 0x39"

definition char_isxdigit :: "byte \<Rightarrow> bool" where
  "char_isxdigit c \<longleftrightarrow> char_isdigit c \<or> 0x41 \<le> c \<and> c \<le> 0x46 \<or> 0x61 \<le> c \<and> c \<le> 0x66"

definition char_isalnum :: "byte \<Rightarrow> bool" where
  "char_isalnum c \<longleftrightarrow> char_isdigit c \<or> 0x41 \<le> c \<and> c \<le> 0x5A \<or> 0x61 \<le> c \<and> c \<le> 0x7A"

definition char_tolower :: "byte \<Rightarrow> byte" where
  "char_tolower c = (if 0x41 \<le> c \<and> c \<le> 0x5A then c + 0x20 else c)"

text \<open>The byte at a position; the terminator behind the last one.\<close>

definition str_at :: "byte list \<Rightarrow> nat \<Rightarrow> byte" where
  "str_at s i = (if i < length s then s ! i else 0)"

definition str_len :: "byte list \<Rightarrow> nat" where
  "str_len s = length (takeWhile (\<lambda>c. c \<noteq> 0) s)"

text \<open>A \<open>size_t\<close> passed for an \<open>int\<close>.\<close>

definition to_int :: "int \<Rightarrow> int" where
  "to_int n = (n + 2 ^ 31) mod 2 ^ 32 - 2 ^ 31"

section \<open>URL escapes\<close>

definition HEXTOI :: "byte \<Rightarrow> byte" where
  "HEXTOI x = (if char_isdigit x then x - 0x30 else x - 0x57)"

function url_decode_loop :: "byte list \<Rightarrow> nat \<Rightarrow> nat \<Rightarrow> bool \<Rightarrow> nat \<Rightarrow> nat \<Rightarrow> byte list" where
  "url_decode_loop src src_len lim form i j =
     (if i < src_len \<and> j < lim
      then (if str_at src i = 0x25 \<and> char_isxdigit (str_at src (i + 1)) \<and> char_isxdigit (str_at src (i + 2))
            then (let a = char_tolower (str_at src (i + 1)); b = char_tolower (str_at src (i + 2))
                  in (push_bit 4 (HEXTOI a) OR HEXTOI b) # url_decode_loop src src_len lim form (i + 3) (j + 1))
            else (if form \<and> str_at src i = 0x2B then 0x20 else str_at src i)
                 # url_decode_loop src src_len lim form (i + 1) (j + 1))
      else [])"
  by pat_completeness auto
termination by (relation "measure (\<lambda>(src, src_len, lim, form, i, j). src_len - i)") auto

declare url_decode_loop.simps [simp del]

definition g_url_decode :: "byte list \<Rightarrow> int \<Rightarrow> int \<Rightarrow> bool \<Rightarrow> byte list option" where
  "g_url_decode src src_len dst_len form =
     (if dst_len < 1 then None
      else (let src_len = (if src_len \<le> 0 then to_int (int (str_len src)) else src_len)
            in Some (url_decode_loop src (nat src_len) (nat (dst_len - 1)) form 0 0)))"

definition dont_escape :: "byte list" where
  "dont_escape = [0x2E, 0x5F, 0x2D, 0x24, 0x2C, 0x3B, 0x7E, 0x28, 0x29]"

definition hex_digits :: "byte list" where
  "hex_digits = [0x30, 0x31, 0x32, 0x33, 0x34, 0x35, 0x36, 0x37, 0x38, 0x39, 0x61, 0x62, 0x63, 0x64, 0x65, 0x66]"

text \<open>
  The bytes of the destination from position \<open>d\<close> on; \<open>None\<close> is a byte that is passed over without
  being written, which happens where an escape does not fit.
\<close>

fun url_encode_loop :: "byte list \<Rightarrow> nat \<Rightarrow> nat \<Rightarrow> byte option list" where
  "url_encode_loop [] d end = []"
| "url_encode_loop (c # src) d end =
     (if c = 0 \<or> \<not> d < end then []
      else if char_isalnum c \<or> c \<in> set dont_escape then Some c # url_encode_loop src (d + 1) end
      else if d + 2 < end
        then [Some 0x25, Some (hex_digits ! unat (drop_bit 4 c)), Some (hex_digits ! unat (c AND 0xF))]
             @ url_encode_loop src (d + 3) end
      else None # url_encode_loop src (d + 1) end)"

definition g_url_encode :: "byte list \<Rightarrow> int \<Rightarrow> byte option list option" where
  "g_url_encode src dst_len = (if dst_len < 1 then None else Some (url_encode_loop src 0 (nat (dst_len - 1))))"

text \<open>
  The wrappers: a destination for all of a decoded string, and three bytes for each byte. Where
  the size does not fit an \<open>int\<close> and comes out below one, nothing is copied and the terminator goes
  into the first byte of the block, which is there: the result is empty.
\<close>

definition str_url_decode :: "byte list \<Rightarrow> bool \<Rightarrow> byte list option" where
  "str_url_decode url form =
     (let len = int (str_len url); dst_len = len + 1
      in if to_int dst_len < 1 then Some [] else g_url_decode url (to_int len) (to_int dst_len) form)"

definition str_url_encode :: "byte list \<Rightarrow> byte option list option" where
  "str_url_encode url =
     (let dst_len = 3 * int (str_len url) + 1
      in if to_int dst_len < 1 then Some [] else g_url_encode url (to_int dst_len))"

section \<open>The 64-character encoding\<close>

text \<open>The table has 224 of its 256 initialisers; the rest of the array is zero.\<close>

definition t256 :: "int list" where
  "t256 =
    [- 1, - 1, - 1, - 1, - 1, - 1, - 1, - 1, - 1, - 1, - 1, - 1, - 1, - 1, - 1, - 1,
     - 1, - 1, - 1, - 1, - 1, - 1, - 1, - 1, - 1, - 1, - 1, - 1, - 1, - 1, - 1, - 1,
     - 1, - 1, - 1, - 1, - 1, - 1, - 1, - 1, - 1, - 1, - 1, - 1, - 1, 62, 63, - 1,
     52, 53, 54, 55, 56, 57, 58, 59, 60, 61, - 1, - 1, - 1, - 1, - 1, - 1,
     - 1, 0, 1, 2, 3, 4, 5, 6, 7, 8, 9, 10, 11, 12, 13, 14,
     15, 16, 17, 18, 19, 20, 21, 22, 23, 24, 25, - 1, - 1, - 1, - 1, - 1,
     - 1, 26, 27, 28, 29, 30, 31, 32, 33, 34, 35, 36, 37, 38, 39, 40,
     41, 42, 43, 44, 45, 46, 47, 48, 49, 50, 51, - 1, - 1, - 1, - 1, - 1,
     - 1, - 1, - 1, - 1, - 1, - 1, - 1, - 1, - 1, - 1, - 1, - 1, - 1, - 1, - 1, - 1,
     - 1, - 1, - 1, - 1, - 1, - 1, - 1, - 1, - 1, - 1, - 1, - 1, - 1, - 1, - 1, - 1,
     - 1, - 1, - 1, - 1, - 1, - 1, - 1, - 1, - 1, - 1, - 1, - 1, - 1, - 1, - 1, - 1,
     - 1, - 1, - 1, - 1, - 1, - 1, - 1, - 1, - 1, - 1, - 1, - 1, - 1, - 1, - 1, - 1,
     - 1, - 1, - 1, - 1, - 1, - 1, - 1, - 1, - 1, - 1, - 1, - 1, - 1, - 1, - 1, - 1,
     - 1, - 1, - 1, - 1, - 1, - 1, - 1, - 1, - 1, - 1, - 1, - 1, - 1, - 1, - 1, - 1] @ replicate 32 0"

definition t64 :: "byte list" where
  "t64 =
    [0x41, 0x42, 0x43, 0x44, 0x45, 0x46, 0x47, 0x48, 0x49, 0x4A, 0x4B, 0x4C, 0x4D,
     0x4E, 0x4F, 0x50, 0x51, 0x52, 0x53, 0x54, 0x55, 0x56, 0x57, 0x58, 0x59, 0x5A,
     0x61, 0x62, 0x63, 0x64, 0x65, 0x66, 0x67, 0x68, 0x69, 0x6A, 0x6B, 0x6C, 0x6D,
     0x6E, 0x6F, 0x70, 0x71, 0x72, 0x73, 0x74, 0x75, 0x76, 0x77, 0x78, 0x79, 0x7A,
     0x30, 0x31, 0x32, 0x33, 0x34, 0x35, 0x36, 0x37, 0x38, 0x39, 0x2D, 0x2E]"

text \<open>
  One group: up to four characters to up to three bytes (\<open>None\<close> is \<open>-1\<close>), up to three bytes to up to
  four characters. \<open>room\<close> is what is left of the destination.
\<close>

definition b64_decode :: "byte list \<Rightarrow> nat \<Rightarrow> byte list option" where
  "b64_decode src room =
     (let v = map (\<lambda>c. t256 ! unat c) src in
      if - 1 \<in> set v then None
      else (let p = map of_int v @ replicate (4 - length v) 0 :: byte list;
                dst = [push_bit 2 (p ! 0) OR drop_bit 4 (p ! 1),
                       (push_bit 4 (p ! 1) AND 0xF0) OR drop_bit 2 (p ! 2),
                       (push_bit 6 (p ! 2) AND 0xC0) OR p ! 3];
                cnt = min 3 room;
                src_len = (if length src = 4 then 3 else length src)
            in Some (take (if cnt < src_len then cnt else src_len) dst)))"

function b64_decode_loop :: "byte list \<Rightarrow> nat \<Rightarrow> byte list option" where
  "b64_decode_loop src room =
     (if src \<noteq> [] \<and> 0 < room
      then (case b64_decode (take 4 src) room of
              None \<Rightarrow> None
            | Some [] \<Rightarrow> None
            | Some (b # bs) \<Rightarrow> map_option (\<lambda>rest. (b # bs) @ rest)
                                (b64_decode_loop (drop 4 src) (room - length (b # bs))))
      else Some [])"
  by pat_completeness auto
termination by (relation "measure (\<lambda>(src, room). length src)") auto

declare b64_decode_loop.simps [simp del]

text \<open>\<open>None\<close> is the answer \<open>-1\<close>; \<open>src\<close> holds the \<open>src_len\<close> characters or the string.\<close>

definition g_b64_decode :: "byte list \<Rightarrow> int \<Rightarrow> int \<Rightarrow> byte list option" where
  "g_b64_decode src src_len dst_len =
     (let n = (if src_len \<le> 0 then to_int (int (str_len src)) else src_len)
      in b64_decode_loop (take (nat n) src) (nat dst_len))"

definition b64_encode :: "byte list \<Rightarrow> nat \<Rightarrow> byte list" where
  "b64_encode src room =
     (let s = src @ replicate (3 - length src) 0;
          dst = [t64 ! unat (drop_bit 2 (s ! 0)),
                 t64 ! unat (push_bit 4 (s ! 0 AND 0x03) OR drop_bit 4 (s ! 1)),
                 t64 ! unat (push_bit 2 (s ! 1 AND 0x0F) OR drop_bit 6 (s ! 2)),
                 t64 ! unat (s ! 2 AND 0x3F)];
          cnt = min 4 room;
          src_len = length src + 1
      in take (if cnt < src_len then cnt else src_len) dst)"

function b64_encode_loop :: "byte list \<Rightarrow> nat \<Rightarrow> byte list" where
  "b64_encode_loop src room =
     (if src \<noteq> [] \<and> 0 < room
      then (let dst = b64_encode (take 3 src) room in dst @ b64_encode_loop (drop 3 src) (room - length dst))
      else [])"
  by pat_completeness auto
termination by (relation "measure (\<lambda>(src, room). length src)") auto

declare b64_encode_loop.simps [simp del]

definition g_b64_encode :: "byte list \<Rightarrow> int \<Rightarrow> int \<Rightarrow> byte list option" where
  "g_b64_encode src src_len dst_len =
     (if dst_len < 1 then None else Some (b64_encode_loop (take (nat src_len) src) (nat (dst_len - 1))))"

text \<open>The wrappers: a failed decoding gives the empty string; sizes beyond an \<open>int\<close> as above.\<close>

definition str_b64_decode :: "byte list \<Rightarrow> nat \<Rightarrow> byte list" where
  "str_b64_decode url len =
     (let siz = (if len > 0 then int len else int (str_len url)); dst_len = siz + 1
      in case g_b64_decode url (to_int siz) (to_int dst_len) of None \<Rightarrow> [] | Some dst \<Rightarrow> dst)"

definition str_b64_encode :: "byte list \<Rightarrow> byte list option" where
  "str_b64_encode src =
     (let len = int (length src); dst_len = (4 * len + 2) div 3 + 1
      in if to_int dst_len < 1 then Some [] else g_b64_encode src (to_int len) (to_int dst_len))"

section \<open>Lemmas\<close>

lemma to_int_small [simp]: "0 \<le> n \<Longrightarrow> n < 2 ^ 31 \<Longrightarrow> to_int n = n"
  by (simp add: to_int_def)

definition url_escape :: "byte \<Rightarrow> byte list" where
  "url_escape c = (if char_isalnum c \<or> c \<in> set dont_escape then [c]
     else [0x25, hex_digits ! unat (drop_bit 4 c), hex_digits ! unat (c AND 0xF)])"

lemma url_encode_loop_room:
  "0 \<notin> set src \<Longrightarrow> d + 3 * length src \<le> end \<Longrightarrow>
     url_encode_loop src d end = map Some (concat (map url_escape src))"
  by (induction src arbitrary: d) (auto simp: url_escape_def)

lemma hex_digit:
  assumes "k < 16"
  shows "char_isxdigit (hex_digits ! k)" "HEXTOI (char_tolower (hex_digits ! k)) = of_nat k"
proof -
  have "\<forall>k \<in> set [0..<16]. char_isxdigit (hex_digits ! k) \<and> HEXTOI (char_tolower (hex_digits ! k)) = of_nat k"
    by code_simp
  then show "char_isxdigit (hex_digits ! k)" "HEXTOI (char_tolower (hex_digits ! k)) = of_nat k"
    using assms by auto
qed

lemma byte_eqI:
  assumes "bit a 0 = bit b 0" "bit a 1 = bit b 1" "bit a 2 = bit b 2" "bit a 3 = bit b 3"
    and "bit a 4 = bit b 4" "bit a 5 = bit b 5" "bit a 6 = bit b 6" "bit a 7 = bit b 7"
  shows "a = (b :: byte)"
proof (rule bit_word_eqI)
  fix n assume "n < LENGTH(8)"
  then have "n = 0 \<or> n = 1 \<or> n = 2 \<or> n = 3 \<or> n = 4 \<or> n = 5 \<or> n = 6 \<or> n = 7" by auto
  then show "bit a n = bit b n" using assms by blast
qed

lemma nibbles: "push_bit 4 (drop_bit 4 c) OR (c AND 0xF) = (c :: byte)"
proof -
  have "(0xF :: byte) = mask 4" by (simp add: mask_eq_exp_minus_1)
  then show ?thesis unfolding \<open>0xF = mask 4\<close> by (intro byte_eqI) (simp_all add: bit_simps)
qed

lemma nibble_bounds: "unat (drop_bit 4 (c :: byte)) < 16" "unat (c AND 0xF) < 16"
proof -
  show "unat (drop_bit 4 c) < 16"
  proof -
    have "unat c < 2 ^ LENGTH(8)" by (rule unsigned_less)
    then show ?thesis unfolding unat_drop_bit_eq by (simp add: drop_bit_eq_div)
  qed
  have "c AND 0xF \<le> 0xF" by (rule word_and_le1)
  then show "unat (c AND 0xF) < 16" by (simp add: word_le_nat_alt)
qed

lemma plain_char:
  assumes "char_isalnum c \<or> c \<in> set dont_escape"
  shows "c \<noteq> 0x25" "c \<noteq> 0x2B"
  using assms by (auto simp: char_isalnum_def char_isdigit_def dont_escape_def)

lemma str_at_drop: "drop i s = c # cs \<Longrightarrow> str_at s i = c" "drop i s = c # cs \<Longrightarrow> drop (i + 1) s = cs"
  "drop i s = c # cs \<Longrightarrow> i < length s"
proof -
  assume a: "drop i s = c # cs"
  then show i: "i < length s" by (metis drop_all list.discI not_le)
  then show "str_at s i = c" "drop (i + 1) s = cs"
    using a by (simp_all add: str_at_def flip: Cons_nth_drop_Suc)
qed

lemma url_decode_escaped:
  "drop i s = concat (map url_escape src) \<Longrightarrow> j + length src \<le> lim \<Longrightarrow>
     url_decode_loop s (length s) lim form i j = src"
proof (induction src arbitrary: i j)
  case Nil
  then show ?case by (subst url_decode_loop.simps) simp
next
  case (Cons c src)
  show ?case
  proof (cases "char_isalnum c \<or> c \<in> set dont_escape")
    case True
    then have d: "drop i s = c # concat (map url_escape src)" using Cons.prems(1) by (simp add: url_escape_def [of c])
    have "url_decode_loop s (length s) lim form (i + 1) (j + 1) = src"
      using Cons.prems(2) by (intro Cons.IH [OF str_at_drop(2) [OF d]]) simp
    then show ?thesis using str_at_drop [OF d] plain_char [OF True] Cons.prems(2)
      by (subst url_decode_loop.simps) simp
  next
    case False
    let ?a = "hex_digits ! unat (drop_bit 4 c)" and ?b = "hex_digits ! unat (c AND 0xF)"
    have d: "drop i s = 0x25 # ?a # ?b # concat (map url_escape src)"
      using Cons.prems(1) False by (simp add: url_escape_def [of c])
    note d1 = str_at_drop(2) [OF d]
    note d2 = str_at_drop(2) [OF d1]
    have "url_decode_loop s (length s) lim form (i + 1 + 1 + 1) (j + 1) = src"
      using Cons.prems(2) by (intro Cons.IH [OF str_at_drop(2) [OF d2]]) simp
    then show ?thesis
      using str_at_drop(1,3) [OF d] str_at_drop(1) [OF d1] str_at_drop(1) [OF d2] Cons.prems(2)
        hex_digit [OF nibble_bounds(1)] hex_digit [OF nibble_bounds(2)] nibbles [of c]
      by (subst url_decode_loop.simps) (simp add: eval_nat_numeral)
  qed
qed

lemma str_len_no_zero: "0 \<notin> set s \<Longrightarrow> str_len s = length s"
proof -
  assume "0 \<notin> set s"
  then have "takeWhile (\<lambda>c. c \<noteq> 0) s = s" by (subst takeWhile_eq_all_conv) auto
  then show ?thesis unfolding str_len_def by (rule arg_cong)
qed

lemma url_escape_no_zero: "0 \<notin> set src \<Longrightarrow> 0 \<notin> set (concat (map url_escape src))"
proof -
  have "hex_digits ! k \<noteq> 0" if "k < 16" for k
    using hex_digit(1) [OF that] by (auto simp: char_isxdigit_def char_isdigit_def)
  then show "0 \<notin> set src \<Longrightarrow> ?thesis" using nibble_bounds by (auto simp: url_escape_def split: if_splits)
qed

lemma t256_t64: "k < 64 \<Longrightarrow> t256 ! unat (t64 ! k) = int k"
proof -
  have "\<forall>k \<in> set [0..<64]. t256 ! unat (t64 ! k) = int k" by code_simp
  then show "k < 64 \<Longrightarrow> ?thesis" by auto
qed

text \<open>The four six-bit values of a group, and the bytes put together from them.\<close>

lemma b64_pieces:
  fixes a b c :: byte
  shows "push_bit 2 (drop_bit 2 a) OR drop_bit 4 (push_bit 4 (a AND 0x03) OR drop_bit 4 b) = a"
    and "(push_bit 4 (push_bit 4 (a AND 0x03) OR drop_bit 4 b) AND 0xF0)
           OR drop_bit 2 (push_bit 2 (b AND 0x0F) OR drop_bit 6 c) = b"
    and "(push_bit 6 (push_bit 2 (b AND 0x0F) OR drop_bit 6 c) AND 0xC0) OR c AND 0x3F = c"
proof -
  have m: "(0x03 :: byte) = mask 2" "(0x0F :: byte) = mask 4" "(0x3F :: byte) = mask 6"
    "(0xF0 :: byte) = push_bit 4 (mask 4)" "(0xC0 :: byte) = push_bit 6 (mask 2)"
    by (simp_all add: mask_eq_exp_minus_1)
  show "push_bit 2 (drop_bit 2 a) OR drop_bit 4 (push_bit 4 (a AND 0x03) OR drop_bit 4 b) = a"
    unfolding m by (intro byte_eqI) (simp_all add: bit_simps)
  show "(push_bit 4 (push_bit 4 (a AND 0x03) OR drop_bit 4 b) AND 0xF0)
           OR drop_bit 2 (push_bit 2 (b AND 0x0F) OR drop_bit 6 c) = b"
    unfolding m by (intro byte_eqI) (simp_all add: bit_simps)
  show "(push_bit 6 (push_bit 2 (b AND 0x0F) OR drop_bit 6 c) AND 0xC0) OR c AND 0x3F = c"
    unfolding m by (intro byte_eqI) (simp_all add: bit_simps)
qed

lemma b64_values:
  fixes a b c :: byte
  shows "unat (drop_bit 2 a) < 64" "unat (push_bit 4 (a AND 0x03) OR drop_bit 4 b) < 64"
    "unat (push_bit 2 (b AND 0x0F) OR drop_bit 6 c) < 64" "unat (c AND 0x3F) < 64"
proof -
  have m: "(0x03 :: byte) = mask 2" "(0x0F :: byte) = mask 4" "(0x3F :: byte) = mask 6"
    by (simp_all add: mask_eq_exp_minus_1)
  have small: "unat w < 64" if "w AND mask 6 = w" for w :: byte
  proof -
    have "unat w = take_bit 6 (unat w)" using that by (metis take_bit_eq_mask unsigned_take_bit_eq)
    then show ?thesis using take_bit_nat_less_exp [of 6 "unat w"] by simp
  qed
  show "unat (drop_bit 2 a) < 64" by (intro small byte_eqI) (auto simp: bit_simps dest: bit_imp_le_length)
  show "unat (push_bit 4 (a AND 0x03) OR drop_bit 4 b) < 64"
    unfolding m by (intro small byte_eqI) (auto simp: bit_simps dest: bit_imp_le_length)
  show "unat (push_bit 2 (b AND 0x0F) OR drop_bit 6 c) < 64"
    unfolding m by (intro small byte_eqI) (auto simp: bit_simps dest: bit_imp_le_length)
  show "unat (c AND 0x3F) < 64" unfolding m by (intro small byte_eqI) (simp_all add: bit_simps)
qed

definition b64_chars :: "byte \<Rightarrow> byte \<Rightarrow> byte \<Rightarrow> byte list" where
  "b64_chars s0 s1 s2 =
     [drop_bit 2 s0, push_bit 4 (s0 AND 0x03) OR drop_bit 4 s1, push_bit 2 (s1 AND 0x0F) OR drop_bit 6 s2, s2 AND 0x3F]"

lemma b64_list_cases:
  assumes "src \<noteq> []" "length src \<le> 3"
  obtains a where "src = [a]" | a b where "src = [a, b]" | a b c where "src = [a, b, c]"
  using assms by (auto simp: neq_Nil_conv le_Suc_eq length_Suc_conv numeral_3_eq_3)

lemma b64_encode_chars:
  assumes "src \<noteq> []" "length src \<le> 3" "length src < room"
  shows "b64_encode src room = take (length src + 1)
    (map (\<lambda>v. t64 ! unat v) (b64_chars (src ! 0) (if length src < 2 then 0 else src ! 1) (if length src < 3 then 0 else src ! 2)))"
  using assms(3) by (cases rule: b64_list_cases [OF assms(1,2)]) (simp_all add: b64_encode_def b64_chars_def min_def)

lemma b64_decode_values:
  assumes "\<forall>v \<in> set vs. unat v < 64" "1 < length vs" "length vs \<le> 4" "min 3 (length vs) \<le> room"
  shows "b64_decode (map (\<lambda>v. t64 ! unat v) vs) room =
    (let p = vs @ replicate (4 - length vs) 0
     in Some (take (min 3 (length vs))
       [push_bit 2 (p ! 0) OR drop_bit 4 (p ! 1), (push_bit 4 (p ! 1) AND 0xF0) OR drop_bit 2 (p ! 2),
        (push_bit 6 (p ! 2) AND 0xC0) OR p ! 3]))"
proof -
  have v: "map (\<lambda>c. t256 ! unat c) (map (\<lambda>v. t64 ! unat v) vs) = map (\<lambda>v. int (unat v)) vs"
    using assms(1) by (simp add: t256_t64)
  have a: "(- 1 \<in> set (map (\<lambda>v. int (unat v)) vs)) = False"
  proof -
    have "int (unat v) \<noteq> - 1" for v :: byte by linarith
    then show ?thesis unfolding set_map by (metis imageE)
  qed
  have b: "map of_int (map (\<lambda>v. int (unat v)) vs) = vs" by (simp add: comp_def)
  have c: "(if min 3 room < (if length vs = 4 then 3 else length vs) then min 3 room
      else if length vs = 4 then 3 else length vs) = min 3 (length vs)"
    using assms(3,4) by auto
  show ?thesis unfolding b64_decode_def Let_def v length_map a b c if_False ..
qed

lemma b64_group:
  assumes "src \<noteq> []" "length src \<le> 3" "length src < room"
  shows "length (b64_encode src room) = length src + 1"
    and "length src < room' \<Longrightarrow>
      b64_decode (b64_encode src room) room' = Some (src @ (if length src = 3 then [] else [0]))"
proof -
  show "length (b64_encode src room) = length src + 1"
    using assms by (simp add: b64_encode_chars b64_chars_def)
  assume r: "length src < room'"
  show "b64_decode (b64_encode src room) room' = Some (src @ (if length src = 3 then [] else [0]))"
  proof (cases rule: b64_list_cases [OF assms(1,2)])
    case (1 a)
    then have "b64_encode src room = map (\<lambda>v. t64 ! unat v) (take 2 (b64_chars a 0 0))"
      using assms by (simp add: b64_encode_chars take_map numeral_2_eq_2 numeral_3_eq_3)
    then show ?thesis
      using b64_pieces(1) [of a 0] b64_pieces(2) [of a 0 0] b64_pieces(3) [of 0 0]
        b64_values(1) [of a] b64_values(2) [of a 0] b64_values(3) [of 0 0] b64_values(4) [of 0] r 1 by (simp add: b64_decode_values b64_chars_def del: list.map)
  next
    case (2 a b)
    then have "b64_encode src room = map (\<lambda>v. t64 ! unat v) (take 3 (b64_chars a b 0))"
      using assms by (simp add: b64_encode_chars take_map numeral_2_eq_2 numeral_3_eq_3)
    then show ?thesis
      using b64_pieces(1) [of a b] b64_pieces(2) [of a b 0] b64_pieces(3) [of b 0]
        b64_values(1) [of a] b64_values(2) [of a b] b64_values(3) [of b 0] b64_values(4) [of 0] r 2 by (simp add: b64_decode_values b64_chars_def del: list.map)
  next
    case (3 a b c)
    then have "b64_encode src room = map (\<lambda>v. t64 ! unat v) (b64_chars a b c)"
      using assms by (simp add: b64_encode_chars b64_chars_def)
    then show ?thesis
      using b64_pieces(1) [of a b] b64_pieces(2) [of a b c] b64_pieces(3) [of b c]
        b64_values(1) [of a] b64_values(2) [of a b] b64_values(3) [of b c] b64_values(4) [of c] r 3 by (simp add: b64_decode_values b64_chars_def del: list.map)
  qed
qed

text \<open>The whole loops: the exact size of an encoding, and its decoding.\<close>

lemma b64_room: "0 < n \<Longrightarrow> (4 * n + 2) div 3 \<le> room \<Longrightarrow> min n 3 < (room :: nat)"
  unfolding min_def by presburger

lemma b64_size_split: "0 < n \<Longrightarrow> min 3 n + 1 + (4 * (n - 3) + 2) div 3 = (4 * n + 2) div (3 :: nat)"
proof (cases "3 \<le> n")
  case True
  then obtain m where m: "n = 3 + m" by (blast dest: le_Suc_ex)
  have "(4 * n + 2) div 3 = ((4 * m + 2) + 4 * 3) div 3" by (rule arg_cong [where f = "\<lambda>k. k div 3"]) (simp add: m)
  also have "\<dots> = (4 * m + 2) div 3 + 4" by (subst div_mult_self1) simp_all
  finally show ?thesis using m by (simp only: min_def) simp
next
  case False
  moreover assume "0 < n"
  ultimately have "n = 1 \<or> n = 2" by linarith
  then show ?thesis by (elim disjE) simp_all
qed

lemma b64_encode_loop_length:
  "(4 * length src + 2) div 3 \<le> room \<Longrightarrow> length (b64_encode_loop src room) = (4 * length src + 2) div 3"
proof (induction src room rule: b64_encode_loop.induct)
  case (1 src room)
  show ?case
  proof (cases "src = []")
    case True
    then show ?thesis by (subst b64_encode_loop.simps) simp
  next
    case False
    let ?e = "b64_encode (take 3 src) room"
    have n: "0 < length src" using False by simp
    have room: "length (take 3 src) < room" using b64_room [OF n 1(2)] by simp
    have e: "length ?e = min 3 (length src) + 1"
      using b64_group(1) [OF _ _ room] False by (simp add: min.commute)
    have split: "min 3 (length src) + 1 + (4 * (length src - 3) + 2) div 3 = (4 * length src + 2) div 3"
      by (rule b64_size_split [OF n])
    have IH: "length (b64_encode_loop (drop 3 src) (room - length ?e)) = (4 * (length src - 3) + 2) div 3"
      using 1(1) [of ?e] False room add_le_imp_le_diff [of _ "length ?e" room] 1(2) split e
      by (simp add: add.commute)
    show ?thesis using False room IH e split by (subst b64_encode_loop.simps) simp
  qed
qed

lemma b64_decode_encoded:
  "(4 * length src + 2) div 3 \<le> room \<Longrightarrow> (4 * length src + 2) div 3 < room' \<Longrightarrow>
     b64_decode_loop (b64_encode_loop src room) room' = Some (src @ (if 3 dvd length src then [] else [0]))"
proof (induction src room arbitrary: room' rule: b64_encode_loop.induct)
  case (1 src room)
  show ?case
  proof (cases "src = []")
    case True
    then show ?thesis by (subst b64_encode_loop.simps, subst b64_decode_loop.simps) simp
  next
    case False
    let ?s = "take 3 src"
    let ?e = "b64_encode ?s room"
    let ?rest = "b64_encode_loop (drop 3 src) (room - length ?e)"
    have n: "0 < length src" using False by simp
    have s: "?s \<noteq> []" "length ?s \<le> 3" using False by simp_all
    have room: "length ?s < room" "length ?s < room'"
      using b64_room [OF n 1(2)] b64_room [OF n less_imp_le [OF 1(3)]] by simp_all
    have e: "length ?e = length ?s + 1" by (rule b64_group(1) [OF s room(1)])
    have unfold: "b64_encode_loop src room = ?e @ ?rest"
      using False room by (subst b64_encode_loop.simps) simp
    show ?thesis
    proof (cases "3 \<le> length src")
      case True
      then have e4: "length ?e = 4" and s3: "length ?s = 3" using e by simp_all
      have "b64_decode ?e room' = Some ?s" using b64_group(2) [OF s room] s3 by simp
      moreover obtain b bs where bs: "?s = b # bs" using s(1) by (cases ?s) auto
      moreover have "b64_decode_loop ?rest (room' - 3) = Some (drop 3 src @ (if 3 dvd length (drop 3 src) then [] else [0]))"
        using 1(1) [of ?e "room' - 3"] False room 1(2,3) e4 True by simp
      moreover have "3 dvd length (drop 3 src) \<longleftrightarrow> 3 dvd length src"
        using True by (simp add: dvd_diff_nat dvd_minus_self)
      moreover have "?s @ drop 3 src @ xs = src @ xs" for xs by (metis append.assoc append_take_drop_id)
      ultimately show ?thesis
        unfolding unfold using e4 s3 room by (subst b64_decode_loop.simps) (auto simp: bs simp del: take_eq_Nil)
    next
      case short: False
      then have "?rest = []" by (subst b64_encode_loop.simps) simp
      moreover have "?s = src" using short by simp
      moreover have "\<not> 3 dvd length src" using short n by (auto dest: dvd_imp_le)
      moreover have "b64_decode ?e room' = Some (src @ [0])" using b64_group(2) [OF s room] short by simp
      moreover obtain b bs where "src @ [0] = b # bs" by (cases "src @ [0 :: byte]") auto
      moreover have "length ?e \<le> 4" "?e \<noteq> []" using e s by auto
      moreover have "b64_decode_loop [] k = Some []" for k by (subst b64_decode_loop.simps) simp
      ultimately show ?thesis
        unfolding unfold using room by (subst b64_decode_loop.simps) auto
    qed
  qed
qed

text \<open>The missing initialisers: the bytes from \<open>0xE0\<close> on are read as the letter A.\<close>

lemma b64_high_bytes:
  "b64_decode_loop (map (\<lambda>c. if 0xE0 \<le> c then 0x41 else c) src) room = b64_decode_loop src room"
proof (induction src room rule: b64_decode_loop.induct)
  case (1 src room)
  let ?f = "\<lambda>c :: byte. if 0xE0 \<le> c then 0x41 else c"
  have "t256 ! unat (?f c) = t256 ! unat c" for c
  proof (cases "0xE0 \<le> c")
    case True
    have "unat c < 2 ^ LENGTH(8)" by (rule unsigned_less)
    moreover have "224 \<le> unat c" using True by (simp add: word_le_nat_alt)
    ultimately have "unat c \<in> set [224..<256]" unfolding set_upt by simp
    moreover have "\<forall>k \<in> set [224..<256]. t256 ! k = t256 ! 0x41" by code_simp
    ultimately have "t256 ! unat c = t256 ! 0x41" by (rule bspec [rotated])
    then show ?thesis using True by simp
  qed simp
  then have group: "b64_decode (map ?f xs) room = b64_decode xs room" for xs
    by (simp add: b64_decode_def comp_def)
  show ?case
    using 1 by (subst (1 2) b64_decode_loop.simps) (auto simp: take_map drop_map group split: option.splits list.splits)
qed

section \<open>Properties\<close>

text \<open>C18. Decoding an escaped URL gives the string back, in both modes, for every string of non-zero
  bytes whose escaped size \<open>3 * length + 1\<close> fits an \<open>int\<close>; the destinations the wrappers choose
  have room for all of it.\<close>

theorem url_roundtrip:
  assumes "0 \<notin> set url" and "3 * length url + 1 < 2 ^ 31"
  shows "\<exists>enc. str_url_encode url = Some (map Some enc) \<and> str_url_decode enc form = Some url"
proof -
  let ?enc = "concat (map url_escape url)"
  have enc: "str_url_encode url = Some (map Some ?enc)"
    using url_encode_loop_room [OF assms(1), of 0 "3 * length url"] assms(2)
    by (simp add: str_url_encode_def g_url_encode_def str_len_no_zero [OF assms(1)] nat_mult_distrib)
  have z: "str_len ?enc = length ?enc" by (rule str_len_no_zero [OF url_escape_no_zero [OF assms(1)]])
  have len: "length url \<le> length ?enc" "length ?enc \<le> 3 * length url"
    by (induction url) (auto simp: url_escape_def)
  then have "to_int (int (length ?enc)) = int (length ?enc)"
    "to_int (int (length ?enc) + 1) = int (length ?enc) + 1" using assms(2) by simp_all
  then have "str_url_decode ?enc form = Some url"
    using url_decode_escaped [of 0 ?enc url 0 "length ?enc" form] len(1)
    by (simp add: str_url_decode_def g_url_decode_def z)
  then show ?thesis using enc by blast
qed

theorem url_roundtrip_witness:
  "\<exists>enc. str_url_encode [0x61, 0x20, 0x2B, 0xE4] = Some (map Some enc) \<and>
     str_url_decode enc True = Some [0x61, 0x20, 0x2B, 0xE4]"
  by (rule url_roundtrip) simp_all

text \<open>A longer string is lost: the size becomes a negative \<open>int\<close> and the result is empty.\<close>

lemma url_encode_too_long:
  assumes "2 ^ 31 \<le> 3 * int (str_len url) + 1" "3 * int (str_len url) + 1 < 2 ^ 32"
  shows "str_url_encode url = Some []"
proof -
  let ?n = "3 * int (str_len url) + 1"
  have "(?n + 2 ^ 31) mod 2 ^ 32 = (?n - 2 ^ 31) mod 2 ^ 32"
    by (simp add: mod_eq_dvd_iff)
  also have "\<dots> = ?n - 2 ^ 31" using assms by simp
  finally have "to_int ?n = ?n - 2 ^ 32" by (simp add: to_int_def)
  then show ?thesis using assms(2) by (simp add: str_url_encode_def)
qed

text \<open>C19. Decoding an encoded block gives the block back only if its length is a multiple of three;
  otherwise the answer is the block and one zero byte more. This holds for the blocks whose encoded
  size \<open>(4 * length + 2) / 3 + 1\<close> fits an \<open>int\<close>.\<close>

theorem b64_roundtrip_pads:
  assumes "(4 * length src + 2) div 3 + 1 < 2 ^ 31"
  shows "\<exists>enc. str_b64_encode src = Some enc \<and>
     str_b64_decode enc (length enc) = src @ (if 3 dvd length src then [] else [0])"
proof -
  define n where "n = (4 * length src + 2) div 3"
  define enc where "enc = b64_encode_loop src n"
  have i: "(4 * int (length src) + 2) div 3 = int n" by (simp add: n_def zdiv_int)
  have small: "length src < 2 ^ 31" "n + 1 < 2 ^ 31" using assms by (simp_all add: n_def)
  then have int: "to_int (int n) = int n" "to_int (int n + 1) = int n + 1" by simp_all
  have e: "str_b64_encode src = Some enc"
    unfolding str_b64_encode_def Let_def i using int small(1) by (simp add: g_b64_encode_def enc_def)
  have len: "length enc = n" unfolding enc_def n_def by (rule b64_encode_loop_length) simp
  have "b64_decode_loop enc (nat (int n + 1)) = Some (src @ (if 3 dvd length src then [] else [0]))"
    unfolding enc_def by (rule b64_decode_encoded) (auto simp: n_def)
  moreover have "str_len enc = 0" if "n = 0" using len that by (simp add: str_len_def)
  ultimately have "str_b64_decode enc (length enc) = src @ (if 3 dvd length src then [] else [0])"
    using len int by (auto simp: str_b64_decode_def g_b64_decode_def)
  with e show ?thesis by blast
qed

theorem b64_roundtrip_pads_witness:
  "\<exists>enc. str_b64_encode [1, 2, 3, 4] = Some enc \<and>
     str_b64_decode enc (length enc) = [1, 2, 3, 4] @ (if 3 dvd length [1, 2, 3, 4 :: byte] then [] else [0])"
  by (rule b64_roundtrip_pads) simp

end
