(* ===== verification/Hash_Stream.thy ===== *)
theory Hash_Stream
  imports Endian
begin

unbundle bit_operations_syntax

text \<open>
  What the streaming hashes share: absorbing a message in blocks of 64 bytes with the rest kept in a
  buffer, the padding, the count of the bits in two words, and the contract of a streaming hash
  (\<open>hash_stream\<close>) with the consequence that the pieces of a message do not matter.
\<close>

section \<open>Blocks of 64 bytes\<close>

function absorb :: "('h \<Rightarrow> byte list \<Rightarrow> 'h) \<Rightarrow> 'h \<Rightarrow> byte list \<Rightarrow> 'h" where
  "absorb f h m = (if length m < 64 then h else absorb f (f h (take 64 m)) (drop 64 m))"
  by pat_completeness auto
termination by (relation "measure (\<lambda>(f, h, m). length m)") auto

declare absorb.simps [simp del]

lemma absorb_short: "length m < 64 \<Longrightarrow> absorb f h m = h"
  by (subst absorb.simps) simp

lemma absorb_block: "length b = 64 \<Longrightarrow> absorb f h (b @ m) = absorb f (f h b) m"
  by (subst absorb.simps) simp

text \<open>The bytes that do not fill a block.\<close>

definition left_over :: "byte list \<Rightarrow> byte list" where
  "left_over m = drop (length m - length m mod 64) m"

lemma length_left_over [simp]: "length (left_over m) = length m mod 64"
  by (simp add: left_over_def)

lemma left_over_short: "length m < 64 \<Longrightarrow> left_over m = m"
  by (simp add: left_over_def)

lemma left_over_block: "64 \<le> length m \<Longrightarrow> left_over (drop 64 m) = left_over m"
  by (simp add: left_over_def le_mod_geq)

lemma absorb_append: "absorb f h (m @ xs) = absorb f (absorb f h m) (left_over m @ xs)"
proof (induction f h m rule: absorb.induct)
  case (1 f h m)
  show ?case
  proof (cases "length m < 64")
    case True
    then show ?thesis by (simp add: absorb_short left_over_short)
  next
    case False
    then have "absorb f h (m @ xs) = absorb f (f h (take 64 m)) (drop 64 m @ xs)"
      by (subst absorb.simps) simp
    moreover have "absorb f h m = absorb f (f h (take 64 m)) (drop 64 m)"
      using False by (subst absorb.simps) simp
    ultimately show ?thesis using 1 False by (simp add: left_over_block)
  qed
qed

lemma left_over_append: "left_over (m @ xs) = left_over (left_over m @ xs)"
proof -
  let ?k = "length m - length m mod 64"
  have k: "?k mod 64 = 0" "?k \<le> length m" by (simp_all add: minus_mod_eq_mult_div)
  have "m = take ?k m @ left_over m" by (simp add: left_over_def)
  then have "left_over (m @ xs) = left_over (take ?k m @ left_over m @ xs)" by (metis append.assoc)
  moreover have "left_over (a @ b) = left_over b" if "length a mod 64 = 0" for a b
  proof -
    have "(length a + length b) mod 64 = length b mod 64" using that by (metis add_0 mod_add_left_eq)
    moreover have "length b mod 64 \<le> length b" by simp
    ultimately show ?thesis by (simp add: left_over_def)
  qed
  moreover have "length (take ?k m) mod 64 = 0" using k by simp
  ultimately show ?thesis by metis
qed

text \<open>The state of a streaming hash after the message \<open>m\<close>.\<close>

definition absorbed :: "('h \<Rightarrow> byte list \<Rightarrow> 'h) \<Rightarrow> 'h \<Rightarrow> byte list \<Rightarrow> 'h \<Rightarrow> byte list \<Rightarrow> bool" where
  "absorbed f h0 m h buf \<longleftrightarrow> h = absorb f h0 m \<and> length buf = 64 \<and> take (length m mod 64) buf = left_over m"

lemma absorbed_more:
  assumes "absorbed f h0 m h buf" "length m mod 64 + length xs < 64"
  shows "absorbed f h0 (m @ xs) h (take (length m mod 64) buf @ xs @ drop (length m mod 64 + length xs) buf)"
proof -
  let ?j = "length m mod 64"
  have "left_over (m @ xs) = left_over m @ xs"
    using assms(2) by (simp add: left_over_append [of m] left_over_short)
  moreover have "length (m @ xs) mod 64 = ?j + length xs"
  proof -
    have "length (m @ xs) mod 64 = (?j + length xs) mod 64" by (simp add: mod_add_left_eq)
    then show ?thesis using assms(2) by (simp only: mod_less)
  qed
  moreover have "absorb f h0 (m @ xs) = absorb f h0 m"
    using assms(2) by (subst absorb_append) (simp add: absorb_short)
  moreover have "take ?j buf = left_over m" "length buf = 64" using assms(1) by (simp_all add: absorbed_def)
  ultimately show ?thesis using assms(1) by (simp add: absorbed_def del: length_append) (use assms(2) in simp)
qed

text \<open>A full buffer is absorbed, then the blocks of the rest \<open>ys\<close>, whose own rest goes to the buffer.\<close>

lemma absorbed_full:
  assumes "absorbed f h0 m h buf" "length xs = 64 - length m mod 64" "length buf' = 64"
  shows "absorbed f h0 (m @ xs @ ys) (absorb f (f h (take (length m mod 64) buf @ xs)) ys)
           (left_over ys @ drop (length ys mod 64) buf')"
proof -
  have b: "take (length m mod 64) buf = left_over m" "h = absorb f h0 m" using assms(1) by (simp_all add: absorbed_def)
  have len: "length (left_over m @ xs) = 64" using assms(2) mod_less_divisor [of 64 "length m"] by simp
  have "absorb f h0 (m @ xs @ ys) = absorb f h ((left_over m @ xs) @ ys)" by (simp add: absorb_append [of f h0 m] b)
  also have "\<dots> = absorb f (f h (left_over m @ xs)) ys" by (rule absorb_block [OF len])
  finally have a: "absorb f h0 (m @ xs @ ys) = \<dots>" .
  have "left_over (m @ xs @ ys) = left_over ((left_over m @ xs) @ ys)" by (simp add: left_over_append [of m])
  also have "\<dots> = left_over ys"
    using left_over_block [of "(left_over m @ xs) @ ys"] len by simp
  finally have l: "left_over (m @ xs @ ys) = left_over ys" .
  then have "length (m @ xs @ ys) mod 64 = length ys mod 64" by (metis length_left_over)
  then show ?thesis using a b l assms(3) by (simp add: absorbed_def)
qed

text \<open>With no bytes in the buffer, the blocks of \<open>ys\<close> are absorbed at once.\<close>

lemma absorbed_aligned:
  assumes "absorbed f h0 m h buf" "length m mod 64 = 0" "length buf' = 64"
  shows "absorbed f h0 (m @ ys) (absorb f h ys) (left_over ys @ drop (length ys mod 64) buf')"
proof -
  have "left_over m = []" using assms(2) by (metis length_0_conv length_left_over)
  moreover have "length (m @ ys) mod 64 = length ys mod 64" using assms(2) by (metis add_0 length_append mod_add_left_eq)
  ultimately show ?thesis
    using assms(1,3) absorb_append [of f h0 m ys] left_over_append [of m ys] by (simp add: absorbed_def)
qed

section \<open>The count of bits\<close>

lemma bit_count_add:
  fixes n k :: nat
  shows "(8 * n mod 2 ^ 32 + 8 * k mod 2 ^ 32) mod 2 ^ 32 = 8 * (n + k) mod 2 ^ 32"
    and "8 * n div 2 ^ 32 + k div 2 ^ 29 + (if 8 * n mod 2 ^ 32 + 8 * k mod 2 ^ 32 < 2 ^ 32 then 0 else 1) =
         8 * (n + k) div 2 ^ 32"
proof -
  show "(8 * n mod 2 ^ 32 + 8 * k mod 2 ^ 32) mod 2 ^ 32 = 8 * (n + k) mod 2 ^ 32"
    by (simp add: mod_add_eq distrib_left)
  have k: "k div 2 ^ 29 = 8 * k div 2 ^ 32" by simp
  have "8 * (n + k) div 2 ^ 32 = 8 * n div 2 ^ 32 + 8 * k div 2 ^ 32 + (8 * n mod 2 ^ 32 + 8 * k mod 2 ^ 32) div 2 ^ 32"
    by (simp add: distrib_left div_add1_eq [of "8 * n" "8 * k"])
  moreover have "(8 * n mod 2 ^ 32 + 8 * k mod 2 ^ 32) div 2 ^ 32 =
      (if 8 * n mod 2 ^ 32 + 8 * k mod 2 ^ 32 < 2 ^ 32 then 0 else 1)"
  proof -
    have "8 * n mod 2 ^ 32 < 2 ^ 32" "8 * k mod 2 ^ 32 < 2 ^ 32" by simp_all
    then show ?thesis by (auto simp: div_if)
  qed
  ultimately show "8 * n div 2 ^ 32 + k div 2 ^ 29 + (if 8 * n mod 2 ^ 32 + 8 * k mod 2 ^ 32 < 2 ^ 32 then 0 else 1) =
         8 * (n + k) div 2 ^ 32"
    using k by simp
qed

text \<open>The two words of the count after a message of \<open>n\<close> bytes.\<close>

definition counts :: "nat \<Rightarrow> u32 \<Rightarrow> u32 \<Rightarrow> bool" where
  "counts n lo hi \<longleftrightarrow> lo = of_nat (8 * n) \<and> hi = of_nat (8 * n div 2 ^ 32)"

lemma counts_low: "counts n lo hi \<Longrightarrow> unat lo = 8 * n mod 2 ^ 32"
  unfolding counts_def by (simp only: unsigned_of_nat take_bit_eq_mod) simp

lemma counts_u64:
  assumes "counts n lo hi" "n < 2 ^ 61"
  shows "ucast (of_nat (8 * n) :: u64) = lo" "ucast (drop_bit 32 (of_nat (8 * n) :: u64)) = hi"
proof -
  have u: "unat (of_nat (8 * n) :: u64) = 8 * n"
    using assms(2) by (simp only: unsigned_of_nat) (simp add: take_bit_nat_eq_self)
  have c: "ucast w = (of_nat (unat w) :: u32)" for w :: u64 by (simp add: of_nat_unat)
  show "ucast (of_nat (8 * n) :: u64) = lo"
    using assms(1) unfolding c u by (simp only: counts_def)
  have "unat (drop_bit 32 (of_nat (8 * n) :: u64)) = 8 * n div 2 ^ 32"
    unfolding unat_drop_bit_eq u by (rule drop_bit_eq_div)
  then show "ucast (drop_bit 32 (of_nat (8 * n) :: u64)) = hi"
    using assms(1) unfolding c by (simp only: counts_def)
qed

text \<open>The sum of the low words is below a summand exactly when it wraps.\<close>

lemma word_add_less:
  fixes x y :: u32
  shows "x + y < x \<longleftrightarrow> 2 ^ 32 \<le> unat x + unat y" "x + y < y \<longleftrightarrow> 2 ^ 32 \<le> unat x + unat y"
proof -
  have b: "unat x < 2 ^ LENGTH(32)" "unat y < 2 ^ LENGTH(32)" by (rule unsigned_less)+
  have "unat (x + y) = (if unat x + unat y < 2 ^ 32 then unat x + unat y else unat x + unat y - 2 ^ 32)"
    by (simp add: unat_plus_if')
  then show "x + y < x \<longleftrightarrow> 2 ^ 32 \<le> unat x + unat y" "x + y < y \<longleftrightarrow> 2 ^ 32 \<le> unat x + unat y"
    using b by (auto simp: word_less_nat_alt)
qed

lemma count_words:
  assumes "k < 2 ^ 32"
  shows "push_bit 3 (of_nat k :: u32) = of_nat (8 * k)" "drop_bit 29 (of_nat k :: u32) = of_nat (k div 2 ^ 29)"
proof -
  show "push_bit 3 (of_nat k :: u32) = of_nat (8 * k)" by (simp add: push_bit_eq_mult)
  have "unat (of_nat k :: u32) = k" using assms by (simp add: unat_of_nat take_bit_eq_mod)
  then have "unat (drop_bit 29 (of_nat k :: u32)) = k div 2 ^ 29" unfolding unat_drop_bit_eq by (simp only: drop_bit_eq_div)
  then show "drop_bit 29 (of_nat k :: u32) = of_nat (k div 2 ^ 29)" by (metis of_nat_unat ucast_id)
qed

lemma counts_add:
  fixes lo hi :: u32
  assumes "counts n lo hi" "k < 2 ^ 32" "len = of_nat k"
  shows "counts (n + k) (lo + push_bit 3 len) ((if lo + push_bit 3 len < lo then hi + 1 else hi) + drop_bit 29 len)"
    and "counts (n + k) (lo + push_bit 3 len)
      (if lo + push_bit 3 len < push_bit 3 len then hi + drop_bit 29 len + 1 else hi + drop_bit 29 len)"
proof -
  let ?y = "push_bit 3 len"
  have y: "?y = of_nat (8 * k)" and hi: "drop_bit 29 len = of_nat (k div 2 ^ 29)"
    unfolding assms(3) by (rule count_words [OF assms(2)])+
  have u: "unat lo = 8 * n mod 2 ^ 32" "unat ?y = 8 * k mod 2 ^ 32"
    unfolding y counts_low [OF assms(1)] by (simp_all only: unsigned_of_nat take_bit_eq_mod) simp
  have lo: "lo + ?y = of_nat (8 * (n + k))" using assms(1) y by (simp add: counts_def distrib_left)
  have c: "hi + of_nat (k div 2 ^ 29) + (if unat lo + unat ?y < 2 ^ 32 then 0 else 1) = of_nat (8 * (n + k) div 2 ^ 32)"
    using assms(1) bit_count_add(2) [of n k, symmetric] unfolding u by (simp add: counts_def)
  have w: "(lo + ?y < lo) = (\<not> unat lo + unat ?y < 2 ^ 32)" "(lo + ?y < ?y) = (\<not> unat lo + unat ?y < 2 ^ 32)"
    by (simp_all only: word_add_less not_less)
  show "counts (n + k) (lo + ?y) ((if lo + ?y < lo then hi + 1 else hi) + drop_bit 29 len)"
    "counts (n + k) (lo + ?y) (if lo + ?y < ?y then hi + drop_bit 29 len + 1 else hi + drop_bit 29 len)"
    unfolding counts_def w hi c [symmetric] using lo
    by (cases "unat lo + unat ?y < 2 ^ 32"; simp add: algebra_simps)+
qed

lemma counts_position:
  assumes "counts n lo hi"
  shows "unat (drop_bit 3 lo AND 63) = n mod 64"
proof -
  have "(63 :: u32) = mask 6" by (simp add: mask_eq_exp_minus_1)
  then have "drop_bit 3 lo AND 63 = take_bit 6 (drop_bit 3 lo)" by (simp only: take_bit_eq_mask)
  moreover have "unat lo = 8 * n mod 2 ^ 32" by (rule counts_low [OF assms])
  moreover have "(8 * n mod 2 ^ 32) div 8 mod 64 = n mod 64"
  proof -
    have "8 * n mod 2 ^ 32 = 8 * (n mod 2 ^ 29)" using mult_mod_right [of 8 n "2 ^ 29"] by simp
    then show ?thesis by (simp add: mod_mod_cancel)
  qed
  moreover have "unat (take_bit 6 (drop_bit 3 lo)) = unat lo div 8 mod 64"
    unfolding unsigned_take_bit_eq unat_drop_bit_eq by (simp only: take_bit_eq_mod drop_bit_eq_div) simp
  ultimately show ?thesis by (simp only:)
qed

section \<open>The contract of a streaming hash\<close>

fun feed :: "('s \<Rightarrow> byte list \<Rightarrow> 's option) \<Rightarrow> 's \<Rightarrow> byte list list \<Rightarrow> 's option" where
  "feed update s [] = Some s"
| "feed update s (xs # xss) = Option.bind (update s xs) (\<lambda>s'. feed update s' xss)"

text \<open>
  \<open>rel s m\<close>: the state \<open>s\<close> has taken in the message \<open>m\<close>. A call takes at most \<open>most\<close> bytes; a message
  has fewer than \<open>2 ^ 61\<close> with its padding.
\<close>

locale hash_stream =
  fixes rel :: "'s \<Rightarrow> byte list \<Rightarrow> bool"
    and start :: "'s \<Rightarrow> bool"
    and update :: "'s \<Rightarrow> byte list \<Rightarrow> 's option"
    and final :: "'s \<Rightarrow> 'd option"
    and spec :: "byte list \<Rightarrow> 'd"
    and most :: nat
  assumes rel_start: "start s \<Longrightarrow> rel s []"
    and rel_update: "rel s m \<Longrightarrow> length xs \<le> most \<Longrightarrow> length (m @ xs) < 2 ^ 61 \<Longrightarrow>
      \<exists>s'. update s xs = Some s' \<and> rel s' (m @ xs)"
    and rel_final: "rel s m \<Longrightarrow> length m + 128 < 2 ^ 61 \<Longrightarrow> final s = Some (spec m)"
begin

lemma feed_rel:
  "rel s m \<Longrightarrow> list_all (\<lambda>xs. length xs \<le> most) xss \<Longrightarrow> length m + length (concat xss) < 2 ^ 61 \<Longrightarrow>
     \<exists>s'. feed update s xss = Some s' \<and> rel s' (m @ concat xss)"
proof (induction xss arbitrary: s m)
  case (Cons xs xss)
  obtain s' where s': "update s xs = Some s'" "rel s' (m @ xs)"
    using rel_update [OF Cons.prems(1), of xs] Cons.prems(2,3) by auto
  from Cons.IH [OF this(2)] Cons.prems(2,3) show ?case using s'(1) by (simp add: add.assoc)
qed simp

lemma digest:
  assumes "start s" "list_all (\<lambda>xs. length xs \<le> most) xss" "length (concat xss) + 128 < 2 ^ 61"
  shows "Option.bind (feed update s xss) final = Some (spec (concat xss))"
  using feed_rel [OF rel_start [OF assms(1)] assms(2)] rel_final assms(3) by auto

end

end
