(* ===== verification/Sha1.thy ===== *)
theory Sha1
  imports Hash_Stream
begin

unbundle bit_operations_syntax

text \<open>
  SHA-1 (\<open>sha1.c\<close>, with \<open>IS_LITTLE_ENDIAN\<close>): the transformation with its schedule of sixteen words
  overwritten in place and its registers renamed from call to call, the streaming update, the final
  padding; against the definition of FIPS 180. An update is undefined (\<open>None\<close>) where it leaves the
  data or the buffer or does not end.
\<close>

section \<open>The transformation\<close>

definition rol :: "u32 \<Rightarrow> nat \<Rightarrow> u32" where
  "rol value bits = push_bit bits value OR drop_bit (32 - bits) value"

text \<open>The schedule words: \<open>block->l\<close>, changed by every expansion.\<close>

definition blk0 :: "nat \<Rightarrow> u32 list \<Rightarrow> u32 \<times> u32 list" where
  "blk0 i l =
     (let x = (rol (l ! i) 24 AND 0xFF00FF00) OR (rol (l ! i) 8 AND 0x00FF00FF) in (x, l[i := x]))"

definition blk :: "nat \<Rightarrow> u32 list \<Rightarrow> u32 \<times> u32 list" where
  "blk i l =
     (let x = rol (l ! ((i + 13) mod 16) XOR l ! ((i + 8) mod 16) XOR l ! ((i + 2) mod 16) XOR l ! (i mod 16)) 1
      in (x, l[i mod 16 := x]))"

text \<open>The addend of \<open>z\<close> in \<open>R0\<close> to \<open>R4\<close>, and the words \<open>z\<close> and \<open>w\<close> after the call.\<close>

definition sha1_R :: "nat \<Rightarrow> u32 \<Rightarrow> u32 \<Rightarrow> u32 \<Rightarrow> u32 \<Rightarrow> u32 \<Rightarrow> u32 list \<Rightarrow> u32 \<times> u32 \<times> u32 list" where
  "sha1_R i v w x y z l =
     (let (b, l) = (if i < 16 then blk0 i l else blk i l);
          t = (if i < 20 then ((w AND (x XOR y)) XOR y) + b + 0x5A827999
               else if i < 40 then (w XOR x XOR y) + b + 0x6ED9EBA1
               else if i < 60 then (((w OR x) AND y) OR (w AND x)) + b + 0x8F1BBCDC
               else (w XOR x XOR y) + b + 0xCA62C1D6)
      in (z + (t + rol v 5), rol w 30, l))"

text \<open>
  The call number \<open>i\<close> of the eighty: its arguments \<open>v\<close> to \<open>z\<close> are the five variables \<open>a\<close> to \<open>e\<close> in
  cyclic order, starting one further back from call to call.
\<close>

definition sha1_call :: "nat \<Rightarrow> u32 list \<times> u32 list \<Rightarrow> u32 list \<times> u32 list" where
  "sha1_call i s = (case s of (r, l) \<Rightarrow>
     (let v = (80 - i) mod 5; w = (81 - i) mod 5; x = (82 - i) mod 5; y = (83 - i) mod 5; z = (84 - i) mod 5;
          (rz, rw, l) = sha1_R i (r ! v) (r ! w) (r ! x) (r ! y) (r ! z) l
      in (r[z := rz, w := rw], l)))"

definition SHA1Transform :: "u32 list \<Rightarrow> byte list \<Rightarrow> u32 list" where
  "SHA1Transform state buffer =
     (let l = map (\<lambda>i. le_word (take 4 (drop (4 * i) buffer))) [0..<16];
          (r, l) = fold sha1_call [0..<80] (state, l)
      in map2 (+) state r)"

section \<open>Streaming\<close>

record sha1_ctx =
  sha_state :: "u32 list"
  sha_count0 :: u32
  sha_count1 :: u32
  sha_buffer :: "byte list"

text \<open>\<open>buffer\<close> is what the memory of the context held before.\<close>

definition SHA1Init :: "byte list \<Rightarrow> sha1_ctx" where
  "SHA1Init buffer =
     \<lparr>sha_state = [0x67452301, 0xEFCDAB89, 0x98BADCFE, 0x10325476, 0xC3D2E1F0],
      sha_count0 = 0, sha_count1 = 0, sha_buffer = buffer\<rparr>"

text \<open>The loop over the whole blocks of the data, with its 32-bit counter.\<close>

partial_function (option) sha1_blocks :: "u32 list \<Rightarrow> byte list \<Rightarrow> nat \<Rightarrow> (u32 list \<times> nat) option" where
  [code]: "sha1_blocks state data i =
     (if add32 i 63 < length data
      then Option.bind (mem_read data i 64) (\<lambda>b. sha1_blocks (SHA1Transform state b) data (add32 i 64))
      else Some (state, i))"

definition SHA1Update :: "sha1_ctx \<Rightarrow> byte list \<Rightarrow> sha1_ctx option" where
  "SHA1Update context data =
     (let len = of_nat (length data) :: u32;
          j = sha_count0 context;
          count0 = sha_count0 context + push_bit 3 len;
          count1 = (if count0 < j then sha_count1 context + 1 else sha_count1 context) + drop_bit 29 len;
          j = unat (drop_bit 3 j AND 63);
          context = context\<lparr>sha_count0 := count0, sha_count1 := count1\<rparr>
      in if add32 j (length data) > 63
         then Option.bind (mem_read data 0 (64 - j)) (\<lambda>d.
              Option.bind (mem_write (sha_buffer context) j d) (\<lambda>buffer.
              Option.bind (sha1_blocks (SHA1Transform (sha_state context) buffer) data (64 - j)) (\<lambda>(state, i).
              map_option (\<lambda>buffer. context\<lparr>sha_state := state, sha_buffer := buffer\<rparr>)
                (mem_write buffer 0 (drop i data)))))
         else map_option (\<lambda>buffer. context\<lparr>sha_buffer := buffer\<rparr>) (mem_write (sha_buffer context) j data))"

text \<open>The zero bytes of the padding, one call each.\<close>

partial_function (option) sha1_pad :: "sha1_ctx \<Rightarrow> sha1_ctx option" where
  [code]: "sha1_pad context =
     (if sha_count0 context AND 504 \<noteq> 448
      then Option.bind (SHA1Update context [0x00]) sha1_pad else Some context)"

definition SHA1Final :: "sha1_ctx \<Rightarrow> byte list option" where
  "SHA1Final context =
     (let finalcount = map (\<lambda>i. ucast (drop_bit ((3 - i mod 4) * 8)
            (if i \<ge> 4 then sha_count0 context else sha_count1 context) AND 255)) [0..<8]
      in Option.bind (SHA1Update context [0x80]) (\<lambda>c.
         Option.bind (sha1_pad c) (\<lambda>c.
         map_option (\<lambda>c. map (\<lambda>i. ucast (drop_bit ((3 - i mod 4) * 8) (sha_state c ! (i div 4)) AND 255)) [0..<20])
           (SHA1Update c finalcount))))"

section \<open>FIPS 180\<close>

text \<open>Words and their bytes, highest first.\<close>

definition be_word :: "byte list \<Rightarrow> u32" where
  "be_word bs = le_word (rev bs)"

definition be_bytes :: "u32 \<Rightarrow> byte list" where
  "be_bytes w = map (\<lambda>k. ucast (drop_bit k w)) [24, 16, 8, 0]"

text \<open>The schedule \<open>W\<close> of eighty words.\<close>

fun fips_extend :: "nat \<Rightarrow> u32 list \<Rightarrow> u32 list" where
  "fips_extend 0 W = W"
| "fips_extend (Suc n) W =
     (let t = length W in
      fips_extend n (W @ [rol (W ! (t - 3) XOR W ! (t - 8) XOR W ! (t - 14) XOR W ! (t - 16)) 1]))"

definition fips_W :: "byte list \<Rightarrow> u32 list" where
  "fips_W M = fips_extend 64 (map (\<lambda>t. be_word (take 4 (drop (4 * t) M))) [0..<16])"

definition fips_f :: "nat \<Rightarrow> u32 \<Rightarrow> u32 \<Rightarrow> u32 \<Rightarrow> u32" where
  "fips_f t x y z =
     (if t < 20 then (x AND y) XOR (NOT x AND z)
      else if t < 40 then x XOR y XOR z
      else if t < 60 then (x AND y) XOR (x AND z) XOR (y AND z)
      else x XOR y XOR z)"

definition fips_K :: "nat \<Rightarrow> u32" where
  "fips_K t = (if t < 20 then 0x5A827999 else if t < 40 then 0x6ED9EBA1 else if t < 60 then 0x8F1BBCDC else 0xCA62C1D6)"

definition fips_step :: "u32 list \<Rightarrow> nat \<Rightarrow> u32 list \<Rightarrow> u32 list" where
  "fips_step W t h =
     (let a = h ! 0; b = h ! 1; c = h ! 2; d = h ! 3; e = h ! 4
      in [rol a 5 + fips_f t b c d + e + fips_K t + W ! t, a, rol b 30, c, d])"

definition fips_compress :: "u32 list \<Rightarrow> byte list \<Rightarrow> u32 list" where
  "fips_compress H M = map2 (+) H (fold (fips_step (fips_W M)) [0..<80] H)"

definition fips_pad :: "nat \<Rightarrow> byte list" where
  "fips_pad n =
     (let bits = of_nat (8 * n) :: u64
      in 0x80 # replicate ((119 - n mod 64) mod 64) 0x00 @ be_bytes (ucast (drop_bit 32 bits)) @ be_bytes (ucast bits))"

definition fips_sha1 :: "byte list \<Rightarrow> byte list" where
  "fips_sha1 m = concat (map be_bytes
     (absorb fips_compress [0x67452301, 0xEFCDAB89, 0x98BADCFE, 0x10325476, 0xC3D2E1F0] (m @ fips_pad (length m))))"

section \<open>The transformation is the definition\<close>

lemma swap_be_word:
  assumes "length bs = 4"
  shows "(rol (le_word bs) 24 AND 0xFF00FF00) OR (rol (le_word bs) 8 AND 0x00FF00FF) = be_word bs"
proof (rule bit_word_eqI)
  fix n assume "n < LENGTH(32)"
  then obtain k m where m: "m < 8" and n: "n = 8 * k + m" and "k < 4"
    using byte_lane [of n 4] by auto
  then have "k = 0 \<or> k = 1 \<or> k = 2 \<or> k = 3" by arith
  then consider "k = 0" | "k = 1" | "k = 2" | "k = 3" by blast
  moreover have d: "(8 * c + m) div 8 = c" "(8 * c + m) mod 8 = m" for c using m by simp_all
  have masks: "(0xFF00FF00 :: u32) = push_bit 24 (mask 8) OR push_bit 8 (mask 8)"
    "(0x00FF00FF :: u32) = push_bit 16 (mask 8) OR mask 8"
    by (simp_all add: mask_eq_exp_minus_1 push_bit_eq_mult)
  have r: "rev bs ! 0 = bs ! 3" "rev bs ! 1 = bs ! 2" "rev bs ! 2 = bs ! 1" "rev bs ! 3 = bs ! 0"
    using assms by (simp_all add: rev_nth)
  ultimately show "bit ((rol (le_word bs) 24 AND 0xFF00FF00) OR (rol (le_word bs) 8 AND 0x00FF00FF)) n = bit (be_word bs) n"
    unfolding masks n be_word_def
    by cases (use m assms d [of 0] d [of 1] d [of 2] d [of 3] r in
      \<open>simp_all add: rol_def bit_simps bit_le_word\<close>)
qed

lemma fips_extend_spec:
  "16 \<le> length W \<Longrightarrow> length (fips_extend n W) = length W + n \<and>
     (\<forall>t < length W. fips_extend n W ! t = W ! t) \<and>
     (\<forall>t. length W \<le> t \<and> t < length W + n \<longrightarrow> fips_extend n W ! t =
        rol (fips_extend n W ! (t - 3) XOR fips_extend n W ! (t - 8) XOR fips_extend n W ! (t - 14) XOR fips_extend n W ! (t - 16)) 1)"
proof (induction n arbitrary: W)
  case (Suc n)
  let ?x = "rol (W ! (length W - 3) XOR W ! (length W - 8) XOR W ! (length W - 14) XOR W ! (length W - 16)) 1"
  let ?E = "fips_extend n (W @ [?x])"
  have E: "fips_extend (Suc n) W = ?E" by simp
  have IH: "length ?E = length W + 1 + n" "\<And>t. t < length W + 1 \<Longrightarrow> ?E ! t = (W @ [?x]) ! t"
    "\<And>t. length W + 1 \<le> t \<Longrightarrow> t < length W + 1 + n \<Longrightarrow> ?E ! t =
      rol (?E ! (t - 3) XOR ?E ! (t - 8) XOR ?E ! (t - 14) XOR ?E ! (t - 16)) 1"
    using Suc.IH [of "W @ [?x]"] Suc.prems by simp_all
  have "?E ! t = rol (?E ! (t - 3) XOR ?E ! (t - 8) XOR ?E ! (t - 14) XOR ?E ! (t - 16)) 1"
    if "length W \<le> t" "t < length W + Suc n" for t
  proof (cases "t = length W")
    case True
    then show ?thesis using IH(2) Suc.prems by (simp add: nth_append)
  next
    case False
    then show ?thesis using IH(3) that by simp
  qed
  then show ?case unfolding E using IH(1,2) by (simp add: nth_append)
qed auto

lemma fips_W_nth:
  shows "length (fips_W M) = 80"
    and "t < 16 \<Longrightarrow> fips_W M ! t = be_word (take 4 (drop (4 * t) M))"
    and "16 \<le> t \<Longrightarrow> t < 80 \<Longrightarrow> fips_W M ! t =
      rol (fips_W M ! (t - 3) XOR fips_W M ! (t - 8) XOR fips_W M ! (t - 14) XOR fips_W M ! (t - 16)) 1"
  using fips_extend_spec [of "map (\<lambda>t. be_word (take 4 (drop (4 * t) M))) [0..<16]" 64]
  by (simp_all add: fips_W_def)

text \<open>After \<open>i\<close> calls the slots hold the last sixteen words of the schedule, raw ones where none is reached.\<close>

definition slots :: "byte list \<Rightarrow> nat \<Rightarrow> u32 list \<Rightarrow> bool" where
  "slots M i l \<longleftrightarrow> length l = 16 \<and> (\<forall>j < 16. i \<le> j \<longrightarrow> l ! j = le_word (take 4 (drop (4 * j) M))) \<and>
     (\<forall>t < i. i \<le> t + 16 \<longrightarrow> l ! (t mod 16) = fips_W M ! t)"

lemma slots_blk0:
  assumes "slots M i l" "i < 16" "length M = 64"
  shows "fst (blk0 i l) = fips_W M ! i \<and> slots M (Suc i) (snd (blk0 i l))"
proof -
  have "length (take 4 (drop (4 * i) M)) = 4" using assms by simp
  from swap_be_word [OF this] have x: "fst (blk0 i l) = fips_W M ! i"
    using assms by (simp add: blk0_def slots_def fips_W_nth)
  moreover have "snd (blk0 i l) = l[i := fst (blk0 i l)]" by (simp add: blk0_def)
  moreover have "t mod 16 = t" if "t < 16" for t :: nat using that by simp
  ultimately show ?thesis using assms(1,2) by (auto simp: slots_def nth_list_update less_Suc_eq)
qed

lemma slots_blk:
  assumes "slots M i l" "16 \<le> i" "i < 80"
  shows "fst (blk i l) = fips_W M ! i \<and> slots M (Suc i) (snd (blk i l))"
proof -
  have wrap: "n mod 16 = (n - 16) mod 16" if "16 \<le> n" for n :: nat using that by (rule le_mod_geq)
  have m: "(i + 13) mod 16 = (i - 3) mod 16" "(i + 8) mod 16 = (i - 8) mod 16" "(i + 2) mod 16 = (i - 14) mod 16"
    "i mod 16 = (i - 16) mod 16"
    using assms(2) by (subst wrap, simp, simp)+
  have old: "l ! ((i - d) mod 16) = fips_W M ! (i - d)" if "0 < d" "d \<le> 16" for d
    using assms(1,2) that by (simp add: slots_def)
  have x: "fst (blk i l) = fips_W M ! i"
    unfolding fips_W_nth(3) [OF assms(2,3)] blk_def Let_def fst_conv m by (simp add: old)
  have up: "snd (blk i l) = l[i mod 16 := fips_W M ! i]" using x by (simp add: blk_def)
  have "l[i mod 16 := fips_W M ! i] ! (t mod 16) = fips_W M ! t" if "t < Suc i" "Suc i \<le> t + 16" for t
  proof (cases "t = i")
    case True
    then show ?thesis using assms(1) by (simp add: slots_def)
  next
    case False
    then have t: "t < i" "i - t < 16" using that by simp_all
    have "t mod 16 \<noteq> i mod 16"
    proof
      assume "t mod 16 = i mod 16"
      then have "16 dvd i - t" using mod_eq_dvd_iff_nat [of t i 16] t by simp
      then show False using t dvd_imp_le [of 16 "i - t"] by simp
    qed
    then show ?thesis using assms(1) that False by (simp add: slots_def)
  qed
  then show ?thesis using x up assms(1,2) by (simp add: slots_def)
qed

lemma choose_fips: "(w AND (x XOR y)) XOR y = (w AND x) XOR (NOT w AND (y :: u32))"
  by (rule bit_word_eqI) (auto simp: bit_simps)

lemma majority_fips: "((w OR x) AND y) OR (w AND x) = (w AND x) XOR (w AND y) XOR (x AND (y :: u32))"
  by (rule bit_word_eqI) (auto simp: bit_simps)

lemma sha1_R_fips:
  assumes "(if i < 16 then blk0 i l else blk i l) = (b, l')"
  shows "sha1_R i v w x y z l = (rol v 5 + fips_f i w x y + z + fips_K i + b, rol w 30, l')"
  using assms
  unfolding sha1_R_def choose_fips majority_fips
  by (simp add: fips_f_def fips_K_def add.assoc add.commute add.left_commute xor.assoc split: if_splits)

text \<open>The five variables in the order in which call \<open>i\<close> names them.\<close>

definition sha1_regs :: "nat \<Rightarrow> u32 list \<Rightarrow> u32 list" where
  "sha1_regs i r = map (\<lambda>k. r ! ((80 + k - i) mod 5)) [0, 1, 2, 3, 4]"

lemma cyclic_index:
  assumes "q \<le> 15" "m \<le> 5"
  shows "(80 + k - (5 * q + m)) mod 5 = (5 + k - m) mod (5 :: nat)"
proof -
  obtain p where "15 = q + p" using assms(1) by (metis le_Suc_ex)
  then have "80 + k - (5 * q + m) = (5 + k - m) + 5 * p" using assms(2) by simp
  then show ?thesis by (simp only: mod_mult_self2)
qed

lemma five_words:
  assumes "length r = 5"
  obtains a b c d e where "r = [a, b, c, d, e]"
  using assms by (auto simp: length_Suc_conv eval_nat_numeral)

lemma call_step:
  assumes "slots M i l" "length r = 5" "i < 80" "length M = 64" "sha1_call i (r, l) = (r', l')"
  shows "slots M (Suc i) l' \<and> length r' = 5 \<and> sha1_regs (Suc i) r' = fips_step (fips_W M) i (sha1_regs i r)"
proof -
  obtain b l1 where b: "(if i < 16 then blk0 i l else blk i l) = (b, l1)" by (rule prod.exhaust)
  then have W: "b = fips_W M ! i" "slots M (Suc i) l1"
    using slots_blk0 [OF assms(1) _ assms(4)] slots_blk [OF assms(1) _ assms(3)] by (auto split: if_splits)
  define q m where "q = i div 5" and "m = i mod 5"
  have i: "i = 5 * q + m" "q \<le> 15" "m < 5" using assms(3) by (simp_all add: q_def m_def)
  have idx: "(80 + k - i) mod 5 = (5 + k - m) mod 5" for k
    unfolding i(1) using cyclic_index [OF i(2), of m] i(3) by simp
  have idx': "(80 + k - Suc i) mod 5 = (4 + k - m) mod 5" for k
    unfolding i(1) using cyclic_index [OF i(2), of "Suc m"] i(3) by simp
  have idx80: "(80 - i) mod 5 = (5 - m) mod 5" "(81 - i) mod 5 = (6 - m) mod 5" "(82 - i) mod 5 = (7 - m) mod 5"
    "(83 - i) mod 5 = (8 - m) mod 5" "(84 - i) mod 5 = (9 - m) mod 5"
    using idx [of 0] idx [of 1] idx [of 2] idx [of 3] idx [of 4]
    by (simp_all only: add_0_right arith_simps arith_special)
  obtain r0 r1 r2 r3 r4 where r: "r = [r0, r1, r2, r3, r4]"
    by (rule five_words [OF assms(2)])
  have call: "sha1_call i (r, l) = (let v = (5 - m) mod 5; w = (6 - m) mod 5; z = (9 - m) mod 5
      in (r[z := rol (r ! v) 5 + fips_f i (r ! w) (r ! ((7 - m) mod 5)) (r ! ((8 - m) mod 5)) + r ! z + fips_K i + b,
            w := rol (r ! w) 30], l1))"
    by (simp add: sha1_call_def idx80 sha1_R_fips [OF b])
  have m: "m = 0 \<or> m = 1 \<or> m = 2 \<or> m = 3 \<or> m = 4" using i(3) by arith
  have "length r' = 5 \<and> sha1_regs (Suc i) r' = fips_step (fips_W M) i (sha1_regs i r)"
    using m call assms(5) W(1) unfolding sha1_regs_def idx idx' list.map r
    by (elim disjE) (auto simp: fips_step_def)
  moreover have "l' = l1" using call assms(5) by simp
  ultimately show ?thesis using W(2) by simp
qed

lemma transform_fips:
  assumes "length H = 5" "length M = 64"
  shows "SHA1Transform H M = fips_compress H M"
proof -
  let ?l = "map (\<lambda>i. le_word (take 4 (drop (4 * i) M)) :: u32) [0..<16]"
  let ?P = "\<lambda>i s. slots M i (snd s) \<and> length (fst s) = 5 \<and>
    sha1_regs i (fst s) = fold (fips_step (fips_W M)) [0..<i] H"
  obtain h0 h1 h2 h3 h4 where "H = [h0, h1, h2, h3, h4]"
    by (rule five_words [OF assms(1)])
  then have "sha1_regs 0 H = H" by (simp add: sha1_regs_def)
  then have start: "?P 0 (H, ?l)" using assms(1) by (simp add: slots_def)
  have "?P 80 (fold sha1_call [0..<80] (H, ?l))"
  proof (rule fold_upt_invariant [where P = ?P and a = 0, OF _ start])
    fix i s assume "i < 80" "?P i s"
    then show "?P (Suc i) (sha1_call i s)"
      using call_step [of M i "snd s" "fst s" "fst (sha1_call i s)" "snd (sha1_call i s)"] assms(2) by simp
  qed simp
  moreover have "sha1_regs 80 r = r" if r: "length r = 5" for r
  proof -
    obtain r0 r1 r2 r3 r4 where "r = [r0, r1, r2, r3, r4]" by (rule five_words [OF r])
    then show ?thesis by (simp add: sha1_regs_def)
  qed
  ultimately have "fst (fold sha1_call [0..<80] (H, ?l)) = fold (fips_step (fips_W M)) [0..<80] H" by metis
  then show ?thesis unfolding SHA1Transform_def fips_compress_def Let_def split_beta by (simp only:)
qed

lemma length_fips_compress [simp]: "length H = 5 \<Longrightarrow> length (fips_compress H M) = 5"
proof -
  have "length (fold (fips_step W) ts H) = 5" if "length H = 5" for W ts H
    using that by (induction ts arbitrary: H) (simp_all add: fips_step_def)
  then show "length H = 5 \<Longrightarrow> ?thesis" by (simp add: fips_compress_def)
qed

lemma absorb_transform:
  "length H = 5 \<Longrightarrow> absorb SHA1Transform H m = absorb fips_compress H m \<and> length (absorb SHA1Transform H m) = 5"
proof (induction SHA1Transform H m rule: absorb.induct)
  case (1 H m)
  show ?case
  proof (cases "length m < 64")
    case True
    then show ?thesis using 1(2) by (simp add: absorb_short)
  next
    case False
    have T: "SHA1Transform H (take 64 m) = fips_compress H (take 64 m)"
      using False 1(2) by (intro transform_fips) simp_all
    have "absorb SHA1Transform (fips_compress H (take 64 m)) (drop 64 m) =
        absorb fips_compress (fips_compress H (take 64 m)) (drop 64 m) \<and>
        length (absorb SHA1Transform (fips_compress H (take 64 m)) (drop 64 m)) = 5"
      using 1(1) [OF False] length_fips_compress [OF 1(2)] unfolding T by blast
    moreover have "absorb SHA1Transform H m = absorb SHA1Transform (fips_compress H (take 64 m)) (drop 64 m)"
      using False T by (subst absorb.simps) simp
    moreover have "absorb fips_compress H m = absorb fips_compress (fips_compress H (take 64 m)) (drop 64 m)"
      using False by (subst absorb.simps) simp
    ultimately show ?thesis by metis
  qed
qed

section \<open>Streaming\<close>

lemma sha1_blocks_absorb:
  assumes "length data + 64 < two32"
  shows "i \<le> length data \<Longrightarrow> sha1_blocks state data i =
    Some (absorb SHA1Transform state (drop i data), length data - length (drop i data) mod 64)"
proof (induction "length data - i" arbitrary: i state rule: less_induct)
  case less
  show ?case
  proof (cases "i + 63 < length data")
    case True
    have "sha1_blocks state data i =
        Option.bind (mem_read data i 64) (\<lambda>b. sha1_blocks (SHA1Transform state b) data (i + 64))"
      using True assms by (subst sha1_blocks.simps) (simp add: add32_small)
    also have "\<dots> = sha1_blocks (SHA1Transform state (take 64 (drop i data))) data (i + 64)"
      using True by (simp add: mem_read_ok)
    also have "\<dots> = Some (absorb SHA1Transform (SHA1Transform state (take 64 (drop i data))) (drop (i + 64) data),
        length data - length (drop (i + 64) data) mod 64)"
      using less True by simp
    finally have "sha1_blocks state data i = \<dots>" .
    moreover have "take 64 (drop i data) @ drop (i + 64) data = drop i data"
      by (metis add.commute append_take_drop_id drop_drop)
    moreover have "length (drop (i + 64) data) mod 64 = length (drop i data) mod 64"
      using True le_mod_geq [of 64 "length data - i"] by simp
    ultimately show ?thesis using True absorb_block [of "take 64 (drop i data)" SHA1Transform state "drop (i + 64) data"]
      by simp
  next
    case False
    then show ?thesis using less.prems assms
      by (subst sha1_blocks.simps) (simp add: add32_small absorb_short)
  qed
qed

definition sha1_h0 :: "u32 list" where
  "sha1_h0 = [0x67452301, 0xEFCDAB89, 0x98BADCFE, 0x10325476, 0xC3D2E1F0]"

definition sha1_rel :: "sha1_ctx \<Rightarrow> byte list \<Rightarrow> bool" where
  "sha1_rel c m \<longleftrightarrow> absorbed SHA1Transform sha1_h0 m (sha_state c) (sha_buffer c) \<and>
     counts (length m) (sha_count0 c) (sha_count1 c)"

lemma sha1_update_rel:
  assumes "sha1_rel c m" "length xs + 128 < two32"
  shows "\<exists>c'. SHA1Update c xs = Some c' \<and> sha1_rel c' (m @ xs)"
proof -
  let ?j = "length m mod 64"
  let ?len = "of_nat (length xs) :: u32"
  let ?c0 = "sha_count0 c + push_bit 3 ?len"
  let ?c1 = "(if ?c0 < sha_count0 c then sha_count1 c + 1 else sha_count1 c) + drop_bit 29 ?len"
  have abs: "absorbed SHA1Transform sha1_h0 m (sha_state c) (sha_buffer c)" and buf: "length (sha_buffer c) = 64"
    using assms(1) by (simp_all add: sha1_rel_def absorbed_def)
  have counts: "counts (length (m @ xs)) ?c0 ?c1"
    using counts_add(1) [of "length m" _ _ "length xs" ?len] assms by (simp add: sha1_rel_def two32_def)
  have j: "unat (drop_bit 3 (sha_count0 c) AND 63) = ?j"
    using assms(1) by (intro counts_position) (auto simp: sha1_rel_def)
  have j64: "?j < 64" by simp
  have sum: "add32 ?j (length xs) = ?j + length xs" using assms(2) j64 by (intro add32_small) linarith
  show ?thesis
  proof (cases "?j + length xs > 63")
    case False
    then have "SHA1Update c xs = Some (c\<lparr>sha_count0 := ?c0, sha_count1 := ?c1,
        sha_buffer := take ?j (sha_buffer c) @ xs @ drop (?j + length xs) (sha_buffer c)\<rparr>)"
      using buf by (simp add: SHA1Update_def j sum mem_write_ok)
    then show ?thesis using absorbed_more [OF abs, of xs] False counts by (simp add: sha1_rel_def)
  next
    case True
    let ?d = "take (64 - ?j) xs" and ?rest = "drop (64 - ?j) xs"
    let ?buf = "take ?j (sha_buffer c) @ ?d"
    let ?st = "absorb SHA1Transform (SHA1Transform (sha_state c) ?buf) ?rest"
    have lens: "length ?d = 64 - ?j" "length ?buf = 64" using True buf j64 by simp_all
    have d: "mem_read xs 0 (64 - ?j) = Some ?d" using True by (simp add: mem_read_ok)
    have w: "mem_write (sha_buffer c) ?j ?d = Some ?buf" using lens buf j64 by (simp add: mem_write_ok)
    have "64 - ?j \<le> length xs" using True by simp
    from sha1_blocks_absorb [OF _ this, of "SHA1Transform (sha_state c) ?buf"]
    have b: "sha1_blocks (SHA1Transform (sha_state c) ?buf) xs (64 - ?j) = Some (?st, length xs - length ?rest mod 64)"
      using assms(2) by simp
    have l: "drop (length xs - length ?rest mod 64) xs = left_over ?rest"
      using True by (simp add: left_over_def)
    have "SHA1Update c xs = Some (c\<lparr>sha_count0 := ?c0, sha_count1 := ?c1, sha_state := ?st,
        sha_buffer := left_over ?rest @ drop (length ?rest mod 64) ?buf\<rparr>)"
      using True lens d w b l unfolding SHA1Update_def Let_def j sum
      by (simp add: mem_write_ok)
    then show ?thesis
      using absorbed_full [OF abs lens(1) lens(2), of ?rest] counts by (simp add: sha1_rel_def)
  qed
qed

lemma padded_count:
  "lo AND 504 = 448 \<longleftrightarrow> drop_bit 3 lo AND 63 = (56 :: u32)"
proof -
  have m: "(504 :: u32) = push_bit 3 (mask 6)" "(63 :: u32) = mask 6" "(448 :: u32) = push_bit 3 56"
    by (simp_all add: mask_eq_exp_minus_1 push_bit_eq_mult)
  have p: "lo AND 504 = push_bit 3 (drop_bit 3 lo AND 63)"
    unfolding m by (rule bit_word_eqI) (auto simp: bit_simps)
  have d: "drop_bit 3 (lo AND 504) = drop_bit 3 lo AND 63"
    unfolding m by (rule bit_word_eqI) (auto simp: bit_simps)
  have "drop_bit 3 448 = (56 :: u32)" by simp
  then show ?thesis using p d m(3) by metis
qed

lemma pad_first:
  assumes "p < 64"
  shows "(120 - (p + 1) mod 64) mod 64 = (119 - p) mod (64 :: nat)"
proof (cases "p = 63")
  case False
  then have "(p + 1) mod 64 = p + 1" using assms by simp
  then show ?thesis by simp
qed simp

lemma pad_step:
  assumes "p < 64" "p \<noteq> 56"
  shows "(120 - p) mod 64 = Suc ((120 - (p + 1) mod 64) mod 64)"
proof (cases "p < 56")
  case True
  then have "120 - p = (56 - p) + 64" "119 - p = (55 - p) + 64" by simp_all
  then have "(120 - p) mod 64 = 56 - p" "(119 - p) mod 64 = 55 - p" using True by (simp_all only: mod_add_self2) simp_all
  then show ?thesis using pad_first [OF assms(1)] True by simp
next
  case False
  then show ?thesis using pad_first [OF assms(1)] assms by simp
qed

lemma sha1_pad_rel:
  "sha1_rel c m \<Longrightarrow> \<exists>c'. sha1_pad c = Some c' \<and>
     sha1_rel c' (m @ replicate ((120 - length m mod 64) mod 64) 0)"
proof (induction "(120 - length m mod 64) mod 64" arbitrary: c m)
  case 0
  have "length m mod 64 < 64" by simp
  then have "length m mod 64 = 56" using pad_step [of "length m mod 64"] 0(1) by (metis Zero_not_Suc)
  moreover have "unat (drop_bit 3 (sha_count0 c) AND 63) = length m mod 64"
    using 0(2) by (intro counts_position) (auto simp: sha1_rel_def)
  ultimately have "drop_bit 3 (sha_count0 c) AND 63 = 56" by (simp add: word_unat_eq_iff)
  then have "sha_count0 c AND 504 = 448" by (rule padded_count [THEN iffD2])
  then show ?case using 0 by (subst sha1_pad.simps) simp
next
  case (Suc z)
  let ?j = "length m mod 64"
  have j: "?j < 64" by simp
  have "?j \<noteq> 56" using Suc(2) by auto
  moreover have "unat (drop_bit 3 (sha_count0 c) AND 63) = ?j"
    using Suc(3) by (intro counts_position) (auto simp: sha1_rel_def)
  ultimately have "drop_bit 3 (sha_count0 c) AND 63 \<noteq> 56" by (auto simp: word_unat_eq_iff)
  then have n: "sha_count0 c AND 504 \<noteq> 448" by (simp only: padded_count not_False_eq_True)
  obtain c1 where c1: "SHA1Update c [0x00] = Some c1" "sha1_rel c1 (m @ [0x00])"
    using sha1_update_rel [OF Suc(3), of "[0x00]"] by (auto simp: two32_def)
  have "length (m @ [0x00]) mod 64 = (?j + 1) mod 64" by (simp add: mod_Suc_eq)
  then have z: "z = (120 - length (m @ [0x00 :: byte]) mod 64) mod 64"
    using pad_step [OF j \<open>?j \<noteq> 56\<close>] Suc(2) by (simp only: nat.inject)
  from Suc(1) [OF z c1(2)] obtain c' where "sha1_pad c1 = Some c'" "sha1_rel c' ((m @ [0x00]) @ replicate z 0)"
    unfolding z by blast
  moreover have "sha1_pad c = sha1_pad c1" using n c1(1) by (subst sha1_pad.simps) simp
  ultimately show ?case using Suc(2) [symmetric] by simp
qed

lemma ucast_byte_and: "(ucast (w AND 255) :: byte) = ucast (w :: u32)"
proof -
  have "(255 :: u32) = mask 8" by (simp add: mask_eq_exp_minus_1)
  then show ?thesis unfolding \<open>255 = mask 8\<close> by (intro bit_word_eqI) (auto simp: bit_simps)
qed

lemma sha1_final_rel:
  assumes "sha1_rel c m" "length m + 128 < 2 ^ 61"
  shows "SHA1Final c = Some (fips_sha1 m)"
proof -
  let ?n = "length m"
  let ?zeros = "replicate ((119 - ?n mod 64) mod 64) 0 :: byte list"
  let ?count = "be_bytes (sha_count1 c) @ be_bytes (sha_count0 c)"
  have finalcount: "map (\<lambda>i. ucast (drop_bit ((3 - i mod 4) * 8)
      (if i \<ge> 4 then sha_count0 c else sha_count1 c) AND 255)) [0..<8] = ?count"
    unfolding ucast_byte_and by (simp add: be_bytes_def upt_rec)
  obtain c1 where c1: "SHA1Update c [0x80] = Some c1" "sha1_rel c1 (m @ [0x80])"
    using sha1_update_rel [OF assms(1), of "[0x80]"] by (auto simp: two32_def)
  have "length (m @ [0x80 :: byte]) mod 64 = (?n mod 64 + 1) mod 64" by (simp add: mod_Suc_eq)
  then have "(120 - length (m @ [0x80 :: byte]) mod 64) mod 64 = (119 - ?n mod 64) mod 64"
    using pad_first [of "?n mod 64"] by simp
  then obtain c2 where c2: "sha1_pad c1 = Some c2" "sha1_rel c2 (m @ 0x80 # ?zeros)"
    using sha1_pad_rel [OF c1(2)] by auto
  obtain c3 where c3: "SHA1Update c2 ?count = Some c3" "sha1_rel c3 ((m @ 0x80 # ?zeros) @ ?count)"
    using sha1_update_rel [OF c2(2), of ?count] by (auto simp: two32_def be_bytes_def)
  have "counts ?n (sha_count0 c) (sha_count1 c)" using assms(1) by (simp add: sha1_rel_def)
  then have pad: "0x80 # ?zeros @ ?count = fips_pad ?n"
    using counts_u64 [of ?n] assms(2) by (simp add: fips_pad_def)
  have st: "sha_state c3 = absorb SHA1Transform sha1_h0 (m @ fips_pad ?n)"
    using c3(2) pad by (simp add: sha1_rel_def absorbed_def)
  have len: "length sha1_h0 = 5" by (simp add: sha1_h0_def)
  have st': "sha_state c3 = absorb fips_compress sha1_h0 (m @ fips_pad ?n)" "length (absorb fips_compress sha1_h0 (m @ fips_pad ?n)) = 5"
    using absorb_transform [OF len, of "m @ fips_pad ?n"] st by metis+
  have digest: "map (\<lambda>i. ucast (drop_bit ((3 - i mod 4) * 8) (s ! (i div 4)) AND 255)) [0..<20] = concat (map be_bytes s)"
    if s: "length s = 5" for s :: "u32 list"
  proof -
    obtain a b d e f where "s = [a, b, d, e, f]" by (rule five_words [OF s])
    then show ?thesis unfolding ucast_byte_and by (simp add: be_bytes_def upt_rec)
  qed
  show ?thesis
    unfolding SHA1Final_def Let_def finalcount
    using c1 c2 c3 digest [OF st'(2)] st'(1) by (simp add: fips_sha1_def sha1_h0_def)
qed

text \<open>A piece so long that the sum of the position and the length wraps is copied behind the buffer.\<close>

lemma sha1_update_overrun:
  assumes "length (sha_buffer c) = 64" "two32 \<le> unat (drop_bit 3 (sha_count0 c) AND 63) + length xs" "length xs < two32"
  shows "SHA1Update c xs = None"
proof -
  let ?j = "unat (drop_bit 3 (sha_count0 c) AND 63)"
  have "(63 :: u32) = mask 6" by (simp add: mask_eq_exp_minus_1)
  then have j: "?j < 64" using and_mask_less' [of 6 "drop_bit 3 (sha_count0 c)"] by (simp add: word_less_nat_alt)
  have "add32 ?j (length xs) = ?j + length xs - two32"
    using assms(2,3) j by (simp add: add32_def le_mod_geq two32_def)
  then have "\<not> add32 ?j (length xs) > 63" using assms(3) j by simp
  moreover have "mem_write (sha_buffer c) ?j xs = None"
    using assms(1,2) j by (simp add: mem_write_def two32_def)
  ultimately show ?thesis unfolding SHA1Update_def Let_def by simp
qed

lemma sha1_start: "length buffer = 64 \<Longrightarrow> sha1_rel (SHA1Init buffer) []"
  by (simp add: sha1_rel_def SHA1Init_def sha1_h0_def absorbed_def absorb_short left_over_def counts_def)

interpretation sha1: hash_stream sha1_rel "\<lambda>s. \<exists>buffer. length buffer = 64 \<and> s = SHA1Init buffer"
    SHA1Update SHA1Final fips_sha1 "two32 - 129"
proof unfold_locales
  fix s m and xs :: "byte list"
  assume r: "sha1_rel s m" and "length xs \<le> two32 - 129"
  then have "length xs + 128 < two32" by (simp add: two32_def)
  then show "\<exists>s'. SHA1Update s xs = Some s' \<and> sha1_rel s' (m @ xs)" by (rule sha1_update_rel [OF r])
qed (auto simp: sha1_start sha1_final_rel)

text \<open>C32. The streaming SHA-1 is the digest of FIPS 180: a message handed to \<open>SHA1Update\<close> in any pieces
  (none, one, many, empty ones, pieces that end inside a block) and closed by \<open>SHA1Final\<close> yields the
  standard's digest of the whole message, whatever the buffer held before; the only bounds are those of
  the code's 32-bit piece length and 64-bit count of bits.\<close>

theorem sha1_is_fips180:
  assumes "length buffer = 64" "list_all (\<lambda>xs. length xs + 128 < two32) chunks"
    "length (concat chunks) + 128 < 2 ^ 61"
  shows "Option.bind (feed SHA1Update (SHA1Init buffer) chunks) SHA1Final = Some (fips_sha1 (concat chunks))"
proof (rule sha1.digest)
  show "list_all (\<lambda>xs. length xs \<le> two32 - 129) chunks"
    using assms(2) by (rule list.pred_mono_strong) (simp add: two32_def)
qed (use assms in auto)

theorem sha1_is_fips180_witness:
  "Option.bind (feed SHA1Update (SHA1Init (replicate 64 0xFF)) [[0x61, 0x62], [], [0x63]]) SHA1Final =
     Some (fips_sha1 [0x61, 0x62, 0x63])"
  using sha1_is_fips180 [of "replicate 64 0xFF" "[[0x61, 0x62], [], [0x63]]"] by (simp add: two32_def)

end
