(* ===== verification/Md5.thy ===== *)
theory Md5
  imports Hash_Stream
begin

unbundle bit_operations_syntax

text \<open>
  MD5 (\<open>md5.c\<close>, on a little-endian host): the transformation as the code's sixty-four operations on
  registers that change roles, the streaming append with its partial block, the padding taken from a
  constant block; against the definition of RFC 1321. An append is undefined (\<open>None\<close>) where
  \<open>nbytes << 3\<close> leaves the range of \<open>int\<close> or a copy leaves its buffer.
\<close>

section \<open>The transformation\<close>

definition T_MASK :: u32 where
  "T_MASK = NOT 0"

text \<open>\<open>T1\<close> to \<open>T64\<close>.\<close>

definition md5_T :: "u32 list" where
  "md5_T =
    [T_MASK XOR 0x28955b87, T_MASK XOR 0x173848a9, 0x242070db, T_MASK XOR 0x3e423111,
     T_MASK XOR 0x0a83f050, 0x4787c62a, T_MASK XOR 0x57cfb9ec, T_MASK XOR 0x02b96afe, 0x698098d8,
     T_MASK XOR 0x74bb0850, T_MASK XOR 0x0000a44e, T_MASK XOR 0x76a32841, 0x6b901122,
     T_MASK XOR 0x02678e6c, T_MASK XOR 0x5986bc71, 0x49b40821, T_MASK XOR 0x09e1da9d,
     T_MASK XOR 0x3fbf4cbf, 0x265e5a51, T_MASK XOR 0x16493855, T_MASK XOR 0x29d0efa2, 0x02441453,
     T_MASK XOR 0x275e197e, T_MASK XOR 0x182c0437, 0x21e1cde6, T_MASK XOR 0x3cc8f829,
     T_MASK XOR 0x0b2af278, 0x455a14ed, T_MASK XOR 0x561c16fa, T_MASK XOR 0x03105c07, 0x676f02d9,
     T_MASK XOR 0x72d5b375, T_MASK XOR 0x0005c6bd, T_MASK XOR 0x788e097e, 0x6d9d6122,
     T_MASK XOR 0x021ac7f3, T_MASK XOR 0x5b4115bb, 0x4bdecfa9, T_MASK XOR 0x0944b49f,
     T_MASK XOR 0x4140438f, 0x289b7ec6, T_MASK XOR 0x155ed805, T_MASK XOR 0x2b10cf7a, 0x04881d05,
     T_MASK XOR 0x262b2fc6, T_MASK XOR 0x1924661a, 0x1fa27cf8, T_MASK XOR 0x3b53a99a,
     T_MASK XOR 0x0bd6ddbb, 0x432aff97, T_MASK XOR 0x546bdc58, T_MASK XOR 0x036c5fc6, 0x655b59c3,
     T_MASK XOR 0x70f3336d, T_MASK XOR 0x00100b82, T_MASK XOR 0x7a7ba22e, 0x6fa87e4f,
     T_MASK XOR 0x01d3191f, T_MASK XOR 0x5cfebceb, 0x4e0811a1, T_MASK XOR 0x08ac817d,
     T_MASK XOR 0x42c50dca, 0x2ad7d2bb, T_MASK XOR 0x14792c6e]"

definition ROTATE_LEFT :: "u32 \<Rightarrow> nat \<Rightarrow> u32" where
  "ROTATE_LEFT x n = push_bit n x OR drop_bit (32 - n) x"

definition md5_F :: "u32 \<Rightarrow> u32 \<Rightarrow> u32 \<Rightarrow> u32" where
  "md5_F x y z = (x AND y) OR (NOT x AND z)"

definition md5_G :: "u32 \<Rightarrow> u32 \<Rightarrow> u32 \<Rightarrow> u32" where
  "md5_G x y z = (x AND z) OR (y AND NOT z)"

definition md5_H :: "u32 \<Rightarrow> u32 \<Rightarrow> u32 \<Rightarrow> u32" where
  "md5_H x y z = x XOR y XOR z"

definition md5_I :: "u32 \<Rightarrow> u32 \<Rightarrow> u32 \<Rightarrow> u32" where
  "md5_I x y z = y XOR (x OR NOT z)"

text \<open>The new value of the first register of \<open>SET\<close>; \<open>f\<close> is the round's function, \<open>T i\<close> its constant.\<close>

definition md5_SET :: "(u32 \<Rightarrow> u32 \<Rightarrow> u32 \<Rightarrow> u32) \<Rightarrow> u32 list \<Rightarrow> u32 \<Rightarrow> u32 \<Rightarrow> u32 \<Rightarrow> u32 \<Rightarrow> nat \<times> nat \<times> nat \<Rightarrow> u32" where
  "md5_SET f X a b c d call =
     (case call of (k, s, i) \<Rightarrow>
        let t = a + f b c d + X ! k + md5_T ! (i - 1) in ROTATE_LEFT t s + b)"

text \<open>The calls of a round come in fours: \<open>SET(a,b,c,d)\<close>, \<open>SET(d,a,b,c)\<close>, \<open>SET(c,d,a,b)\<close>, \<open>SET(b,c,d,a)\<close>.\<close>

fun md5_round :: "(u32 \<Rightarrow> u32 \<Rightarrow> u32 \<Rightarrow> u32) \<Rightarrow> u32 list \<Rightarrow> (nat \<times> nat \<times> nat) list \<Rightarrow>
    u32 \<times> u32 \<times> u32 \<times> u32 \<Rightarrow> u32 \<times> u32 \<times> u32 \<times> u32" where
  "md5_round f X (call1 # call2 # call3 # call4 # calls) (a, b, c, d) =
     (let a = md5_SET f X a b c d call1;
          d = md5_SET f X d a b c call2;
          c = md5_SET f X c d a b call3;
          b = md5_SET f X b c d a call4
      in md5_round f X calls (a, b, c, d))"
| "md5_round f X _ regs = regs"

text \<open>The arguments \<open>k\<close>, \<open>s\<close> and the number of the constant of the calls of each round.\<close>

definition md5_calls1 :: "(nat \<times> nat \<times> nat) list" where
  "md5_calls1 =
    [(0, 7, 1), (1, 12, 2), (2, 17, 3), (3, 22, 4), (4, 7, 5), (5, 12, 6), (6, 17, 7), (7, 22, 8),
     (8, 7, 9), (9, 12, 10), (10, 17, 11), (11, 22, 12), (12, 7, 13), (13, 12, 14), (14, 17, 15),
     (15, 22, 16)]"

definition md5_calls2 :: "(nat \<times> nat \<times> nat) list" where
  "md5_calls2 =
    [(1, 5, 17), (6, 9, 18), (11, 14, 19), (0, 20, 20), (5, 5, 21), (10, 9, 22), (15, 14, 23),
     (4, 20, 24), (9, 5, 25), (14, 9, 26), (3, 14, 27), (8, 20, 28), (13, 5, 29), (2, 9, 30),
     (7, 14, 31), (12, 20, 32)]"

definition md5_calls3 :: "(nat \<times> nat \<times> nat) list" where
  "md5_calls3 =
    [(5, 4, 33), (8, 11, 34), (11, 16, 35), (14, 23, 36), (1, 4, 37), (4, 11, 38), (7, 16, 39),
     (10, 23, 40), (13, 4, 41), (0, 11, 42), (3, 16, 43), (6, 23, 44), (9, 4, 45), (12, 11, 46),
     (15, 16, 47), (2, 23, 48)]"

definition md5_calls4 :: "(nat \<times> nat \<times> nat) list" where
  "md5_calls4 =
    [(0, 6, 49), (7, 10, 50), (14, 15, 51), (5, 21, 52), (12, 6, 53), (3, 10, 54), (10, 15, 55),
     (1, 21, 56), (8, 6, 57), (15, 10, 58), (6, 15, 59), (13, 21, 60), (4, 6, 61), (11, 10, 62),
     (2, 15, 63), (9, 21, 64)]"

definition md5_process :: "u32 list \<Rightarrow> byte list \<Rightarrow> u32 list" where
  "md5_process abcd data =
     (let X = map (\<lambda>i. le_word (take 4 (drop (4 * i) data))) [0..<16];
          regs = (abcd ! 0, abcd ! 1, abcd ! 2, abcd ! 3);
          regs = md5_round md5_F X md5_calls1 regs;
          regs = md5_round md5_G X md5_calls2 regs;
          regs = md5_round md5_H X md5_calls3 regs;
          regs = md5_round md5_I X md5_calls4 regs
      in case regs of (a, b, c, d) \<Rightarrow> [abcd ! 0 + a, abcd ! 1 + b, abcd ! 2 + c, abcd ! 3 + d])"

section \<open>The operations\<close>

record md5_state =
  md_count0 :: u32
  md_count1 :: u32
  md_abcd :: "u32 list"
  md_buf :: "byte list"

definition md5_init :: "byte list \<Rightarrow> md5_state" where
  "md5_init buf =
     \<lparr>md_count0 = 0, md_count1 = 0,
      md_abcd = [0x67452301, T_MASK XOR 0x10325476, T_MASK XOR 0x67452301, 0x10325476], md_buf = buf\<rparr>"

text \<open>The loop over the full blocks: the registers and the bytes left.\<close>

function md5_blocks :: "u32 list \<Rightarrow> byte list \<Rightarrow> u32 list \<times> byte list" where
  "md5_blocks abcd p =
     (if 64 \<le> length p then md5_blocks (md5_process abcd (take 64 p)) (drop 64 p) else (abcd, p))"
  by pat_completeness auto
termination by (relation "measure (\<lambda>(abcd, p). length p)") auto

declare md5_blocks.simps [simp del]

text \<open>From the second comment on: the full blocks and the final partial block.\<close>

definition md5_append_rest :: "md5_state \<Rightarrow> byte list \<Rightarrow> md5_state option" where
  "md5_append_rest pms p =
     (let (abcd, p) = md5_blocks (md_abcd pms) p; pms = pms\<lparr>md_abcd := abcd\<rparr>
      in if p \<noteq> [] then map_option (\<lambda>buf. pms\<lparr>md_buf := buf\<rparr>) (mem_write (md_buf pms) 0 p)
         else Some pms)"

definition md5_append :: "md5_state \<Rightarrow> byte list \<Rightarrow> md5_state option" where
  "md5_append pms data =
     (let nbytes = length data;
          offset = unat (drop_bit 3 (md_count0 pms) AND 63);
          nbits = of_nat (8 * nbytes) :: u32
      in if 8 * nbytes \<ge> 2147483648 then None
         else if nbytes = 0 then Some pms
         else
           let count1 = md_count1 pms + of_nat (nbytes div 2 ^ 29);
               count0 = md_count0 pms + nbits;
               count1 = (if count0 < nbits then count1 + 1 else count1);
               pms = pms\<lparr>md_count0 := count0, md_count1 := count1\<rparr>
           in if offset \<noteq> 0 then
                let n = (if offset + nbytes > 64 then 64 - offset else nbytes)
                in Option.bind (mem_read data 0 n) (\<lambda>bs.
                   Option.bind (mem_write (md_buf pms) offset bs) (\<lambda>buf.
                   let pms = pms\<lparr>md_buf := buf\<rparr>
                   in if offset + n < 64 then Some pms
                      else md5_append_rest (pms\<lparr>md_abcd := md5_process (md_abcd pms) buf\<rparr>) (drop n data)))
              else md5_append_rest pms data)"

definition md5_pad :: "byte list" where
  "md5_pad = 0x80 # replicate 63 0"

definition md5_finish :: "md5_state \<Rightarrow> byte list option" where
  "md5_finish pms =
     (let data = map (\<lambda>i. ucast (drop_bit (8 * (i mod 4)) (if i < 4 then md_count0 pms else md_count1 pms))) [0..<8]
      in Option.bind (mem_read md5_pad 0 (unat ((55 - drop_bit 3 (md_count0 pms)) AND 63) + 1)) (\<lambda>pad.
         Option.bind (md5_append pms pad) (\<lambda>pms.
         map_option (\<lambda>pms. map (\<lambda>i. ucast (drop_bit (8 * (i mod 4)) (md_abcd pms ! (i div 4)))) [0..<16])
           (md5_append pms data))))"

section \<open>RFC 1321\<close>

text \<open>
  Step \<open>i\<close> of 64 replaces the registers \<open>(a, b, c, d)\<close> by \<open>(d, b', b, c)\<close>. \<open>rfc_K\<close> is the integer part of
  \<open>2 ^ 32\<close> times the sines of 1 to 64.
\<close>

definition rfc_K :: "u32 list" where
  "rfc_K =
    [0xd76aa478, 0xe8c7b756, 0x242070db, 0xc1bdceee, 0xf57c0faf, 0x4787c62a, 0xa8304613, 0xfd469501,
     0x698098d8, 0x8b44f7af, 0xffff5bb1, 0x895cd7be, 0x6b901122, 0xfd987193, 0xa679438e, 0x49b40821,
     0xf61e2562, 0xc040b340, 0x265e5a51, 0xe9b6c7aa, 0xd62f105d, 0x02441453, 0xd8a1e681, 0xe7d3fbc8,
     0x21e1cde6, 0xc33707d6, 0xf4d50d87, 0x455a14ed, 0xa9e3e905, 0xfcefa3f8, 0x676f02d9, 0x8d2a4c8a,
     0xfffa3942, 0x8771f681, 0x6d9d6122, 0xfde5380c, 0xa4beea44, 0x4bdecfa9, 0xf6bb4b60, 0xbebfbc70,
     0x289b7ec6, 0xeaa127fa, 0xd4ef3085, 0x04881d05, 0xd9d4d039, 0xe6db99e5, 0x1fa27cf8, 0xc4ac5665,
     0xf4292244, 0x432aff97, 0xab9423a7, 0xfc93a039, 0x655b59c3, 0x8f0ccc92, 0xffeff47d, 0x85845dd1,
     0x6fa87e4f, 0xfe2ce6e0, 0xa3014314, 0x4e0811a1, 0xf7537e82, 0xbd3af235, 0x2ad7d2bb, 0xeb86d391]"

definition rfc_f :: "nat \<Rightarrow> u32 \<Rightarrow> u32 \<Rightarrow> u32 \<Rightarrow> u32" where
  "rfc_f i x y z =
     (if i < 16 then (x AND y) OR (NOT x AND z)
      else if i < 32 then (x AND z) OR (y AND NOT z)
      else if i < 48 then x XOR y XOR z
      else y XOR (x OR NOT z))"

definition rfc_k :: "nat \<Rightarrow> nat" where
  "rfc_k i =
     (if i < 16 then i else if i < 32 then (5 * i + 1) mod 16
      else if i < 48 then (3 * i + 5) mod 16 else 7 * i mod 16)"

definition rfc_s :: "nat \<Rightarrow> nat" where
  "rfc_s i =
     (if i < 16 then [7, 12, 17, 22] else if i < 32 then [5, 9, 14, 20]
      else if i < 48 then [4, 11, 16, 23] else [6, 10, 15, 21]) ! (i mod 4)"

definition rfc_step :: "u32 list \<Rightarrow> nat \<Rightarrow> u32 \<times> u32 \<times> u32 \<times> u32 \<Rightarrow> u32 \<times> u32 \<times> u32 \<times> u32" where
  "rfc_step X i = (\<lambda>(a, b, c, d).
     (d, b + word_rotl (rfc_s i) (a + rfc_f i b c d + rfc_K ! i + X ! rfc_k i), b, c))"

definition rfc_compress :: "u32 list \<Rightarrow> byte list \<Rightarrow> u32 list" where
  "rfc_compress h block =
     (let X = map (\<lambda>i. le_word (take 4 (drop (4 * i) block))) [0..<16]
      in case fold (rfc_step X) [0..<64] (h ! 0, h ! 1, h ! 2, h ! 3) of
           (a, b, c, d) \<Rightarrow> [h ! 0 + a, h ! 1 + b, h ! 2 + c, h ! 3 + d])"

definition rfc_pad :: "nat \<Rightarrow> byte list" where
  "rfc_pad n = 0x80 # replicate ((119 - n mod 64) mod 64) 0x00 @ le_bytes 8 (of_nat (8 * n) :: u64)"

definition rfc_md5 :: "byte list \<Rightarrow> byte list" where
  "rfc_md5 m = concat (map (le_bytes 4)
     (absorb rfc_compress [0x67452301, 0xEFCDAB89, 0x98BADCFE, 0x10325476] (m @ rfc_pad (length m))))"

section \<open>The transformation is the RFC's\<close>

lemma ROTATE_LEFT_rotl:
  assumes "0 < s" "s < 32"
  shows "ROTATE_LEFT x s = word_rotl s x"
proof (rule bit_word_eqI)
  fix n :: nat
  assume "n < LENGTH(32)"
  then have n: "n < 32" by simp
  show "bit (ROTATE_LEFT x s) n = bit (word_rotl s x) n"
  proof (cases "n < s")
    case True
    then have "(n + (32 - s)) mod 32 = n + (32 - s)" using assms by simp
    moreover have "bit x (32 - s + n) = bit x (n + (32 - s))" by (simp add: add.commute)
    ultimately show ?thesis
      using True n assms unfolding ROTATE_LEFT_def by (simp add: bit_simps)
  next
    case False
    then have "n + (32 - s) = (n - s) + 32" using assms by simp
    then have "(n + (32 - s)) mod 32 = n - s" using n assms by (simp only: mod_add_self2) simp
    moreover have "\<not> bit x (32 - s + n)" using False assms by (auto dest: bit_imp_le_length)
    ultimately show ?thesis
      using False n assms unfolding ROTATE_LEFT_def by (simp add: bit_simps)
  qed
qed

lemma md5_T_is_K: "md5_T = rfc_K"
  by (simp add: md5_T_def rfc_K_def T_MASK_def)

text \<open>The arguments of the call of step \<open>i\<close>.\<close>

definition md5_call :: "nat \<Rightarrow> nat \<times> nat \<times> nat" where
  "md5_call i = (rfc_k i, rfc_s i, Suc i)"

lemma md5_calls:
  "md5_calls1 = map md5_call [0..<0 + 4 * 4]" "md5_calls2 = map md5_call [16..<16 + 4 * 4]"
  "md5_calls3 = map md5_call [32..<32 + 4 * 4]" "md5_calls4 = map md5_call [48..<48 + 4 * 4]"
  by (simp_all add: md5_calls1_def md5_calls2_def md5_calls3_def md5_calls4_def md5_call_def rfc_k_def rfc_s_def upt_rec)

lemma rfc_s_bounds:
  assumes "i < 64"
  shows "0 < rfc_s i" "rfc_s i < 32"
proof -
  have "i mod 4 < 4" by simp
  then have "i mod 4 = 0 \<or> i mod 4 = 1 \<or> i mod 4 = 2 \<or> i mod 4 = 3" by linarith
  then show "0 < rfc_s i" "rfc_s i < 32" by (auto simp: rfc_s_def)
qed

lemma md5_SET_step:
  assumes "i < 64"
  shows "md5_SET (rfc_f i) X a b c d (md5_call i) =
    b + word_rotl (rfc_s i) (a + rfc_f i b c d + rfc_K ! i + X ! rfc_k i)"
  using ROTATE_LEFT_rotl [OF rfc_s_bounds [OF assms]]
  by (simp add: md5_SET_def md5_call_def md5_T_is_K add.commute add.left_commute)

lemma md5_round_steps:
  assumes "\<And>j. i \<le> j \<Longrightarrow> j < i + 4 * n \<Longrightarrow> f = rfc_f j" "i + 4 * n \<le> 64"
  shows "md5_round f X (map md5_call [i..<i + 4 * n]) regs = fold (rfc_step X) [i..<i + 4 * n] regs"
  using assms
proof (induction n arbitrary: i regs)
  case (Suc n)
  obtain a b c d where regs: "regs = (a, b, c, d)" by (metis prod.exhaust)
  have f: "f = rfc_f i" "f = rfc_f (i + 1)" "f = rfc_f (i + 2)" "f = rfc_f (i + 3)"
    by (rule Suc.prems(1); simp)+
  have u: "[i..<i + 4 * Suc n] = i # (i + 1) # (i + 2) # (i + 3) # [i + 4..<(i + 4) + 4 * n]"
    by (simp add: upt_conv_Cons numeral_eq_Suc)
  have step: "rfc_step X j (p, q, r, s) = (s, md5_SET f X p q r s (md5_call j), q, r)"
    if "f = rfc_f j" "j < 64" for j p q r s
    unfolding that(1) md5_SET_step [OF that(2)] by (simp add: rfc_step_def)
  have steps: "rfc_step X i (p, q, r, s) = (s, md5_SET f X p q r s (md5_call i), q, r)"
    "rfc_step X (i + 1) (p, q, r, s) = (s, md5_SET f X p q r s (md5_call (i + 1)), q, r)"
    "rfc_step X (i + 2) (p, q, r, s) = (s, md5_SET f X p q r s (md5_call (i + 2)), q, r)"
    "rfc_step X (i + 3) (p, q, r, s) = (s, md5_SET f X p q r s (md5_call (i + 3)), q, r)" for p q r s
    using step [OF f(1)] step [OF f(2)] step [OF f(3)] step [OF f(4)] Suc.prems(2) by simp_all
  have IH: "md5_round f X (map md5_call [i + 4..<(i + 4) + 4 * n]) regs' = fold (rfc_step X) [i + 4..<(i + 4) + 4 * n] regs'"
    for regs' using Suc.prems by (intro Suc.IH) auto
  show ?case
    unfolding u regs list.map md5_round.simps Let_def IH fold_simps steps ..
qed simp

lemma md5_process_rfc: "md5_process abcd data = rfc_compress abcd data"
proof -
  let ?X = "map (\<lambda>i. le_word (take 4 (drop (4 * i) data))) [0..<16]"
  have f: "md5_F = rfc_f j" if "j < 0 + 4 * 4" for j using that by (simp add: fun_eq_iff rfc_f_def md5_F_def)
  have g: "md5_G = rfc_f j" if "16 \<le> j" "j < 16 + 4 * 4" for j using that by (simp add: fun_eq_iff rfc_f_def md5_G_def)
  have h: "md5_H = rfc_f j" if "32 \<le> j" "j < 32 + 4 * 4" for j using that by (simp add: fun_eq_iff rfc_f_def md5_H_def)
  have k: "md5_I = rfc_f j" if "48 \<le> j" "j < 48 + 4 * 4" for j using that by (simp add: fun_eq_iff rfc_f_def md5_I_def)
  have "md5_round md5_I X md5_calls4 (md5_round md5_H X md5_calls3 (md5_round md5_G X md5_calls2
      (md5_round md5_F X md5_calls1 regs))) = fold (rfc_step X) [0..<64] regs" for X regs
  proof -
    have "[0..<64] = [0..<0 + 4 * 4] @ [16..<16 + 4 * 4] @ [32..<32 + 4 * 4] @ [48..<48 + 4 * (4 :: nat)]"
      by (simp add: upt_rec)
    then show ?thesis
      by (simp only: md5_calls md5_round_steps [OF f] md5_round_steps [OF g] md5_round_steps [OF h] md5_round_steps [OF k]
        fold_append comp_apply)
  qed
  then show ?thesis by (simp add: md5_process_def rfc_compress_def Let_def)
qed

section \<open>The operations follow the message\<close>

definition md5_h0 :: "u32 list" where
  "md5_h0 = [0x67452301, 0xEFCDAB89, 0x98BADCFE, 0x10325476]"

definition md5_rel :: "md5_state \<Rightarrow> byte list \<Rightarrow> bool" where
  "md5_rel pms m \<longleftrightarrow> absorbed md5_process md5_h0 m (md_abcd pms) (md_buf pms) \<and>
     counts (length m) (md_count0 pms) (md_count1 pms)"

lemma md5_blocks_absorb: "md5_blocks h m = (absorb md5_process h m, left_over m)"
proof (induction h m rule: md5_blocks.induct)
  case (1 h m)
  show ?case
  proof (cases "64 \<le> length m")
    case True
    then have "absorb md5_process h m = absorb md5_process (md5_process h (take 64 m)) (drop 64 m)"
      by (subst absorb.simps) simp
    then show ?thesis using 1 True by (subst md5_blocks.simps) (simp add: left_over_block)
  next
    case False
    then show ?thesis by (subst md5_blocks.simps) (simp add: absorb_short left_over_short)
  qed
qed

text \<open>A call that starts with \<open>m\<close> absorbed in whole blocks takes in the rest.\<close>

lemma md5_append_rest_rel:
  assumes "length (md_buf pms) = 64"
  shows "\<exists>pms'. md5_append_rest pms p = Some pms' \<and> md_abcd pms' = absorb md5_process (md_abcd pms) p \<and>
    md_buf pms' = left_over p @ drop (length p mod 64) (md_buf pms) \<and>
    md_count0 pms' = md_count0 pms \<and> md_count1 pms' = md_count1 pms"
proof (cases "left_over p = []")
  case True
  then have "length p mod 64 = 0" by (metis length_left_over list.size(3))
  then show ?thesis using True by (simp add: md5_append_rest_def md5_blocks_absorb)
next
  case False
  then show ?thesis
    using assms by (simp add: md5_append_rest_def md5_blocks_absorb mem_write_ok)
qed

lemma md5_append_rel:
  assumes "md5_rel pms m" "length xs < 268435456"
  shows "\<exists>pms'. md5_append pms xs = Some pms' \<and> md5_rel pms' (m @ xs)"
proof (cases "xs = []")
  case True
  then show ?thesis using assms(1) by (simp add: md5_append_def)
next
  case False
  let ?j = "length m mod 64"
  let ?nbits = "of_nat (8 * length xs) :: u32"
  let ?c0 = "md_count0 pms + ?nbits"
  let ?c1 = "md_count1 pms + of_nat (length xs div 2 ^ 29)"
  let ?pms = "pms\<lparr>md_count0 := ?c0, md_count1 := if ?c0 < ?nbits then ?c1 + 1 else ?c1\<rparr>"
  have abs: "absorbed md5_process md5_h0 m (md_abcd pms) (md_buf pms)" and buf: "length (md_buf pms) = 64"
    using assms(1) by (simp_all add: md5_rel_def absorbed_def)
  have counts: "counts (length (m @ xs)) (md_count0 ?pms) (md_count1 ?pms)"
  proof -
    have "length xs < 2 ^ 32" "counts (length m) (md_count0 pms) (md_count1 pms)"
      using assms by (simp_all add: md5_rel_def)
    from counts_add(2) [OF this(2,1) refl, unfolded count_words [OF this(1)]] show ?thesis by simp
  qed
  have j: "unat (drop_bit 3 (md_count0 pms) AND 63) = ?j"
    using assms(1) by (intro counts_position) (auto simp: md5_rel_def)
  have small: "\<not> 2147483648 \<le> 8 * length xs" using assms(2) by simp
  show ?thesis
  proof (cases "?j = 0")
    case True
    then have "md5_append pms xs = md5_append_rest ?pms xs"
      using False small unfolding md5_append_def Let_def j by simp
    moreover obtain pms' where "md5_append_rest ?pms xs = Some pms'" "md_abcd pms' = absorb md5_process (md_abcd pms) xs"
      "md_buf pms' = left_over xs @ drop (length xs mod 64) (md_buf pms)"
      "md_count0 pms' = md_count0 ?pms" "md_count1 pms' = md_count1 ?pms"
      using md5_append_rest_rel [of ?pms xs] buf by auto
    ultimately show ?thesis using absorbed_aligned [OF abs True buf, of xs] counts by (simp add: md5_rel_def)
  next
    case off: False
    show ?thesis
    proof (cases "?j + length xs < 64")
      case True
      then have "md5_append pms xs = Some (?pms\<lparr>md_buf := take ?j (md_buf pms) @ xs @ drop (?j + length xs) (md_buf pms)\<rparr>)"
        using False small off buf unfolding md5_append_def Let_def j by (simp add: mem_read_ok mem_write_ok)
      then show ?thesis using absorbed_more [OF abs True] counts by (simp add: md5_rel_def)
    next
      case full: False
      let ?d = "take (64 - ?j) xs" and ?rest = "drop (64 - ?j) xs"
      let ?buf = "take ?j (md_buf pms) @ ?d"
      have j64: "?j < 64" by simp
      have lens: "length ?d = 64 - ?j" "length ?buf = 64" using full buf j64 by simp_all
      have n: "(if ?j + length xs > 64 then 64 - ?j else length xs) = 64 - ?j"
      proof -
        have "(if j + l > 64 then 64 - j else l) = 64 - j" if "\<not> j + l < 64" for j l :: nat using that by simp arith
        then show ?thesis using full by blast
      qed
      have d: "mem_read xs 0 (64 - ?j) = Some ?d" using full by (simp add: mem_read_ok)
      have w: "mem_write (md_buf pms) ?j ?d = Some ?buf" using lens buf j64 by (simp add: mem_write_ok)
      let ?pms1 = "?pms\<lparr>md_buf := ?buf, md_abcd := md5_process (md_abcd pms) ?buf\<rparr>"
      have a: "md5_append pms xs = md5_append_rest ?pms1 ?rest"
        using False small off j64 d w unfolding md5_append_def Let_def j n by simp
      obtain pms' where p: "md5_append_rest ?pms1 ?rest = Some pms'"
        "md_abcd pms' = absorb md5_process (md5_process (md_abcd pms) ?buf) ?rest"
        "md_buf pms' = left_over ?rest @ drop (length ?rest mod 64) ?buf"
        "md_count0 pms' = md_count0 ?pms" "md_count1 pms' = md_count1 ?pms"
        using md5_append_rest_rel [of ?pms1 ?rest] lens(2) by auto
      have "absorbed md5_process md5_h0 (m @ ?d @ ?rest) (md_abcd pms') (md_buf pms')"
        unfolding p by (rule absorbed_full [OF abs lens])
      then show ?thesis using a p(1,4,5) counts by (simp add: md5_rel_def)
    qed
  qed
qed

lemma md5_start: "length buffer = 64 \<Longrightarrow> md5_rel (md5_init buffer) []"
  by (simp add: md5_rel_def md5_init_def md5_h0_def T_MASK_def absorbed_def absorb_short left_over_def counts_def)

lemma absorb_process:
  "length h = 4 \<Longrightarrow> absorb md5_process h m = absorb rfc_compress h m \<and> length (absorb md5_process h m) = 4"
proof (induction md5_process h m rule: absorb.induct)
  case (1 h m)
  have "length (md5_process h b) = 4" for b by (simp add: md5_process_def Let_def split: prod.split)
  then show ?case
  proof (cases "length m < 64")
    case False
    note IH = 1(1) [OF False \<open>length (md5_process h (take 64 m)) = 4\<close>]
    show ?thesis
      using conjunct1 [OF IH] conjunct2 [OF IH] False by (simp add: absorb.simps [of _ h m] md5_process_rfc)
  qed (use 1(2) in \<open>simp add: absorb_short\<close>)
qed

lemma unat_and63: "unat (x AND 63 :: u32) = unat x mod 64"
proof -
  have "(63 :: u32) = mask 6" by (simp add: mask_eq_exp_minus_1)
  then have "x AND 63 = take_bit 6 x" by (simp only: take_bit_eq_mask)
  then have "unat (x AND 63) = take_bit 6 (unat x)" by (simp only: unsigned_take_bit_eq)
  also have "\<dots> = unat x mod 64" by (simp add: take_bit_eq_mod)
  finally show ?thesis .
qed

text \<open>The length of the padding before the count.\<close>

lemma md5_pad_length:
  assumes "unat (w AND 63) = p" "unat w < 2 ^ 29"
  shows "unat ((55 - w :: u32) AND 63) = (119 - p) mod (64 :: nat)"
proof -
  define q where "q = unat w div 64"
  have p: "unat w = 64 * q + p" "p < 64" using assms(1) by (auto simp: unat_and63 q_def)
  have "unat (55 - w) mod 64 = (55 + (2 ^ 32 - unat w)) mod 64"
  proof (cases "unat w \<le> 55")
    case True
    then have "unat (55 - w) = 55 - unat w" "55 + (2 ^ 32 - unat w) = (55 - unat w) + 2 ^ 26 * 64"
      by (simp_all add: unat_sub_if' word_le_nat_alt)
    then show ?thesis by (simp only: mod_mult_self1)
  next
    case False
    then have "unat (55 - w) = 55 + (2 ^ 32 - unat w)"
      using assms(2) by (simp add: unat_sub_if' word_le_nat_alt)
    then show ?thesis by (simp only:)
  qed
  then have "unat ((55 - w) AND 63) = (55 + (2 ^ 32 - unat w)) mod 64" by (simp only: unat_and63)
  also have "55 + (2 ^ 32 - unat w) = (119 - p) + (2 ^ 26 - 1 - q) * 64" using p assms(2) by simp
  finally show ?thesis by (simp only: mod_mult_self1)
qed

lemma length_pads:
  assumes "counts n lo hi"
  shows "unat ((55 - drop_bit 3 lo) AND 63) + 1 = length (0x80 # replicate ((119 - n mod 64) mod 64) (0 :: byte))"
proof -
  have "unat (drop_bit 3 lo) = unat lo div 8" unfolding unat_drop_bit_eq by (simp add: drop_bit_eq_div)
  moreover have "unat lo < 2 ^ LENGTH(32)" by (rule unsigned_less)
  ultimately have "unat (drop_bit 3 lo) < 2 ^ 29" by simp
  from md5_pad_length [OF counts_position [OF assms] this] show ?thesis by simp
qed

lemma le_bytes_words:
  "le_bytes 4 (ucast (x :: u64) :: u32) @ le_bytes 4 (ucast (drop_bit 32 x) :: u32) = le_bytes 8 x"
proof -
  have "(ucast (drop_bit d (ucast x :: u32)) :: byte) = ucast (drop_bit d x)" if "d \<le> 24" for d
    using that by (intro bit_word_eqI) (auto simp: bit_simps)
  moreover have "(ucast (drop_bit d (ucast (drop_bit 32 x) :: u32)) :: byte) = ucast (drop_bit (32 + d) x)" if "d \<le> 24" for d
    using that by (intro bit_word_eqI) (auto simp: bit_simps ac_simps)
  moreover have "(ucast (ucast y :: u32) :: byte) = ucast y" for y :: u64
    by (rule bit_word_eqI) (auto simp: bit_simps)
  ultimately show ?thesis by (simp add: le_bytes_def upt_rec)
qed

lemma four_words:
  assumes "length r = 4"
  obtains a b c d where "r = [a, b, c, d]"
  using assms by (auto simp: length_Suc_conv eval_nat_numeral)

lemma md5_finish_rel:
  assumes "md5_rel pms m" "length m + 128 < 2 ^ 61"
  shows "md5_finish pms = Some (rfc_md5 m)"
proof -
  let ?n = "length m"
  let ?pad = "0x80 # replicate ((119 - ?n mod 64) mod 64) (0 :: byte)"
  let ?count = "le_bytes 4 (md_count0 pms) @ le_bytes 4 (md_count1 pms)"
  have counts: "counts ?n (md_count0 pms) (md_count1 pms)" using assms(1) by (simp add: md5_rel_def)
  have data: "map (\<lambda>i. ucast (drop_bit (8 * (i mod 4)) (if i < 4 then md_count0 pms else md_count1 pms))) [0..<8] = ?count"
    by (simp add: le_bytes_def upt_rec)
  have z: "(119 - ?n mod 64) mod 64 \<le> 63" using mod_less_divisor [of 64 "119 - ?n mod 64"] by linarith
  then have pad: "mem_read md5_pad 0 (unat ((55 - drop_bit 3 (md_count0 pms)) AND 63) + 1) = Some ?pad"
    unfolding length_pads [OF counts] by (simp add: mem_read_ok md5_pad_def)
  obtain p1 where p1: "md5_append pms ?pad = Some p1" "md5_rel p1 (m @ ?pad)"
    using md5_append_rel [OF assms(1), of ?pad] z by auto
  obtain p2 where p2: "md5_append p1 ?count = Some p2" "md5_rel p2 ((m @ ?pad) @ ?count)"
    using md5_append_rel [OF p1(2), of ?count] by auto
  have "?pad @ ?count = rfc_pad ?n"
    using counts_u64 [OF counts] assms(2) le_bytes_words [of "of_nat (8 * ?n)"] by (simp add: rfc_pad_def)
  then have "md_abcd p2 = absorb md5_process md5_h0 (m @ rfc_pad ?n)"
    using p2(2) by (simp add: md5_rel_def absorbed_def)
  moreover have "length md5_h0 = 4" by (simp add: md5_h0_def)
  ultimately have st: "md_abcd p2 = absorb rfc_compress md5_h0 (m @ rfc_pad ?n)" "length (md_abcd p2) = 4"
    using absorb_process [of md5_h0 "m @ rfc_pad ?n"] by metis+
  obtain a b c d where "md_abcd p2 = [a, b, c, d]" by (rule four_words [OF st(2)])
  then have "map (\<lambda>i. ucast (drop_bit (8 * (i mod 4)) (md_abcd p2 ! (i div 4)))) [0..<16] = concat (map (le_bytes 4) (md_abcd p2))"
    by (simp add: le_bytes_def upt_rec)
  then show ?thesis
    unfolding md5_finish_def Let_def data pad using p1(1) p2(1) st(1) by (simp add: rfc_md5_def md5_h0_def)
qed

interpretation md5: hash_stream md5_rel "\<lambda>s. \<exists>buffer. length buffer = 64 \<and> s = md5_init buffer"
    md5_append md5_finish rfc_md5 "268435455"
  by unfold_locales (auto simp: md5_start md5_finish_rel intro!: md5_append_rel)

text \<open>C33. The streaming MD5 is the digest of RFC 1321: a message handed to \<open>md5_append\<close> in any pieces below
  256 MB and closed by \<open>md5_finish\<close> yields the RFC's digest of the whole message, whatever the buffer
  held before.\<close>

theorem md5_is_rfc1321:
  assumes "length buffer = 64" "list_all (\<lambda>xs. length xs < 268435456) chunks"
    "length (concat chunks) + 128 < 2 ^ 61"
  shows "Option.bind (feed md5_append (md5_init buffer) chunks) md5_finish = Some (rfc_md5 (concat chunks))"
proof (rule md5.digest)
  show "list_all (\<lambda>xs. length xs \<le> 268435455) chunks"
    using assms(2) by (rule list.pred_mono_strong) simp
qed (use assms in auto)

theorem md5_is_rfc1321_witness:
  "Option.bind (feed md5_append (md5_init (replicate 64 0xFF)) [[0x61, 0x62], [], [0x63]]) md5_finish =
     Some (rfc_md5 [0x61, 0x62, 0x63])"
  using md5_is_rfc1321 [of "replicate 64 0xFF" "[[0x61, 0x62], [], [0x63]]"] by simp

end
