(* ===== verification/Qsort2.thy ===== *)
theory Qsort2
  imports Prelude "HOL-Library.Monad_Syntax" "HOL-Library.Multiset"
begin

text \<open>
  The quicksort with an explicit stack of \<open>qsort2.c\<close>, its typed front end \<open>c++/quicksort.h\<close> and the
  binary searches of \<open>c++/bsearch.h\<close>. The array is the list of its elements and a pointer the index of
  the element it points to (the code moves pointers by \<open>size\<close> only, and copies whole elements byte by
  byte); a pointer may leave the array, an access there is undefined (\<open>None\<close>).
\<close>

section \<open>The sorting function\<close>

definition rd :: "'a list \<Rightarrow> int \<Rightarrow> 'a option" where
  "rd xs i = (if 0 \<le> i \<and> nat i < length xs then Some (xs ! nat i) else None)"

definition SWAP :: "'a list \<Rightarrow> int \<Rightarrow> int \<Rightarrow> 'a list option" where
  "SWAP xs i j = do { a \<leftarrow> rd xs i; b \<leftarrow> rd xs j; Some (xs[nat i := b, nat j := a]) }"

text \<open>\<open>(*cmp)(i, j, user) < 0\<close>.\<close>

definition cmp_lt :: "('a \<Rightarrow> 'a \<Rightarrow> int) \<Rightarrow> 'a list \<Rightarrow> int \<Rightarrow> int \<Rightarrow> bool option" where
  "cmp_lt cmp xs i j = do { a \<leftarrow> rd xs i; b \<leftarrow> rd xs j; Some (cmp a b < 0) }"

definition MAX_THRESH :: int where
  "MAX_THRESH = 4"

definition STACK_SIZE :: nat where
  "STACK_SIZE = 64"

text \<open>The median of three.\<close>

definition median :: "('a \<Rightarrow> 'a \<Rightarrow> int) \<Rightarrow> 'a list \<Rightarrow> int \<Rightarrow> int \<Rightarrow> ('a list \<times> int) option" where
  "median cmp xs lo hi = do {
     let mid = lo + (hi - lo) div 2;
     c \<leftarrow> cmp_lt cmp xs mid lo;
     xs \<leftarrow> (if c then SWAP xs mid lo else Some xs);
     c \<leftarrow> cmp_lt cmp xs hi mid;
     if c then do {
       xs \<leftarrow> SWAP xs mid hi;
       c \<leftarrow> cmp_lt cmp xs mid lo;
       xs \<leftarrow> (if c then SWAP xs mid lo else Some xs);
       Some (xs, mid)
     } else Some (xs, mid)
   }"

text \<open>\<open>while (cmp(left_ptr, mid) < 0) left_ptr += size\<close>, and the loops the other way.\<close>

partial_function (option) scan_up :: "('a \<Rightarrow> 'a \<Rightarrow> int) \<Rightarrow> 'a list \<Rightarrow> int \<Rightarrow> int \<Rightarrow> int option" where
  [code]: "scan_up cmp xs mid left_ptr = do {
     c \<leftarrow> cmp_lt cmp xs left_ptr mid;
     if c then scan_up cmp xs mid (left_ptr + 1) else Some left_ptr
   }"

partial_function (option) scan_down :: "('a \<Rightarrow> 'a \<Rightarrow> int) \<Rightarrow> 'a list \<Rightarrow> int \<Rightarrow> int \<Rightarrow> int option" where
  [code]: "scan_down cmp xs mid right_ptr = do {
     c \<leftarrow> cmp_lt cmp xs mid right_ptr;
     if c then scan_down cmp xs mid (right_ptr - 1) else Some right_ptr
   }"

text \<open>The loop that collapses the walls: the array and the two pointers.\<close>

partial_function (option) collapse :: "('a \<Rightarrow> 'a \<Rightarrow> int) \<Rightarrow> 'a list \<Rightarrow> int \<Rightarrow> int \<Rightarrow> int \<Rightarrow> ('a list \<times> int \<times> int) option" where
  [code]: "collapse cmp xs mid left_ptr right_ptr = do {
     left_ptr \<leftarrow> scan_up cmp xs mid left_ptr;
     right_ptr \<leftarrow> scan_down cmp xs mid right_ptr;
     if left_ptr < right_ptr then do {
       xs \<leftarrow> SWAP xs left_ptr right_ptr;
       if left_ptr + 1 \<le> right_ptr - 1
       then collapse cmp xs (if mid = left_ptr then right_ptr else if mid = right_ptr then left_ptr else mid)
              (left_ptr + 1) (right_ptr - 1)
       else Some (xs, left_ptr + 1, right_ptr - 1)
     }
     else if left_ptr = right_ptr then Some (xs, left_ptr + 1, right_ptr - 1)
     else Some (xs, left_ptr, right_ptr)
   }"

text \<open>\<open>(size_t)(distance) <= max_thresh\<close>: a negative distance is a huge \<open>size_t\<close>.\<close>

definition small_span :: "int \<Rightarrow> bool" where
  "small_span d \<longleftrightarrow> d mod 2 ^ 64 \<le> MAX_THRESH"

definition PUSH :: "int \<times> int \<Rightarrow> (int \<times> int) list \<Rightarrow> (int \<times> int) list option" where
  "PUSH node stack = (if length stack < STACK_SIZE then Some (node # stack) else None)"

text \<open>The pointers for the next iteration: the stack, \<open>lo\<close> and \<open>hi\<close>.\<close>

definition next_part :: "int \<Rightarrow> int \<Rightarrow> int \<Rightarrow> int \<Rightarrow> (int \<times> int) list \<Rightarrow> ((int \<times> int) list \<times> int \<times> int) option" where
  "next_part lo hi left_ptr right_ptr stack =
     (if small_span (right_ptr - lo)
      then if small_span (hi - left_ptr)
           then (case stack of [] \<Rightarrow> None | (l, h) # stack \<Rightarrow> Some (stack, l, h))
           else Some (stack, left_ptr, hi)
      else if small_span (hi - left_ptr) then Some (stack, lo, right_ptr)
      else if right_ptr - lo > hi - left_ptr
           then do { stack \<leftarrow> PUSH (lo, right_ptr) stack; Some (stack, left_ptr, hi) }
           else do { stack \<leftarrow> PUSH (left_ptr, hi) stack; Some (stack, lo, right_ptr) })"

text \<open>One turn of the loop, and the loop, which ends when the stack is empty.\<close>

definition qs_turn :: "('a \<Rightarrow> 'a \<Rightarrow> int) \<Rightarrow> 'a list \<Rightarrow> int \<Rightarrow> int \<Rightarrow> (int \<times> int) list \<Rightarrow>
    ('a list \<times> (int \<times> int) list \<times> int \<times> int) option" where
  "qs_turn cmp xs lo hi stack = do {
     (xs, mid) \<leftarrow> median cmp xs lo hi;
     (xs, left_ptr, right_ptr) \<leftarrow> collapse cmp xs mid (lo + 1) (hi - 1);
     (stack, lo, hi) \<leftarrow> next_part lo hi left_ptr right_ptr stack;
     Some (xs, stack, lo, hi)
   }"

partial_function (option) qs_loop :: "('a \<Rightarrow> 'a \<Rightarrow> int) \<Rightarrow> 'a list \<Rightarrow> int \<Rightarrow> int \<Rightarrow> (int \<times> int) list \<Rightarrow> 'a list option" where
  [code]: "qs_loop cmp xs lo hi stack =
     (if stack \<noteq> []
      then do { (xs, stack, lo, hi) \<leftarrow> qs_turn cmp xs lo hi stack; qs_loop cmp xs lo hi stack }
      else Some xs)"

text \<open>The insertion sort: the smallest of the first elements, and the moves that let an element in.\<close>

partial_function (option) find_min :: "('a \<Rightarrow> 'a \<Rightarrow> int) \<Rightarrow> 'a list \<Rightarrow> int \<Rightarrow> int \<Rightarrow> int \<Rightarrow> int option" where
  [code]: "find_min cmp xs run_ptr thresh tmp_ptr =
     (if run_ptr \<le> thresh
      then do {
        c \<leftarrow> cmp_lt cmp xs run_ptr tmp_ptr;
        find_min cmp xs (run_ptr + 1) thresh (if c then run_ptr else tmp_ptr)
      }
      else Some tmp_ptr)"

partial_function (option) shift_in :: "'a list \<Rightarrow> int \<Rightarrow> int \<Rightarrow> 'a \<Rightarrow> 'a list option" where
  [code]: "shift_in xs hi tmp_ptr c =
     (if tmp_ptr \<le> hi - 1
      then do { v \<leftarrow> rd xs (hi - 1); shift_in (xs[nat hi := v]) (hi - 1) tmp_ptr c }
      else Some (xs[nat hi := c]))"

partial_function (option) insert_loop :: "('a \<Rightarrow> 'a \<Rightarrow> int) \<Rightarrow> 'a list \<Rightarrow> int \<Rightarrow> int \<Rightarrow> 'a list option" where
  [code]: "insert_loop cmp xs run_ptr end_ptr =
     (if run_ptr \<le> end_ptr
      then do {
        tmp_ptr \<leftarrow> scan_down cmp xs run_ptr (run_ptr - 1);
        xs \<leftarrow> (if tmp_ptr + 1 \<noteq> run_ptr
              then do { c \<leftarrow> rd xs run_ptr; shift_in xs run_ptr (tmp_ptr + 1) c } else Some xs);
        insert_loop cmp xs (run_ptr + 1) end_ptr
      }
      else Some xs)"

definition qsort2 :: "('a \<Rightarrow> 'a \<Rightarrow> int) \<Rightarrow> 'a list \<Rightarrow> 'a list option" where
  "qsort2 cmp xs =
     (let total_elems = int (length xs); end_ptr = total_elems - 1
      in if total_elems = 0 then Some xs
         else do {
           xs \<leftarrow> (if total_elems > MAX_THRESH
                 then do { stack \<leftarrow> PUSH (0, 0) []; qs_loop cmp xs 0 end_ptr stack }
                 else Some xs);
           tmp_ptr \<leftarrow> find_min cmp xs 1 (min end_ptr MAX_THRESH) 0;
           xs \<leftarrow> (if tmp_ptr \<noteq> 0 then SWAP xs tmp_ptr 0 else Some xs);
           insert_loop cmp xs 2 end_ptr
         })"

section \<open>The array and its accesses\<close>

abbreviation elt :: "'a list \<Rightarrow> int \<Rightarrow> 'a" where
  "elt xs i \<equiv> xs ! nat i"

abbreviation inside :: "'a list \<Rightarrow> int \<Rightarrow> bool" where
  "inside xs i \<equiv> 0 \<le> i \<and> i < int (length xs)"

lemma rd_inside [simp]: "inside xs i \<Longrightarrow> rd xs i = Some (elt xs i)"
  by (simp add: rd_def nat_less_iff)

lemma cmp_lt_inside [simp]:
  "inside xs i \<Longrightarrow> inside xs j \<Longrightarrow> cmp_lt cmp xs i j = Some (cmp (elt xs i) (elt xs j) < 0)"
  by (simp add: cmp_lt_def)

text \<open>The array \<open>ys\<close> holds the elements of \<open>xs\<close>, moved only between the indices from \<open>lo\<close> to \<open>hi\<close>.\<close>

definition moved :: "int \<Rightarrow> int \<Rightarrow> 'a list \<Rightarrow> 'a list \<Rightarrow> bool" where
  "moved lo hi xs ys \<longleftrightarrow> length ys = length xs \<and> mset ys = mset xs \<and>
     (\<forall>k. 0 \<le> k \<and> (k < lo \<or> hi < k) \<longrightarrow> elt ys k = elt xs k) \<and>
     (\<forall>k. lo \<le> k \<and> k \<le> hi \<longrightarrow> (\<exists>i. lo \<le> i \<and> i \<le> hi \<and> elt ys k = elt xs i))"

lemma moved_refl [simp]: "moved lo hi xs xs"
  by (auto simp: moved_def)

lemma moved_trans: "moved lo hi xs ys \<Longrightarrow> moved lo hi ys zs \<Longrightarrow> moved lo hi xs zs"
  unfolding moved_def by (metis (no_types, lifting))

lemma moved_length: "moved lo hi xs ys \<Longrightarrow> length ys = length xs"
  by (simp add: moved_def)

lemma moved_outside: "moved lo hi xs ys \<Longrightarrow> 0 \<le> k \<Longrightarrow> k < lo \<or> hi < k \<Longrightarrow> elt ys k = elt xs k"
  by (auto simp: moved_def)

lemma moved_from: "moved lo hi xs ys \<Longrightarrow> lo \<le> k \<Longrightarrow> k \<le> hi \<Longrightarrow> \<exists>i. lo \<le> i \<and> i \<le> hi \<and> elt ys k = elt xs i"
  by (auto simp: moved_def)

lemma SWAP_moved:
  assumes "0 \<le> lo" "lo \<le> i" "i \<le> hi" "lo \<le> j" "j \<le> hi" "hi < int (length xs)"
  obtains ys where "SWAP xs i j = Some ys" "moved lo hi xs ys" "elt ys i = elt xs j" "elt ys j = elt xs i"
    "\<And>k. 0 \<le> k \<Longrightarrow> k \<noteq> i \<Longrightarrow> k \<noteq> j \<Longrightarrow> elt ys k = elt xs k"
proof -
  let ?ys = "xs[nat i := elt xs j, nat j := elt xs i]"
  have n: "nat i < length xs" "nat j < length xs" using assms by simp_all
  have s: "SWAP xs i j = Some ?ys" using assms by (simp add: SWAP_def)
  have e: "elt ?ys i = elt xs j" "elt ?ys j = elt xs i" using n by (simp_all add: nth_list_update)
  have o: "elt ?ys k = elt xs k" if "0 \<le> k" "k \<noteq> i" "k \<noteq> j" for k
    using that assms by (simp add: nth_list_update nat_eq_iff)
  have "\<exists>i'. lo \<le> i' \<and> i' \<le> hi \<and> elt ?ys k = elt xs i'" if "lo \<le> k" "k \<le> hi" for k
    using that e o [of k] assms by (cases "k = i"; cases "k = j") (blast, metis, metis, metis order_trans)
  moreover have "elt ?ys k = elt xs k" if "0 \<le> k" "k < lo \<or> hi < k" for k
    using that assms by (intro o) auto
  moreover have "mset ?ys = mset xs" using mset_swap [OF n(2,1)] by simp
  ultimately have "moved lo hi xs ?ys" by (simp add: moved_def)
  then show ?thesis using that s e o by blast
qed

text \<open>The order a comparison function gives.\<close>

definition le_by :: "('a \<Rightarrow> 'a \<Rightarrow> int) \<Rightarrow> 'a \<Rightarrow> 'a \<Rightarrow> bool" where
  "le_by cmp a b \<longleftrightarrow> \<not> cmp b a < 0"

section \<open>The stack of parts\<close>

text \<open>
  \<open>stack_ok N part stack\<close>: every part is at most half as wide as the one pushed before it, so the stack
  never has more entries than \<open>N\<close> has binary digits.
\<close>

fun stack_ok :: "int \<Rightarrow> int \<times> int \<Rightarrow> (int \<times> int) list \<Rightarrow> bool" where
  "stack_ok N (lo, hi) [] \<longleftrightarrow> hi - lo \<le> N"
| "stack_ok N (lo, hi) (part # stack) \<longleftrightarrow> (hi - lo) * 2 ^ Suc (length stack) \<le> N \<and> stack_ok N part stack"

lemma stack_ok_top: "stack_ok N (lo, hi) stack \<Longrightarrow> (hi - lo) * 2 ^ length stack \<le> N"
  by (cases stack) auto

lemma stack_ok_mono:
  "stack_ok N (lo, hi) stack \<Longrightarrow> hi' - lo' \<le> hi - lo \<Longrightarrow> stack_ok N (lo', hi') stack"
proof (cases stack)
  case (Cons part stack')
  assume a: "stack_ok N (lo, hi) stack" "hi' - lo' \<le> hi - lo"
  have "(hi' - lo') * 2 ^ Suc (length stack') \<le> (hi - lo) * 2 ^ Suc (length stack')"
    by (rule mult_right_mono [OF a(2)]) simp
  also have "\<dots> \<le> N" using a(1) Cons by simp
  finally show ?thesis using a(1) Cons by simp
qed auto

lemma stack_ok_push:
  assumes "stack_ok N (lo, hi) stack" "h1 - l1 \<le> hi - lo" "2 * (h2 - l2) \<le> hi - lo"
  shows "stack_ok N (l2, h2) ((l1, h1) # stack)"
proof -
  have "(h2 - l2) * 2 ^ Suc (length stack) = (2 * (h2 - l2)) * 2 ^ length stack" by simp
  also have "\<dots> \<le> (hi - lo) * 2 ^ length stack" by (rule mult_right_mono [OF assms(3)]) simp
  also have "\<dots> \<le> N" by (rule stack_ok_top [OF assms(1)])
  finally show ?thesis using stack_ok_mono [OF assms(1,2)] by simp
qed

lemma stack_ok_depth:
  assumes "stack_ok N (lo, hi) stack" "lo + 4 \<le> hi" "N < 2 ^ 64"
  shows "length stack < 62"
proof (rule ccontr)
  assume "\<not> length stack < 62"
  then have "(2 :: int) ^ 62 \<le> 2 ^ length stack" by (intro power_increasing) auto
  then have "4 * 2 ^ 62 \<le> (hi - lo) * 2 ^ length stack" using assms(2) by (intro mult_mono) auto
  also have "\<dots> \<le> N" by (rule stack_ok_top [OF assms(1)])
  finally show False using assms(3) by simp
qed

text \<open>The parts that are still to be split after a turn.\<close>

definition large :: "int \<times> int \<Rightarrow> bool" where
  "large part \<longleftrightarrow> snd part - fst part > MAX_THRESH"

lemma next_part_parts:
  assumes "lo \<le> r" "r < l" "l \<le> hi" "r < hi" "lo < l" "lo + 4 \<le> hi" "hi - lo \<le> N" "N < 2 ^ 64"
    and "stack_ok N (lo, hi) stk"
  defines "kids \<equiv> filter large [(lo, r), (l, hi)]"
  shows "kids = [] \<and> next_part lo hi l r (stk @ [base]) =
      (case stk @ [base] of [] \<Rightarrow> None | (a, b) # stack \<Rightarrow> Some (stack, a, b)) \<or>
    (\<exists>stk' a b. next_part lo hi l r (stk @ [base]) = Some (stk' @ [base], a, b) \<and>
      mset ((a, b) # stk') = mset kids + mset stk \<and> stack_ok N (a, b) stk')"
proof -
  have small: "small_span (r - lo) \<longleftrightarrow> \<not> large (lo, r)" "small_span (hi - l) \<longleftrightarrow> \<not> large (l, hi)"
    using assms(1-8) by (simp_all add: small_span_def large_def mod_pos_pos_trivial not_less)
  have push: "PUSH part (stk @ [base]) = Some ((part # stk) @ [base])" for part
    using stack_ok_depth [OF assms(9,6,8)] by (simp add: PUSH_def STACK_SIZE_def)
  consider "\<not> large (lo, r)" "\<not> large (l, hi)" | "\<not> large (lo, r)" "large (l, hi)" | "large (lo, r)" "\<not> large (l, hi)"
    | "large (lo, r)" "large (l, hi)" "r - lo > hi - l" | "large (lo, r)" "large (l, hi)" "\<not> r - lo > hi - l"
    by blast
  then show ?thesis
  proof cases
    case 1
    then show ?thesis by (simp add: kids_def next_part_def small)
  next
    case 2
    then have "next_part lo hi l r (stk @ [base]) = Some (stk @ [base], l, hi)" "kids = [(l, hi)]"
      by (simp_all add: next_part_def small kids_def)
    moreover have "stack_ok N (l, hi) stk" by (rule stack_ok_mono [OF assms(9)]) (use assms(5) in simp)
    ultimately show ?thesis by auto
  next
    case 3
    then have "next_part lo hi l r (stk @ [base]) = Some (stk @ [base], lo, r)" "kids = [(lo, r)]"
      by (simp_all add: next_part_def small kids_def)
    moreover have "stack_ok N (lo, r) stk" by (rule stack_ok_mono [OF assms(9)]) (use assms(4) in simp)
    ultimately show ?thesis by auto
  next
    case 4
    then have "next_part lo hi l r (stk @ [base]) = Some (((lo, r) # stk) @ [base], l, hi)" "kids = [(lo, r), (l, hi)]"
      by (simp_all add: next_part_def small kids_def push)
    moreover have "stack_ok N (l, hi) ((lo, r) # stk)"
      by (rule stack_ok_push [OF assms(9)]) (use assms(1-6) 4(3) in simp_all)
    ultimately show ?thesis by (intro disjI2 exI conjI) (assumption, auto)
  next
    case 5
    then have "next_part lo hi l r (stk @ [base]) = Some (((l, hi) # stk) @ [base], lo, r)" "kids = [(lo, r), (l, hi)]"
      by (simp_all add: next_part_def small kids_def push)
    moreover have "stack_ok N (lo, r) ((l, hi) # stk)"
      by (rule stack_ok_push [OF assms(9)]) (use assms(1-6) 5(3) in simp_all)
    ultimately show ?thesis by (intro disjI2 exI conjI) (assumption, auto)
  qed
qed

text \<open>The moves of the insertion sort rotate the elements from \<open>t\<close> to \<open>h\<close>.\<close>

lemma shift_in_rotates:
  "t \<le> h \<Longrightarrow> h < length xs \<Longrightarrow>
     shift_in xs (int h) (int t) c = Some (take t xs @ c # drop t (take h xs) @ drop (Suc h) xs)"
proof (induction h arbitrary: xs)
  case 0
  then show ?case by (subst shift_in.simps) (cases xs; simp)
next
  case (Suc h)
  show ?case
  proof (cases "t = Suc h")
    case True
    then show ?thesis using Suc.prems by (subst shift_in.simps) (simp add: upd_conv_take_nth_drop nat_add_distrib)
  next
    case False
    let ?xs = "xs[Suc h := xs ! h]"
    have t: "t \<le> h" "h < length xs" using False Suc.prems by simp_all
    have "shift_in xs (int (Suc h)) (int t) c = shift_in ?xs (int h) (int t) c"
      using t by (subst shift_in.simps) (simp add: rd_def nat_add_distrib)
    also have "\<dots> = Some (take t ?xs @ c # drop t (take h ?xs) @ drop (Suc h) ?xs)"
      using t by (intro Suc.IH) simp_all
    also have "drop (Suc h) ?xs = xs ! h # drop (Suc (Suc h)) xs"
      using Suc.prems(2) by (simp add: drop_update_swap Cons_nth_drop_Suc [symmetric])
    also have "take t ?xs = take t xs" using t by simp
    also have "take h ?xs = take h xs" by simp
    also have "drop t (take h xs) @ xs ! h # drop (Suc (Suc h)) xs = drop t (take (Suc h) xs) @ drop (Suc (Suc h)) xs"
      using t by (simp add: take_Suc_conv_app_nth)
    finally show ?thesis by simp
  qed
qed

section \<open>The sort is correct for every comparison that is an order\<close>

text \<open>What \<open>qsort2\<close> relies on: \<open>cmp\<close> compares like a total order of the elements up to equivalence.\<close>

locale comparator =
  fixes cmp :: "'a \<Rightarrow> 'a \<Rightarrow> int"
  assumes asym: "cmp a b < 0 \<Longrightarrow> \<not> cmp b a < 0"
    and trans: "le_by cmp a b \<Longrightarrow> le_by cmp b c \<Longrightarrow> le_by cmp a c"
begin

lemma le_refl [simp]: "le_by cmp a a"
  using asym [of a a] by (auto simp: le_by_def)

lemma less_le: "cmp a b < 0 \<Longrightarrow> le_by cmp a b"
  using asym [of a b] by (simp add: le_by_def)

lemma scan_up_finds:
  assumes "0 \<le> l" "l \<le> j" "j < int (length xs)" "le_by cmp (elt xs m) (elt xs j)" "inside xs m"
  obtains r where "scan_up cmp xs m l = Some r" "l \<le> r" "r \<le> j" "le_by cmp (elt xs m) (elt xs r)"
    "\<And>k. l \<le> k \<Longrightarrow> k < r \<Longrightarrow> le_by cmp (elt xs k) (elt xs m)"
proof -
  have "\<exists>r. scan_up cmp xs m l = Some r \<and> l \<le> r \<and> r \<le> j \<and> le_by cmp (elt xs m) (elt xs r) \<and>
      (\<forall>k. l \<le> k \<and> k < r \<longrightarrow> le_by cmp (elt xs k) (elt xs m))"
    using assms
  proof (induction "nat (j - l)" arbitrary: l)
    case 0
    then have "l = j" by simp
    then show ?case using 0 by (subst scan_up.simps) (auto simp: le_by_def)
  next
    case (Suc d)
    show ?case
    proof (cases "cmp (elt xs l) (elt xs m) < 0")
      case True
      then have "l \<noteq> j" using Suc.prems by (auto simp: le_by_def)
      then have "\<exists>r. scan_up cmp xs m (l + 1) = Some r \<and> l + 1 \<le> r \<and> r \<le> j \<and> le_by cmp (elt xs m) (elt xs r) \<and>
          (\<forall>k. l + 1 \<le> k \<and> k < r \<longrightarrow> le_by cmp (elt xs k) (elt xs m))"
        using Suc.hyps(2) Suc.prems by (intro Suc.hyps(1)) auto
      then obtain r where r: "scan_up cmp xs m (l + 1) = Some r" "l + 1 \<le> r" "r \<le> j" "le_by cmp (elt xs m) (elt xs r)"
        "\<forall>k. l + 1 \<le> k \<and> k < r \<longrightarrow> le_by cmp (elt xs k) (elt xs m)" by blast
      have "le_by cmp (elt xs k) (elt xs m)" if "l \<le> k" "k < r" for k
        using r(5) that less_le [OF True] by (cases "k = l") auto
      then show ?thesis using True r Suc.prems by (subst scan_up.simps) auto
    next
      case False
      then show ?thesis using Suc.prems by (subst scan_up.simps) (auto simp: le_by_def)
    qed
  qed
  then show ?thesis using that by blast
qed

lemma scan_down_finds:
  assumes "0 \<le> j" "j \<le> r" "r < int (length xs)" "le_by cmp (elt xs j) (elt xs m)" "inside xs m"
  obtains l where "scan_down cmp xs m r = Some l" "j \<le> l" "l \<le> r" "le_by cmp (elt xs l) (elt xs m)"
    "\<And>k. l < k \<Longrightarrow> k \<le> r \<Longrightarrow> cmp (elt xs m) (elt xs k) < 0"
proof -
  have "\<exists>l. scan_down cmp xs m r = Some l \<and> j \<le> l \<and> l \<le> r \<and> le_by cmp (elt xs l) (elt xs m) \<and>
      (\<forall>k. l < k \<and> k \<le> r \<longrightarrow> cmp (elt xs m) (elt xs k) < 0)"
    using assms
  proof (induction "nat (r - j)" arbitrary: r)
    case 0
    then have "r = j" by simp
    then show ?case using 0 by (subst scan_down.simps) (auto simp: le_by_def)
  next
    case (Suc d)
    show ?case
    proof (cases "cmp (elt xs m) (elt xs r) < 0")
      case True
      then have "r \<noteq> j" using Suc.prems by (auto simp: le_by_def)
      then have "\<exists>l. scan_down cmp xs m (r - 1) = Some l \<and> j \<le> l \<and> l \<le> r - 1 \<and> le_by cmp (elt xs l) (elt xs m) \<and>
          (\<forall>k. l < k \<and> k \<le> r - 1 \<longrightarrow> cmp (elt xs m) (elt xs k) < 0)"
        using Suc.hyps(2) Suc.prems by (intro Suc.hyps(1)) auto
      then obtain l where l: "scan_down cmp xs m (r - 1) = Some l" "j \<le> l" "l \<le> r - 1" "le_by cmp (elt xs l) (elt xs m)"
        "\<forall>k. l < k \<and> k \<le> r - 1 \<longrightarrow> cmp (elt xs m) (elt xs k) < 0" by blast
      have "cmp (elt xs m) (elt xs k) < 0" if "l < k" "k \<le> r" for k
        using l(5) that True by (cases "k = r") auto
      then show ?thesis using True l Suc.prems by (subst scan_down.simps) auto
    next
      case False
      then show ?thesis using Suc.prems by (subst scan_down.simps) (auto simp: le_by_def)
    qed
  qed
  then show ?thesis using that by blast
qed

lemma median_sorts:
  assumes "0 \<le> lo" "lo < hi" "hi < int (length xs)"
  obtains ys mid where "median cmp xs lo hi = Some (ys, mid)" "moved lo hi xs ys" "lo \<le> mid" "mid \<le> hi"
    "le_by cmp (elt ys lo) (elt ys mid)" "le_by cmp (elt ys mid) (elt ys hi)"
proof -
  define mid where "mid = lo + (hi - lo) div 2"
  have m: "lo \<le> mid" "mid < hi" using assms by (simp_all add: mid_def)
  note b = assms m
  obtain x1 where x1: "(if cmp (elt xs mid) (elt xs lo) < 0 then SWAP xs mid lo else Some xs) = Some x1"
    "moved lo hi xs x1" "le_by cmp (elt x1 lo) (elt x1 mid)"
  proof (cases "cmp (elt xs mid) (elt xs lo) < 0")
    case True
    obtain ys where "SWAP xs mid lo = Some ys" "moved lo hi xs ys" "elt ys mid = elt xs lo" "elt ys lo = elt xs mid"
      by (rule SWAP_moved [of lo mid hi lo xs]) (use b in auto)
    then show ?thesis using that [of ys] True less_le [OF True] by simp
  next
    case False
    then show ?thesis using that [of xs] by (simp add: le_by_def)
  qed
  have len: "length x1 = length xs" using x1(2) by (rule moved_length)
  show ?thesis
  proof (cases "cmp (elt x1 hi) (elt x1 mid) < 0")
    case False
    then have "median cmp xs lo hi = Some (x1, mid)"
      using x1(1) b len by (simp add: median_def mid_def [symmetric])
    then show ?thesis using that x1 False m by (auto simp: le_by_def)
  next
    case True
    obtain x2 where x2: "SWAP x1 mid hi = Some x2" "moved lo hi x1 x2" "elt x2 mid = elt x1 hi" "elt x2 hi = elt x1 mid"
      "\<And>k. 0 \<le> k \<Longrightarrow> k \<noteq> mid \<Longrightarrow> k \<noteq> hi \<Longrightarrow> elt x2 k = elt x1 k"
      by (rule SWAP_moved [of lo mid hi hi x1]) (use b len in auto)
    have len2: "length x2 = length xs" using moved_length [OF x2(2)] len by simp
    have lo2: "mid \<noteq> lo \<Longrightarrow> elt x2 lo = elt x1 lo" using b by (intro x2(5)) auto
    show ?thesis
    proof (cases "cmp (elt x2 mid) (elt x2 lo) < 0")
      case False
      then have "median cmp xs lo hi = Some (x2, mid)"
        using x1(1) x2(1) True b len len2 by (simp add: median_def mid_def [symmetric])
      moreover have "le_by cmp (elt x2 mid) (elt x2 hi)" using less_le [OF True] x2(3,4) by simp
      ultimately show ?thesis using that False m moved_trans [OF x1(2) x2(2)] by (auto simp: le_by_def)
    next
      case less: True
      obtain x3 where x3: "SWAP x2 mid lo = Some x3" "moved lo hi x2 x3" "elt x3 mid = elt x2 lo" "elt x3 lo = elt x2 mid"
        "\<And>k. 0 \<le> k \<Longrightarrow> k \<noteq> mid \<Longrightarrow> k \<noteq> lo \<Longrightarrow> elt x3 k = elt x2 k"
        by (rule SWAP_moved [of lo mid hi lo x2]) (use b len2 in auto)
      have "median cmp xs lo hi = Some (x3, mid)"
        using x1(1) x2(1) x3(1) True less b len len2 by (simp add: median_def mid_def [symmetric])
      moreover have "mid \<noteq> lo" using less by (auto simp: le_by_def dest: asym)
      moreover have "elt x3 hi = elt x2 hi" using b by (intro x3(5)) auto
      ultimately show ?thesis
        using that [of x3 mid] less_le [OF less] x1(3) x2(4) x3(3,4) lo2 m moved_trans [OF moved_trans [OF x1(2) x2(2)] x3(2)]
        by simp
    qed
  qed
qed

text \<open>
  The walls collapse: from the start on, everything before \<open>left_ptr\<close> is at most the pivot \<open>p\<close>,
  everything behind \<open>right_ptr\<close> at least \<open>p\<close>, and \<open>mid\<close> points to \<open>p\<close>.
\<close>

definition walls :: "int \<Rightarrow> int \<Rightarrow> 'a \<Rightarrow> 'a list \<Rightarrow> int \<Rightarrow> int \<Rightarrow> bool" where
  "walls lo hi p xs l r \<longleftrightarrow> lo < l \<and> r < hi \<and> l \<le> hi \<and> lo \<le> r \<and>
     (\<forall>k. lo \<le> k \<and> k < l \<longrightarrow> le_by cmp (elt xs k) p) \<and> (\<forall>k. r < k \<and> k \<le> hi \<longrightarrow> le_by cmp p (elt xs k))"

lemma walls_scan:
  assumes "walls lo hi (elt xs mid) xs l r" "l \<le> r + 1" "0 \<le> lo" "hi < int (length xs)" "lo \<le> mid" "mid \<le> hi"
  obtains l' r' where "scan_up cmp xs mid l = Some l'" "scan_down cmp xs mid r = Some r'"
    "walls lo hi (elt xs mid) xs l' r'" "l \<le> l'" "r' \<le> r" "l' \<le> r + 1" "l - 1 \<le> r'"
    "le_by cmp (elt xs mid) (elt xs l')" "le_by cmp (elt xs r') (elt xs mid)"
proof -
  note w = assms(1) [unfolded walls_def]
  obtain l' where l': "scan_up cmp xs mid l = Some l'" "l \<le> l'" "l' \<le> r + 1" "le_by cmp (elt xs mid) (elt xs l')"
    "\<And>k. l \<le> k \<Longrightarrow> k < l' \<Longrightarrow> le_by cmp (elt xs k) (elt xs mid)"
    by (rule scan_up_finds [of l "r + 1" xs mid]) (use assms w in auto)
  obtain r' where r': "scan_down cmp xs mid r = Some r'" "l - 1 \<le> r'" "r' \<le> r" "le_by cmp (elt xs r') (elt xs mid)"
    "\<And>k. r' < k \<Longrightarrow> k \<le> r \<Longrightarrow> cmp (elt xs mid) (elt xs k) < 0"
    by (rule scan_down_finds [of "l - 1" r xs mid]) (use assms w in auto)
  have "le_by cmp (elt xs k) (elt xs mid)" if "lo \<le> k" "k < l'" for k
    using that w l'(5) [of k] by (cases "k < l") auto
  moreover have "le_by cmp (elt xs mid) (elt xs k)" if "r' < k" "k \<le> hi" for k
    using that w less_le [OF r'(5) [of k]] by (cases "k \<le> r") auto
  ultimately have "walls lo hi (elt xs mid) xs l' r'"
    using w l'(2,3) r'(2,3) by (auto simp: walls_def)
  then show ?thesis using that l' r' by blast
qed

lemma collapse_partitions:
  assumes "walls lo hi (elt xs mid) xs l r" "l \<le> r" "0 \<le> lo" "hi < int (length xs)" "lo \<le> mid" "mid \<le> hi"
  shows "\<exists>ys l' r'. collapse cmp xs mid l r = Some (ys, l', r') \<and> moved lo hi xs ys \<and>
    walls lo hi (elt xs mid) ys l' r' \<and> r' < l'"
  using assms
proof (induction "nat (r - l)" arbitrary: xs mid l r rule: less_induct)
  case less
  note pre = less.prems(3-6)
  let ?p = "elt xs mid"
  obtain l' r' where s: "scan_up cmp xs mid l = Some l'" "scan_down cmp xs mid r = Some r'"
    "walls lo hi ?p xs l' r'" "l \<le> l'" "r' \<le> r" "l' \<le> r + 1" "l - 1 \<le> r'"
    "le_by cmp ?p (elt xs l')" "le_by cmp (elt xs r') ?p"
    by (rule walls_scan [of lo hi xs mid l r]) (use less.prems in auto)
  note w = s(3) [unfolded walls_def] and w0 = less.prems(1) [unfolded walls_def]
  consider "l' < r'" | "l' = r'" | "r' < l'" by linarith
  then show ?case
  proof cases
    case 1
    obtain ys where ys: "SWAP xs l' r' = Some ys" "moved lo hi xs ys" "elt ys l' = elt xs r'" "elt ys r' = elt xs l'"
      "\<And>k. 0 \<le> k \<Longrightarrow> k \<noteq> l' \<Longrightarrow> k \<noteq> r' \<Longrightarrow> elt ys k = elt xs k"
      by (rule SWAP_moved [of lo l' hi r' xs]) (use 1 w pre in auto)
    let ?mid = "if mid = l' then r' else if mid = r' then l' else mid"
    have mid: "elt ys ?mid = ?p" "lo \<le> ?mid" "?mid \<le> hi"
      using ys(3,4) ys(5) [of mid] 1 w pre by auto
    have len: "length ys = length xs" using ys(2) by (rule moved_length)
    have "le_by cmp (elt ys k) ?p" if "lo \<le> k" "k < l' + 1" for k
      using that w s(9) ys(3) ys(5) [of k] 1 pre by (cases "k = l'") auto
    moreover have "le_by cmp ?p (elt ys k)" if "r' - 1 < k" "k \<le> hi" for k
      using that w s(8) ys(4) ys(5) [of k] 1 pre by (cases "k = r'") auto
    ultimately have walls: "walls lo hi ?p ys (l' + 1) (r' - 1)"
      using 1 w w0 s(4-7) by (auto simp: walls_def)
    show ?thesis
    proof (cases "l' + 1 \<le> r' - 1")
      case True
      have "\<exists>zs l'' r''. collapse cmp ys ?mid (l' + 1) (r' - 1) = Some (zs, l'', r'') \<and> moved lo hi ys zs \<and>
          walls lo hi (elt ys ?mid) zs l'' r'' \<and> r'' < l''"
        by (rule less.hyps) (use True 1 s(4,5) walls pre mid len in auto)
      then obtain zs l'' r'' where "collapse cmp ys ?mid (l' + 1) (r' - 1) = Some (zs, l'', r'')" "moved lo hi ys zs"
          "walls lo hi ?p zs l'' r''" "r'' < l''" unfolding mid(1) by blast
      moreover have "collapse cmp xs mid l r = collapse cmp ys ?mid (l' + 1) (r' - 1)"
        using s(1,2) ys(1) 1 True by (subst collapse.simps) simp
      ultimately show ?thesis
        by (intro exI [of _ zs] exI [of _ l''] exI [of _ r'']) (simp add: moved_trans [OF ys(2)])
    next
      case False
      then have "collapse cmp xs mid l r = Some (ys, l' + 1, r' - 1)"
        using s(1,2) ys(1) 1 by (subst collapse.simps) simp
      then show ?thesis using ys(2) walls False by auto
    qed
  next
    case 2
    have "le_by cmp (elt xs k) ?p" if "lo \<le> k" "k < l' + 1" for k
      using that w s(9) 2 by (cases "k = l'") auto
    moreover have "le_by cmp ?p (elt xs k)" if "r' - 1 < k" "k \<le> hi" for k
      using that w s(8) 2 by (cases "k = r'") auto
    ultimately have "walls lo hi ?p xs (l' + 1) (r' - 1)"
      using 2 w w0 s(4-7) by (auto simp: walls_def)
    moreover have "collapse cmp xs mid l r = Some (xs, l' + 1, r' - 1)"
      using s(1,2) 2 by (subst collapse.simps) simp
    ultimately show ?thesis using 2 by auto
  next
    case 3
    then have "collapse cmp xs mid l r = Some (xs, l', r')"
      using s(1,2) by (subst collapse.simps) simp
    then show ?thesis using s(3) 3 by auto
  qed
qed

text \<open>One turn of the loop splits the part between \<open>lo\<close> and \<open>hi\<close> in two.\<close>

lemma turn_partitions:
  assumes "0 \<le> lo" "lo + 4 \<le> hi" "hi < int (length xs)"
  obtains ys l r where "qs_turn cmp xs lo hi stack =
      map_option (\<lambda>(stack, lo, hi). (ys, stack, lo, hi)) (next_part lo hi l r stack)"
    "moved lo hi xs ys" "lo \<le> r" "r < l" "l \<le> hi" "r < hi" "lo < l"
    "\<And>i j. lo \<le> i \<Longrightarrow> i \<le> r \<Longrightarrow> r < j \<Longrightarrow> j \<le> hi \<Longrightarrow> le_by cmp (elt ys i) (elt ys j)"
proof -
  obtain x1 mid where m: "median cmp xs lo hi = Some (x1, mid)" "moved lo hi xs x1" "lo \<le> mid" "mid \<le> hi"
    "le_by cmp (elt x1 lo) (elt x1 mid)" "le_by cmp (elt x1 mid) (elt x1 hi)"
    by (rule median_sorts [of lo hi xs]) (use assms in auto)
  have "walls lo hi (elt x1 mid) x1 (lo + 1) (hi - 1)"
  proof -
    have "le_by cmp (elt x1 k) (elt x1 mid)" if "lo \<le> k" "k < lo + 1" for k
    proof -
      have "k = lo" using that by simp
      then show ?thesis using m(5) by simp
    qed
    moreover have "le_by cmp (elt x1 mid) (elt x1 k)" if "hi - 1 < k" "k \<le> hi" for k
    proof -
      have "k = hi" using that by simp
      then show ?thesis using m(6) by simp
    qed
    ultimately show ?thesis unfolding walls_def using assms by auto
  qed
  from collapse_partitions [OF this] obtain ys l r where c: "collapse cmp x1 mid (lo + 1) (hi - 1) = Some (ys, l, r)"
    "moved lo hi x1 ys" "walls lo hi (elt x1 mid) ys l r" "r < l"
    using assms m(3,4) moved_length [OF m(2)] by auto
  note w = c(3) [unfolded walls_def]
  show ?thesis
  proof (rule that)
    show "qs_turn cmp xs lo hi stack =
        map_option (\<lambda>(stack, lo, hi). (ys, stack, lo, hi)) (next_part lo hi l r stack)"
      using m(1) c(1) by (cases "next_part lo hi l r stack") (auto simp: qs_turn_def)
    show "moved lo hi xs ys" using m(2) c(2) by (rule moved_trans)
    show "le_by cmp (elt ys i) (elt ys j)" if "lo \<le> i" "i \<le> r" "r < j" "j \<le> hi" for i j
      by (rule trans [of _ "elt x1 mid"]) (use that w c(4) in auto)
  qed (use w c(4) in auto)
qed

text \<open>
  \<open>B\<close> splits the array: no element up to it is greater than one behind it. All parts still to be split
  lie behind \<open>B\<close>, except perhaps the part from \<open>0\<close> to \<open>B\<close> itself; once \<open>B\<close> is at most 4 that one is done.
\<close>

definition splits :: "'a list \<Rightarrow> int \<Rightarrow> bool" where
  "splits xs B \<longleftrightarrow> 0 \<le> B \<and> (\<forall>i j. 0 \<le> i \<and> i \<le> B \<and> B < j \<and> j < int (length xs) \<longrightarrow> le_by cmp (elt xs i) (elt xs j))"

definition parts_inv :: "'a list \<Rightarrow> (int \<times> int) multiset \<Rightarrow> bool" where
  "parts_inv xs M \<longleftrightarrow> (\<exists>B R. splits xs B \<and> (M = R \<and> B \<le> 4 \<or> M = add_mset (0, B) R) \<and>
     (\<forall>part \<in># R. B < fst part))"

lemma splits_moved:
  assumes "splits xs B" "moved lo hi xs ys" "B < lo" "hi < int (length xs)"
  shows "splits ys B"
proof -
  have "le_by cmp (elt ys i) (elt ys j)" if "0 \<le> i" "i \<le> B" "B < j" "j < int (length ys)" for i j
  proof -
    have i: "elt ys i = elt xs i" using that assms by (intro moved_outside [OF assms(2)]) auto
    have "\<exists>k. B < k \<and> k < int (length xs) \<and> elt ys j = elt xs k"
    proof (cases "lo \<le> j \<and> j \<le> hi")
      case True
      then obtain k where "lo \<le> k" "k \<le> hi" "elt ys j = elt xs k" using moved_from [OF assms(2), of j] by blast
      then show ?thesis using assms(3,4) by (intro exI [of _ k]) auto
    next
      case False
      then show ?thesis
        using that moved_outside [OF assms(2), of j] moved_length [OF assms(2)] by (intro exI [of _ j]) auto
    qed
    then show ?thesis using i that assms(1) by (auto simp: splits_def)
  qed
  then show ?thesis using assms(1) by (simp add: splits_def)
qed

lemma splits_narrows:
  assumes "splits xs B" "moved 0 B xs ys" "B < int (length xs)" "0 \<le> r" "r < B"
    "\<And>i j. 0 \<le> i \<Longrightarrow> i \<le> r \<Longrightarrow> r < j \<Longrightarrow> j \<le> B \<Longrightarrow> le_by cmp (elt ys i) (elt ys j)"
  shows "splits ys r"
proof -
  have "le_by cmp (elt ys i) (elt ys j)" if "0 \<le> i" "i \<le> r" "r < j" "j < int (length ys)" for i j
  proof (cases "j \<le> B")
    case False
    then have "elt ys j = elt xs j" using that assms(4) by (intro moved_outside [OF assms(2)]) auto
    moreover have "\<exists>k. 0 \<le> k \<and> k \<le> B \<and> elt ys i = elt xs k"
      by (rule moved_from [OF assms(2) that(1)]) (use that(2) assms(5) in simp)
    ultimately show ?thesis using False that assms(1) moved_length [OF assms(2)] by (auto simp: splits_def)
  qed (use that assms(6) in blast)
  then show ?thesis using assms(4) by (simp add: splits_def)
qed

lemma parts_inv_turn:
  assumes "parts_inv xs (add_mset (lo, hi) S)" "moved lo hi xs ys" "0 \<le> lo" "hi < int (length xs)"
    "lo \<le> r" "r < l" "l \<le> hi" "r < hi" "lo < l"
    "\<And>i j. lo \<le> i \<Longrightarrow> i \<le> r \<Longrightarrow> r < j \<Longrightarrow> j \<le> hi \<Longrightarrow> le_by cmp (elt ys i) (elt ys j)"
  shows "parts_inv ys (mset (filter large [(lo, r), (l, hi)]) + S)"
proof -
  let ?kids = "mset (filter large [(lo, r), (l, hi)])"
  obtain B R where R: "splits xs B" "add_mset (lo, hi) S = R \<and> B \<le> 4 \<or> add_mset (lo, hi) S = add_mset (0, B) R"
    "\<forall>part \<in># R. B < fst part"
    using assms(1) by (auto simp: parts_inv_def)
  show ?thesis
  proof (cases "B < lo")
    case True
    have B: "0 \<le> B" using R(1) by (simp add: splits_def)
    have s: "splits ys B" by (rule splits_moved [OF R(1) assms(2) True assms(4)])
    have kids: "B < fst part" if "part \<in># ?kids" for part
    proof -
      have "part = (lo, r) \<or> part = (l, hi)" using that by (auto split: if_splits)
      then show ?thesis using True assms(9) by auto
    qed
    from R(2) show ?thesis
    proof
      assume "add_mset (lo, hi) S = R \<and> B \<le> 4"
      then have "\<forall>part \<in># ?kids + S. B < fst part" using kids R(3) by (metis union_iff insert_iff set_mset_add_mset_insert)
      then show ?thesis using s \<open>add_mset (lo, hi) S = R \<and> B \<le> 4\<close> unfolding parts_inv_def by blast
    next
      assume a: "add_mset (lo, hi) S = add_mset (0, B) R"
      have "(lo, hi) \<noteq> (0, B)" using True B by simp
      then obtain R' where R': "S = add_mset (0, B) R'" "R = add_mset (lo, hi) R'"
        using a by (auto simp: add_eq_conv_ex)
      then have "\<forall>part \<in># ?kids + R'. B < fst part" using kids R(3) by (metis union_iff insert_iff set_mset_add_mset_insert)
      moreover have "?kids + S = add_mset (0, B) (?kids + R')" using R'(1) by simp
      ultimately show ?thesis using s unfolding parts_inv_def by blast
    qed
  next
    case False
    then have "(lo, hi) \<notin># R" using R(3) by auto
    then have cur: "lo = 0" "hi = B" "S = R" using R(2) by (auto simp: add_eq_conv_ex)
    have "splits ys r"
      by (rule splits_narrows [OF R(1) assms(2) [unfolded cur]]) (use assms cur in auto)
    moreover have "\<forall>part \<in># R. r < fst part" using R(3) assms(8) cur by auto
    ultimately show ?thesis
      unfolding parts_inv_def using assms(6) cur
      by (intro exI [of _ r] exI [of _ "mset (filter large [(l, hi)]) + R"])
        (auto simp: large_def MAX_THRESH_def)
  qed
qed

abbreviation weight :: "(int \<times> int) list \<Rightarrow> int" where
  "weight parts \<equiv> sum_list (map (\<lambda>part. snd part - fst part) parts)"

text \<open>The state at the head of the loop: the parts are inside the array, wide enough and disjoint.\<close>

definition loop_inv :: "int \<Rightarrow> 'a list \<Rightarrow> int \<Rightarrow> int \<Rightarrow> (int \<times> int) list \<Rightarrow> bool" where
  "loop_inv N xs lo hi stk \<longleftrightarrow> int (length xs) - 1 = N \<and> N < 2 ^ 64 \<and>
     (\<forall>part \<in> set ((lo, hi) # stk). 0 \<le> fst part \<and> fst part + 4 \<le> snd part \<and> snd part \<le> N) \<and>
     stack_ok N (lo, hi) stk \<and> parts_inv xs (mset ((lo, hi) # stk))"

lemma qs_turn_inv:
  assumes "loop_inv N xs lo hi stk"
  obtains ys where "qs_turn cmp xs lo hi (stk @ [base]) = Some (ys, [], fst base, snd base)" "mset ys = mset xs"
      "\<exists>B \<le> 4. splits ys B"
  | ys stk' lo' hi' where "qs_turn cmp xs lo hi (stk @ [base]) = Some (ys, stk' @ [base], lo', hi')" "mset ys = mset xs"
      "loop_inv N ys lo' hi' stk'" "weight ((lo', hi') # stk') < weight ((lo, hi) # stk)"
proof -
  note inv = assms [unfolded loop_inv_def]
  have b: "0 \<le> lo" "lo + 4 \<le> hi" "hi < int (length xs)" using inv by auto
  obtain ys l r where t: "qs_turn cmp xs lo hi (stk @ [base]) =
      map_option (\<lambda>(stack, lo, hi). (ys, stack, lo, hi)) (next_part lo hi l r (stk @ [base]))"
    "moved lo hi xs ys" "lo \<le> r" "r < l" "l \<le> hi" "r < hi" "lo < l"
    "\<And>i j. lo \<le> i \<Longrightarrow> i \<le> r \<Longrightarrow> r < j \<Longrightarrow> j \<le> hi \<Longrightarrow> le_by cmp (elt ys i) (elt ys j)"
    using turn_partitions [OF b, of "stk @ [base]"] by blast
  define kids where "kids = filter large [(lo, r), (l, hi)]"
  have m: "mset ys = mset xs" "length ys = length xs" using t(2) by (simp_all add: moved_def)
  have pinv: "parts_inv ys (mset kids + mset stk)"
    unfolding kids_def by (rule parts_inv_turn) (use inv t b in auto)
  have kids: "weight kids < hi - lo" "\<And>part. part \<in> set kids \<Longrightarrow> lo \<le> fst part \<and> fst part + 4 \<le> snd part \<and> snd part \<le> hi"
    using t(3-7) b unfolding kids_def by (auto simp: large_def MAX_THRESH_def split: if_splits)
  consider "kids = []" "next_part lo hi l r (stk @ [base]) = (case stk @ [base] of [] \<Rightarrow> None | (a, b) # stack \<Rightarrow> Some (stack, a, b))"
    | stk' a b where "next_part lo hi l r (stk @ [base]) = Some (stk' @ [base], a, b)"
      "mset ((a, b) # stk') = mset kids + mset stk" "stack_ok N (a, b) stk'"
    using next_part_parts [OF t(3-7) b(2), of N stk base] inv kids_def by auto
  then show ?thesis
  proof cases
    case 1
    show ?thesis
    proof (cases stk)
      case Nil
      have "\<exists>B \<le> 4. splits ys B"
        using pinv 1(1) Nil by (auto simp: parts_inv_def)
      then show ?thesis using that(1) [of ys] m t(1) 1 Nil by (cases base) simp
    next
      case (Cons part stk')
      obtain a c where part: "part = (a, c)" by (cases part)
      have "loop_inv N ys a c stk'"
        using inv pinv m 1(1) Cons part by (auto simp: loop_inv_def)
      then show ?thesis using that(2) [of ys stk' a c] m t(1) 1 Cons part b by simp
    qed
  next
    case 2
    have set: "set ((a, b) # stk') = set kids \<union> set stk" using 2(2) by (metis set_mset_mset set_mset_union)
    have "weight ((a, b) # stk') = weight (kids @ stk)"
    proof -
      have "sum_mset (image_mset (\<lambda>part. snd part - fst part) (mset ((a, b) # stk'))) =
          sum_mset (image_mset (\<lambda>part. snd part - fst part) (mset (kids @ stk)))"
        unfolding 2(2) by simp
      then show ?thesis by (simp only: sum_mset_sum_list flip: mset_map)
    qed
    then have "weight ((a, b) # stk') < weight ((lo, hi) # stk)" using kids(1) by simp
    moreover have "loop_inv N ys a b stk'"
    proof -
      have "0 \<le> fst part \<and> fst part + 4 \<le> snd part \<and> snd part \<le> N" if "part \<in> set kids \<union> set stk" for part
      proof (cases "part \<in> set kids")
        case True
        then show ?thesis using kids(2) [OF True] b inv by auto
      next
        case False
        then show ?thesis using that inv by simp
      qed
      then show ?thesis using inv m pinv 2(2,3) unfolding loop_inv_def set by simp
    qed
    ultimately show ?thesis using that(2) [of ys stk' a b] m t(1) 2(1) by simp
  qed
qed

lemma qs_loop_splits:
  "loop_inv N xs lo hi stk \<Longrightarrow> \<exists>ys. qs_loop cmp xs lo hi (stk @ [base]) = Some ys \<and> mset ys = mset xs \<and> (\<exists>B \<le> 4. splits ys B)"
proof (induction "nat (weight ((lo, hi) # stk))" arbitrary: xs lo hi stk rule: less_induct)
  case less
  have unfold: "qs_loop cmp xs lo hi (stk @ [base]) =
      do { (xs, stack, lo, hi) \<leftarrow> qs_turn cmp xs lo hi (stk @ [base]); qs_loop cmp xs lo hi stack }"
    by (subst qs_loop.simps) simp
  from less.prems show ?case
  proof (cases rule: qs_turn_inv [where base = base])
    case (1 ys)
    have "qs_loop cmp ys (fst base) (snd base) [] = Some ys" by (subst qs_loop.simps) simp
    then show ?thesis using 1 unfolding unfold by (cases base) auto
  next
    case (2 ys stk' lo' hi')
    have "0 \<le> weight ((lo', hi') # stk')"
      using 2(3) by (intro sum_list_nonneg) (force simp: loop_inv_def)
    then have "\<exists>zs. qs_loop cmp ys lo' hi' (stk' @ [base]) = Some zs \<and> mset zs = mset ys \<and> (\<exists>B \<le> 4. splits zs B)"
      by (intro less.hyps) (use 2(3,4) in simp_all)
    then show ?thesis using 2(1,2) unfolding unfold by auto
  qed
qed

text \<open>The insertion sort.\<close>

definition least :: "'a list \<Rightarrow> int \<Rightarrow> int \<Rightarrow> bool" where
  "least xs m n \<longleftrightarrow> 0 \<le> m \<and> m < n \<and> (\<forall>j. 0 \<le> j \<and> j < n \<longrightarrow> le_by cmp (elt xs m) (elt xs j))"

lemma find_min_least:
  assumes "least xs tmp run" "thresh < int (length xs)" "run \<le> thresh + 1"
  shows "\<exists>m. find_min cmp xs run thresh tmp = Some m \<and> least xs m (thresh + 1)"
  using assms
proof (induction "nat (thresh + 1 - run)" arbitrary: run tmp)
  case 0
  then have "run = thresh + 1" by simp
  then show ?case using 0 by (subst find_min.simps) simp
next
  case (Suc d)
  let ?tmp = "if cmp (elt xs run) (elt xs tmp) < 0 then run else tmp"
  have "le_by cmp (elt xs ?tmp) (elt xs j)" if "0 \<le> j" "j < run + 1" for j
  proof (cases "j = run")
    case True
    then show ?thesis by (auto simp: le_by_def dest: asym)
  next
    case False
    then have "le_by cmp (elt xs tmp) (elt xs j)" using that Suc.prems(1) by (simp add: least_def)
    then show ?thesis using trans [OF less_le] by auto
  qed
  then have "least xs ?tmp (run + 1)" using Suc.prems(1) by (auto simp: least_def)
  then have "\<exists>m. find_min cmp xs (run + 1) thresh ?tmp = Some m \<and> least xs m (thresh + 1)"
    using Suc.hyps(2) Suc.prems by (intro Suc.hyps(1)) auto
  moreover have "find_min cmp xs run thresh tmp = find_min cmp xs (run + 1) thresh ?tmp"
    using Suc.hyps(2) Suc.prems by (subst find_min.simps) (auto simp: least_def)
  ultimately show ?case by simp
qed

lemma insert_loop_sorts:
  assumes "1 \<le> r" "r \<le> length xs" "sorted_wrt (le_by cmp) (take r xs)"
    "\<And>j. j < length xs \<Longrightarrow> le_by cmp (xs ! 0) (xs ! j)"
  shows "\<exists>ys. insert_loop cmp xs (int r) (int (length xs) - 1) = Some ys \<and> mset ys = mset xs \<and> sorted_wrt (le_by cmp) ys"
  using assms
proof (induction "length xs - r" arbitrary: xs r)
  case 0
  then show ?case by (subst insert_loop.simps) simp
next
  case (Suc d)
  have r: "r < length xs" "0 < r" using Suc.hyps(2) Suc.prems(1) by simp_all
  obtain t where t: "scan_down cmp xs (int r) (int r - 1) = Some t" "0 \<le> t" "t \<le> int r - 1" "le_by cmp (elt xs t) (xs ! r)"
    "\<And>k. t < k \<Longrightarrow> k \<le> int r - 1 \<Longrightarrow> cmp (xs ! r) (elt xs k) < 0"
    by (rule scan_down_finds [of 0 "int r - 1" xs "int r"]) (use r Suc.prems(4) [of r] in auto)
  define p where "p = nat t + 1"
  have p: "1 \<le> p" "p \<le> r" "t + 1 = int p" using t(2,3) by (auto simp: p_def)
  let ?ys = "take p xs @ xs ! r # drop p (take r xs) @ drop (Suc r) xs"
  have step: "insert_loop cmp xs (int r) (int (length xs) - 1) = insert_loop cmp ?ys (int (Suc r)) (int (length ?ys) - 1)"
  proof (cases "p = r")
    case True
    then have "?ys = xs" using r(1) by (simp add: id_take_nth_drop [symmetric])
    then show ?thesis using t(1) True p(3) r by (subst insert_loop.simps) (simp add: add.commute)
  next
    case False
    then have "shift_in xs (int r) (t + 1) (xs ! r) = Some ?ys"
      unfolding p(3) using p r by (intro shift_in_rotates) simp_all
    moreover have "t + 1 \<noteq> int r" using False p(3) by simp
    moreover have "length ?ys = length xs" using p r by simp
    ultimately show ?thesis using t(1) r by (subst insert_loop.simps) (simp add: add.commute)
  qed
  have split: "take r xs = take p xs @ drop p (take r xs)" using p(2) by (metis append_take_drop_id min.absorb1 take_take)
  have m: "mset ?ys = mset xs"
  proof -
    have "mset xs = mset (take r xs @ xs ! r # drop (Suc r) xs)" using r(1) by (simp add: id_take_nth_drop [symmetric])
    also have "\<dots> = mset ?ys" by (subst split) simp
    finally show ?thesis ..
  qed
  have len: "length ?ys = length xs" using p r by simp
  have nth: "le_by cmp (xs ! i) (xs ! j)" if "i < j" "j < r" for i j
    using sorted_wrt_nth_less [OF Suc.prems(3), of i j] that r by simp
  have before: "le_by cmp (xs ! i) (xs ! r)" if "i < p" for i
  proof (cases "i = nat t")
    case False
    then have "le_by cmp (xs ! i) (elt xs t)" using that t(2,3) by (intro nth) (auto simp: p_def)
    then show ?thesis by (rule trans [OF _ t(4)])
  qed (use t(4) in simp)
  have behind: "le_by cmp (xs ! r) (xs ! i)" if "p \<le> i" "i < r" for i
    using less_le [OF t(5) [of "int i"]] that t(2) by (simp add: p_def)
  have "sorted_wrt (le_by cmp) (take p xs @ xs ! r # drop p (take r xs))"
  proof -
    have "sorted_wrt (le_by cmp) (take p xs @ drop p (take r xs))" using Suc.prems(3) split by simp
    moreover have "\<forall>a \<in> set (take p xs). le_by cmp a (xs ! r)"
      using before by (auto simp: set_conv_nth)
    moreover have "\<forall>b \<in> set (drop p (take r xs)). le_by cmp (xs ! r) b"
      using behind r by (auto simp: set_conv_nth)
    ultimately show ?thesis by (simp add: sorted_wrt_append)
  qed
  moreover have "take (Suc r) ?ys = take p xs @ xs ! r # drop p (take r xs)" using p r by (simp add: Suc_diff_le)
  ultimately have sorted: "sorted_wrt (le_by cmp) (take (Suc r) ?ys)" by simp
  have "?ys ! 0 = xs ! 0" using p(1) r by (cases xs) (simp_all add: nth_append)
  moreover have "le_by cmp (xs ! 0) y" if "y \<in> set ?ys" for y
  proof -
    have "y \<in> set xs" using that unfolding mset_eq_setD [OF m] .
    then show ?thesis using Suc.prems(4) by (auto simp: in_set_conv_nth)
  qed
  ultimately have lst: "le_by cmp (?ys ! 0) (?ys ! j)" if "j < length ?ys" for j
    using nth_mem [OF that] by metis
  have "\<exists>zs. insert_loop cmp ?ys (int (Suc r)) (int (length ?ys) - 1) = Some zs \<and> mset zs = mset ?ys \<and> sorted_wrt (le_by cmp) zs"
  proof (rule Suc.hyps(1))
    show "d = length ?ys - Suc r" unfolding len using Suc.hyps(2) by simp
    show "Suc r \<le> length ?ys" unfolding len using r(1) by simp
  qed (use sorted lst in \<open>auto simp only: One_nat_def Suc_le_mono le0\<close>)
  then show ?case using step m by simp
qed

lemma sorts:
  assumes "length xs \<le> 2 ^ 64"
  shows "\<exists>ys. qsort2 cmp xs = Some ys \<and> mset ys = mset xs \<and> sorted_wrt (le_by cmp) ys"
proof (cases "xs = []")
  case True
  then show ?thesis by (simp add: qsort2_def)
next
  case False
  define e where "e = int (length xs) - 1"
  have e: "0 \<le> e" using False by (cases xs) (simp_all add: e_def)
  obtain x1 where x1: "(if int (length xs) > MAX_THRESH
      then do { stack \<leftarrow> PUSH (0, 0) []; qs_loop cmp xs 0 e stack } else Some xs) = Some x1"
    "mset x1 = mset xs" "\<exists>B \<le> 4. splits x1 B"
  proof (cases "int (length xs) > MAX_THRESH")
    case True
    have "parts_inv xs {#(0, e)#}"
      unfolding parts_inv_def using \<open>xs \<noteq> []\<close>
      by (intro exI [of _ e] exI [of _ "{#}"]) (auto simp: splits_def e_def Suc_le_eq)
    then have "loop_inv e xs 0 e []"
      using True assms by (simp add: loop_inv_def e_def MAX_THRESH_def)
    from qs_loop_splits [OF this, of "(0, 0)"] show ?thesis
      using that True by (auto simp: PUSH_def STACK_SIZE_def)
  next
    case False
    then have "splits xs 4" by (auto simp: splits_def MAX_THRESH_def)
    then show ?thesis using that False by auto
  qed
  have len1: "length x1 = length xs" using x1(2) by (rule mset_eq_length)
  have "least x1 0 1" by (auto simp: least_def order_antisym)
  then obtain m where m: "find_min cmp x1 1 (min e MAX_THRESH) 0 = Some m" "least x1 m (min e MAX_THRESH + 1)"
  proof -
    have "min e MAX_THRESH < int (length x1)" "1 \<le> min e MAX_THRESH + 1"
      using e len1 by (simp_all add: e_def MAX_THRESH_def min_less_iff_disj)
    from find_min_least [OF \<open>least x1 0 1\<close> this] show ?thesis using that by blast
  qed
  have all: "le_by cmp (elt x1 m) (elt x1 j)" if j: "0 \<le> j" "j < int (length xs)" for j
  proof (cases "j \<le> min e MAX_THRESH")
    case True
    then show ?thesis using m(2) j by (simp add: least_def)
  next
    case False
    obtain B where B: "B \<le> 4" "splits x1 B" using x1(3) by blast
    then have b: "0 \<le> B" "B < j" using False j by (auto simp: splits_def e_def MAX_THRESH_def)
    then have "le_by cmp (elt x1 m) (elt x1 B)" using m(2) B(1) j by (auto simp: least_def e_def MAX_THRESH_def)
    moreover have "le_by cmp (elt x1 B) (elt x1 j)" using B(2) b j len1 by (simp add: splits_def)
    ultimately show ?thesis by (rule trans)
  qed
  obtain x2 where x2: "(if m \<noteq> 0 then SWAP x1 m 0 else Some x1) = Some x2" "mset x2 = mset x1"
    "\<And>j. j < length x2 \<Longrightarrow> le_by cmp (x2 ! 0) (x2 ! j)"
  proof (cases "m = 0")
    case True
    show ?thesis by (rule that [of x1]) (use True all [of "int _"] len1 in auto)
  next
    case False
    obtain ys where ys: "SWAP x1 m 0 = Some ys" "moved 0 e x1 ys" "elt ys 0 = elt x1 m"
      by (rule SWAP_moved [of 0 m e 0 x1]) (use m(2) e len1 in \<open>auto simp: least_def e_def\<close>)
    have "le_by cmp (ys ! 0) (ys ! j)" if "j < length ys" for j
    proof -
      have "int j \<le> e" using that moved_length [OF ys(2)] len1 by (simp add: e_def)
      then obtain i where "0 \<le> i" "i \<le> e" "elt ys (int j) = elt x1 i"
        using moved_from [OF ys(2), of "int j"] by auto
      then show ?thesis using all [of i] ys(3) by (simp add: e_def)
    qed
    then show ?thesis using that [of ys] ys(1,2) False by (simp add: moved_def)
  qed
  have len2: "length x2 = length xs" using x2(2) len1 by (metis mset_eq_length)
  obtain ys where ys: "insert_loop cmp x2 2 e = Some ys" "mset ys = mset x2" "sorted_wrt (le_by cmp) ys"
  proof (cases "length xs = 1")
    case True
    then obtain a where "x2 = [a]" using len2 by (auto simp: length_Suc_conv)
    then show ?thesis using that [of x2] True by (simp add: e_def insert_loop.simps)
  next
    case False
    then have two: "2 \<le> length x2" using \<open>xs \<noteq> []\<close> len2 by (cases xs) (auto simp: Suc_le_eq)
    then have "take 2 x2 = [x2 ! 0, x2 ! 1]" by (auto simp: numeral_2_eq_2 Suc_le_length_iff)
    then have "sorted_wrt (le_by cmp) (take 2 x2)" using x2(3) [of 1] two by simp
    from insert_loop_sorts [OF _ two this x2(3)] show ?thesis using that len2 by (auto simp: e_def)
  qed
  have "qsort2 cmp xs = Some ys"
    unfolding qsort2_def Let_def e_def [symmetric] x1(1) Option.bind.bind_lunit m(1) x2(1) ys(1)
    using False by simp
  then show ?thesis using ys x2(2) x1(2) by simp
qed

end

section \<open>The typed front end\<close>

definition c1_asc :: "'a::linorder \<Rightarrow> 'a \<Rightarrow> int" where
  "c1_asc a b = (if a < b then -1 else if a > b then 1 else 0)"

definition c1_dsc :: "'a::linorder \<Rightarrow> 'a \<Rightarrow> int" where
  "c1_dsc a b = (if a < b then 1 else if a > b then -1 else 0)"

definition c2_asc :: "'a::linorder list \<Rightarrow> nat \<Rightarrow> nat \<Rightarrow> int" where
  "c2_asc val a b = (if val ! a < val ! b then -1 else if val ! a > val ! b then 1 else 0)"

definition c2_dsc :: "'a::linorder list \<Rightarrow> nat \<Rightarrow> nat \<Rightarrow> int" where
  "c2_dsc val a b = (if val ! a < val ! b then 1 else if val ! a > val ! b then -1 else 0)"

definition quicksort :: "'a::linorder list \<Rightarrow> bool \<Rightarrow> 'a list option" where
  "quicksort val asc = (if asc then qsort2 c1_asc val else qsort2 c1_dsc val)"

definition quicksort_ID :: "'a::linorder list \<Rightarrow> bool \<Rightarrow> nat list option" where
  "quicksort_ID val asc =
     (let ID = [0..<length val] in if asc then qsort2 (c2_asc val) ID else qsort2 (c2_dsc val) ID)"

lemma le_by_front:
  "le_by c1_asc a b \<longleftrightarrow> a \<le> b" "le_by c1_dsc a b \<longleftrightarrow> b \<le> a"
  "le_by (c2_asc val) i j \<longleftrightarrow> val ! i \<le> val ! j" "le_by (c2_dsc val) i j \<longleftrightarrow> val ! j \<le> val ! i"
  by (auto simp: le_by_def c1_asc_def c1_dsc_def c2_asc_def c2_dsc_def)

interpretation asc1: comparator c1_asc
  by unfold_locales (auto simp: le_by_front c1_asc_def split: if_splits)

interpretation dsc1: comparator c1_dsc
  by unfold_locales (auto simp: le_by_front c1_dsc_def split: if_splits)

interpretation asc2: comparator "c2_asc val" for val
  by unfold_locales (auto simp: le_by_front c2_asc_def split: if_splits)

interpretation dsc2: comparator "c2_dsc val" for val
  by unfold_locales (auto simp: le_by_front c2_dsc_def split: if_splits)

text \<open>C34. \<open>qsort2\<close> sorts: for every comparison function that is an order of the elements up to
  equivalence, and every array a \<open>size_t\<close> can count, it returns, leaves neither the array nor its stack
  of 64 parts, keeps the elements and puts them in order.\<close>

theorem qsort2_sorts:
  assumes "comparator cmp" "length xs \<le> 2 ^ 64"
  shows "\<exists>ys. qsort2 cmp xs = Some ys \<and> mset ys = mset xs \<and> sorted_wrt (le_by cmp) ys"
  using assms by (rule comparator.sorts)

theorem qsort2_sorts_witness:
  "\<exists>ys. qsort2 c1_dsc [3, 1, 2, 5, 4, 9, 0 :: int] = Some ys \<and> mset ys = mset [3, 1, 2, 5, 4, 9, 0] \<and>
     sorted_wrt (le_by c1_dsc) ys"
  using qsort2_sorts [OF dsc1.comparator_axioms, of "[3, 1, 2, 5, 4, 9, 0]"] by simp

lemma quicksort_sorts:
  assumes "length val \<le> 2 ^ 64"
  shows "\<exists>ys. quicksort val asc = Some ys \<and> mset ys = mset val \<and> (if asc then sorted ys else sorted (rev ys))"
proof -
  have "le_by (c1_asc :: 'a \<Rightarrow> _) = (\<le>)" "le_by (c1_dsc :: 'a \<Rightarrow> _) = (\<ge>)" by (simp_all add: le_by_front fun_eq_iff)
  then have s: "sorted_wrt (le_by c1_asc) ys = sorted ys" "sorted_wrt (le_by c1_dsc) ys = sorted (rev ys)" for ys :: "'a list"
    by (simp_all add: sorted_wrt_rev)
  show ?thesis using asc1.sorts [OF assms] dsc1.sorts [OF assms] unfolding s by (simp add: quicksort_def)
qed

section \<open>Binary search\<close>

definition two64 :: nat where
  "two64 = 18446744073709551616"

text \<open>
  The loop the three searches share, on \<open>size_t\<close>: \<open>get mid\<close> is the element read for the position
  \<open>mid\<close>. The result says whether the value was found, and where the loop ended.
\<close>

partial_function (option) search_loop :: "(nat \<Rightarrow> 'a::linorder option) \<Rightarrow> 'a \<Rightarrow> nat \<Rightarrow> nat \<Rightarrow> (bool \<times> nat) option" where
  [code]: "search_loop get x low high =
     (if low \<le> high
      then do {
        v \<leftarrow> get (low + (high - low) div 2);
        if v = x then Some (True, low + (high - low) div 2)
        else if v < x then search_loop get x ((low + (high - low) div 2 + 1) mod two64) high
        else search_loop get x low ((low + (high - low) div 2 + two64 - 1) mod two64)
      }
      else Some (False, low))"

definition array_get :: "'a list \<Rightarrow> nat \<Rightarrow> 'a option" where
  "array_get arr i = (if i < length arr then Some (arr ! i) else None)"

definition bsearch :: "'a::linorder list \<Rightarrow> 'a \<Rightarrow> nat option" where
  "bsearch arr x = do {
     (found, i) \<leftarrow> search_loop (array_get arr) x 0 ((length arr + two64 - 1) mod two64);
     Some (if found then i else two64 - 1)
   }"

definition BinarySearch :: "'a::linorder list \<Rightarrow> 'a \<Rightarrow> nat option" where
  "BinarySearch arr x = do {
     (found, i) \<leftarrow> search_loop (array_get arr) x 0 ((length arr + two64 - 1) mod two64);
     Some i
   }"

definition BinarySearch_ID :: "'a::linorder list \<Rightarrow> nat \<Rightarrow> nat list \<Rightarrow> 'a \<Rightarrow> nat option" where
  "BinarySearch_ID arr stride ID x = do {
     (found, i) \<leftarrow> search_loop (\<lambda>mid. do { i \<leftarrow> array_get ID mid; array_get arr (i * stride mod two64) }) x 0
       ((length ID + two64 - 1) mod two64);
     Some i
   }"

lemma size_t_pred:
  assumes "m < two64" "m \<noteq> 0"
  shows "(m + two64 - 1) mod two64 = m - 1"
proof -
  have e: "m + two64 - 1 = (m - 1) + two64" using assms(2) by simp
  have "m - 1 < two64" using assms(1) by simp
  then show ?thesis unfolding e by (simp only: mod_add_self2 mod_less)
qed

text \<open>The positions the loop reads hold the ascending values \<open>f 0\<close>, ..., \<open>f (n - 1)\<close>.\<close>

definition ascending :: "(nat \<Rightarrow> 'a::linorder option) \<Rightarrow> nat \<Rightarrow> (nat \<Rightarrow> 'a) \<Rightarrow> bool" where
  "ascending get n f \<longleftrightarrow> (\<forall>i. get i = (if i < n then Some (f i) else None)) \<and>
     (\<forall>i j. i \<le> j \<and> j < n \<longrightarrow> f i \<le> f j) \<and> n < two64 div 2"

lemma search_loop_finds:
  assumes "ascending get n f" "f 0 \<le> x" "low \<le> high + 1" "high < n"
    "\<And>i. i < low \<Longrightarrow> f i < x" "\<And>i. high < i \<Longrightarrow> i < n \<Longrightarrow> x < f i"
  shows "\<exists>found i. search_loop get x low high = Some (found, i) \<and> i \<le> n \<and> (found \<longrightarrow> i < n \<and> f i = x) \<and>
    (\<not> found \<longrightarrow> (\<forall>j < i. f j < x) \<and> (\<forall>j < n. i \<le> j \<longrightarrow> x < f j))"
  using assms(3-)
proof (induction "high + 1 - low" arbitrary: low high rule: less_induct)
  case less
  note asc = assms(1) [unfolded ascending_def]
  show ?case
  proof (cases "low \<le> high")
    case False
    then have "search_loop get x low high = Some (False, low)" by (subst search_loop.simps) simp
    moreover have "x < f j" if "j < n" "low \<le> j" for j using less.prems(4) [of j] that False by simp
    ultimately show ?thesis using less.prems False by auto
  next
    case True
    define mid where "mid = low + (high - low) div 2"
    have mid: "low \<le> mid" "mid \<le> high" using True by (auto simp: mid_def)
    then have n: "mid < n" "mid + 1 < two64" using less.prems(2) asc by (auto simp: two64_def)
    have get: "get mid = Some (f mid)" using asc n(1) by simp
    have unfold: "search_loop get x low high =
        (if f mid = x then Some (True, mid) else if f mid < x then search_loop get x (mid + 1) high
         else search_loop get x low ((mid + two64 - 1) mod two64))"
      using True get n(2) by (subst search_loop.simps) (simp flip: mid_def)
    consider "f mid = x" | "f mid < x" | "x < f mid" by (rule linorder_cases)
    then show ?thesis
    proof cases
      case 1
      then show ?thesis using unfold n(1) by auto
    next
      case 2
      have "f i < x" if "i < mid + 1" for i
      proof -
        have "f i \<le> f mid" using asc that n(1) by simp
        then show ?thesis using 2 by simp
      qed
      then have "\<exists>found i. search_loop get x (mid + 1) high = Some (found, i) \<and> i \<le> n \<and> (found \<longrightarrow> i < n \<and> f i = x) \<and>
          (\<not> found \<longrightarrow> (\<forall>j < i. f j < x) \<and> (\<forall>j < n. i \<le> j \<longrightarrow> x < f j))"
        using less.prems mid by (intro less.hyps) auto
      then show ?thesis using unfold 2 by auto
    next
      case 3
      have "mid \<noteq> 0" using 3 assms(2) by (metis leD)
      then have m: "(mid + two64 - 1) mod two64 = mid - 1" using n(2) by (intro size_t_pred) simp_all
      have m': "mid - 1 < n" "low \<le> mid - 1 + 1" using n(1) mid \<open>mid \<noteq> 0\<close> by simp_all
      have "x < f i" if "mid - 1 < i" "i < n" for i
      proof -
        have "f mid \<le> f i" using asc that by simp
        then show ?thesis using 3 by simp
      qed
      then have "\<exists>found i. search_loop get x low (mid - 1) = Some (found, i) \<and> i \<le> n \<and> (found \<longrightarrow> i < n \<and> f i = x) \<and>
          (\<not> found \<longrightarrow> (\<forall>j < i. f j < x) \<and> (\<forall>j < n. i \<le> j \<longrightarrow> x < f j))"
        using less.prems mid m' \<open>mid \<noteq> 0\<close> by (intro less.hyps) auto
      moreover have "\<not> f mid < x" "f mid \<noteq> x" using 3 by auto
      ultimately show ?thesis unfolding unfold m by simp
    qed
  qed
qed

lemma search_loop_runs_out:
  assumes "ascending get n f" "n = 0 \<or> x < f 0"
  shows "high < n \<Longrightarrow> search_loop get x 0 high = None" and "search_loop get x 0 (two64 - 1) = None"
proof -
  note asc = assms(1) [unfolded ascending_def]
  have "get ((two64 - 1) div 2) = None" using asc by (simp add: two64_def)
  then show wrapped: "search_loop get x 0 (two64 - 1) = None"
    by (subst search_loop.simps) (simp add: two64_def)
  show "high < n \<Longrightarrow> search_loop get x 0 high = None"
  proof (induction high rule: less_induct)
    case (less high)
    have n: "high div 2 < n" "high div 2 < two64" using less.prems asc by (auto simp: two64_def)
    have "x < f (high div 2)" using assms(2) asc n(1) by (metis le0 less_le_trans not_less0)
    then have unfold: "search_loop get x 0 high = search_loop get x 0 ((high div 2 + two64 - 1) mod two64)"
      using asc n(1) by (subst search_loop.simps) auto
    show ?case
    proof (cases "high div 2 = 0")
      case True
      then show ?thesis using unfold wrapped by (simp add: two64_def)
    next
      case False
      then have "(high div 2 + two64 - 1) mod two64 = high div 2 - 1" using n(2) by (intro size_t_pred)
      moreover have "high div 2 - 1 < high" using False by simp
      ultimately show ?thesis using unfold less.IH [of "high div 2 - 1"] less.prems by simp
    qed
  qed
qed

lemma ascending_array:
  "sorted arr \<Longrightarrow> length arr < two64 div 2 \<Longrightarrow> ascending (array_get arr) (length arr) (\<lambda>i. arr ! i)"
  by (auto simp: ascending_def array_get_def sorted_nth_mono)

lemma last_index: "n < two64 div 2 \<Longrightarrow> n \<noteq> 0 \<Longrightarrow> (n + two64 - 1) mod two64 = n - 1"
  by (rule size_t_pred) (simp_all add: two64_def)

text \<open>What the loop does on a whole ascending array.\<close>

lemma search_loop_array:
  assumes "ascending get n f"
  shows "n = 0 \<or> x < f 0 \<Longrightarrow> search_loop get x 0 ((n + two64 - 1) mod two64) = None"
    and "n \<noteq> 0 \<Longrightarrow> f 0 \<le> x \<Longrightarrow> \<exists>found i. search_loop get x 0 ((n + two64 - 1) mod two64) = Some (found, i) \<and> i \<le> n \<and>
      (found \<longrightarrow> i < n \<and> f i = x) \<and> (\<not> found \<longrightarrow> (\<forall>j < i. f j < x) \<and> (\<forall>j < n. i \<le> j \<longrightarrow> x < f j))"
proof -
  have n: "n < two64 div 2" using assms by (simp add: ascending_def)
  show "search_loop get x 0 ((n + two64 - 1) mod two64) = None" if "n = 0 \<or> x < f 0"
  proof (cases "n = 0")
    case True
    then show ?thesis using search_loop_runs_out(2) [OF assms that] by (simp add: two64_def)
  next
    case False
    then show ?thesis unfolding last_index [OF n False] by (intro search_loop_runs_out(1) [OF assms that]) simp
  qed
  show "\<exists>found i. search_loop get x 0 ((n + two64 - 1) mod two64) = Some (found, i) \<and> i \<le> n \<and>
      (found \<longrightarrow> i < n \<and> f i = x) \<and> (\<not> found \<longrightarrow> (\<forall>j < i. f j < x) \<and> (\<forall>j < n. i \<le> j \<longrightarrow> x < f j))"
    if "n \<noteq> 0" "f 0 \<le> x"
    unfolding last_index [OF n that(1)] by (rule search_loop_finds [OF assms that(2)]) (use that(1) in auto)
qed

text \<open>C36. Binary search in an ascending array: a value the array holds is found, for one it does not hold
  \<open>bsearch\<close> reports failure and \<open>BinarySearch\<close> the position where it belongs; but for a value below the
  first element, and in an empty array, \<open>mid - 1\<close> wraps to the largest \<open>size_t\<close> and both read far behind
  the array.\<close>

theorem binary_search_correct:
  fixes x :: "'a::linorder"
  assumes "sorted arr" "length arr < two64 div 2"
  shows "if arr = [] \<or> x < hd arr then bsearch arr x = None \<and> BinarySearch arr x = None
    else if x \<in> set arr then (\<exists>i < length arr. arr ! i = x \<and> bsearch arr x = Some i \<and> BinarySearch arr x = Some i)
    else bsearch arr x = Some (two64 - 1) \<and> BinarySearch arr x = Some (length (filter (\<lambda>y. y < x) arr))"
proof -
  note loop = search_loop_array [OF ascending_array [OF assms], of x]
  consider "arr = [] \<or> x < hd arr" | "arr \<noteq> []" "hd arr \<le> x" by fastforce
  then show ?thesis
  proof cases
    case 1
    then have "length arr = 0 \<or> x < arr ! 0" by (cases arr) auto
    from loop(1) [OF this] show ?thesis using 1 by (simp add: bsearch_def BinarySearch_def)
  next
    case 2
    then obtain found i where s: "search_loop (array_get arr) x 0 ((length arr + two64 - 1) mod two64) = Some (found, i)"
      "i \<le> length arr" "found \<longrightarrow> i < length arr \<and> arr ! i = x"
      "\<not> found \<longrightarrow> (\<forall>j < i. arr ! j < x) \<and> (\<forall>j < length arr. i \<le> j \<longrightarrow> x < arr ! j)"
      using loop(2) by (auto simp: hd_conv_nth)
    show ?thesis
    proof (cases found)
      case True
      then show ?thesis using s 2 by (auto simp: bsearch_def BinarySearch_def not_less)
    next
      case False
      have "x \<notin> set arr" using s(4) False by (metis in_set_conv_nth less_irrefl not_le)
      moreover have "filter (\<lambda>y. y < x) arr = take i arr"
      proof -
        have "filter (\<lambda>y. y < x) (take i arr) = take i arr" using s(4) False by (auto simp: filter_id_conv in_set_conv_nth)
        moreover have "filter (\<lambda>y. y < x) (drop i arr) = []"
          using s(4) False by (auto simp: filter_empty_conv in_set_conv_nth not_less intro!: less_imp_le)
        ultimately show ?thesis by (metis append_Nil2 append_take_drop_id filter_append)
      qed
      ultimately show ?thesis using s 2 False by (auto simp: bsearch_def BinarySearch_def)
    qed
  qed
qed

theorem binary_search_correct_witness:
  "bsearch [1, 3, 5 :: int] 4 = Some (two64 - 1) \<and> BinarySearch [1, 3, 5 :: int] 4 = Some 2 \<and>
   bsearch [1, 3, 5 :: int] 0 = None"
  using binary_search_correct [of "[1, 3, 5 :: int]" 4] binary_search_correct [of "[1, 3, 5 :: int]" 0] by (simp add: two64_def)

text \<open>C35. Sorting an index and searching through it fit together: \<open>quicksort\<close> with an index array leaves
  the values alone and returns, and \<open>BinarySearch\<close> through that index finds every value of the array.\<close>

theorem quicksort_then_search:
  fixes val :: "'a::linorder list"
  assumes "x \<in> set val" "length val < two64 div 2"
  shows "\<exists>ID pos. quicksort_ID val True = Some ID \<and> mset ID = mset [0..<length val] \<and>
    BinarySearch_ID val 1 ID x = Some pos \<and> pos < length ID \<and> val ! (ID ! pos) = x"
proof -
  have len: "length [0..<length val] \<le> 2 ^ 64" using assms(2) by (simp add: two64_def)
  obtain ID where ID: "qsort2 (c2_asc val) [0..<length val] = Some ID" "mset ID = mset [0..<length val]"
    "sorted_wrt (le_by (c2_asc val)) ID"
    using asc2.sorts [OF len, of val] by blast
  have l: "length ID = length val" using ID(2) by (metis length_upt minus_nat.diff_0 size_mset)
  have ids: "ID ! i < length val" if "i < length ID" for i
    using mset_eq_setD [OF ID(2)] nth_mem [OF that] by simp
  let ?get = "\<lambda>mid. do { i \<leftarrow> array_get ID mid; array_get val (i * 1 mod two64) }"
  have get: "?get i = (if i < length ID then Some (val ! (ID ! i)) else None)" for i
  proof (cases "i < length ID")
    case True
    then have "ID ! i * 1 mod two64 = ID ! i" using ids [of i] assms(2) by (simp add: two64_def)
    then show ?thesis using ids True by (simp add: array_get_def del: mult_1_right)
  qed (simp add: array_get_def)
  have asc: "ascending ?get (length ID) (\<lambda>i. val ! (ID ! i))"
    unfolding ascending_def get using sorted_wrt_nth_less [OF ID(3)] assms(2) l
    by (auto simp: le_by_front le_less)
  obtain k where k: "k < length ID" "val ! (ID ! k) = x"
  proof -
    obtain j where "j < length val" "val ! j = x" using assms(1) by (auto simp: in_set_conv_nth)
    moreover from this have "j \<in> set ID" using mset_eq_setD [OF ID(2)] by simp
    ultimately show ?thesis using that by (auto simp: in_set_conv_nth)
  qed
  have "val ! (ID ! 0) \<le> x"
    using asc k by (metis ascending_def le0)
  moreover have "length ID \<noteq> 0" using k(1) by auto
  ultimately obtain found i where s: "search_loop ?get x 0 ((length ID + two64 - 1) mod two64) = Some (found, i)"
    "found \<longrightarrow> i < length ID \<and> val ! (ID ! i) = x"
    "\<not> found \<longrightarrow> (\<forall>j < i. val ! (ID ! j) < x) \<and> (\<forall>j < length ID. i \<le> j \<longrightarrow> x < val ! (ID ! j))"
    using search_loop_array(2) [OF asc, of x] by blast
  have found using s(3) k by (metis less_irrefl not_le)
  then show ?thesis using ID s(1,2) by (auto simp: quicksort_ID_def BinarySearch_ID_def)
qed

theorem quicksort_then_search_witness:
  "\<exists>ID pos. quicksort_ID [5, 2, 9 :: int] True = Some ID \<and> mset ID = mset [0..<3] \<and>
    BinarySearch_ID [5, 2, 9 :: int] 1 ID 9 = Some pos \<and> pos < length ID \<and> [5, 2, 9 :: int] ! (ID ! pos) = 9"
  using quicksort_then_search [of 9 "[5, 2, 9 :: int]"] by (simp add: two64_def numeral_3_eq_3)

end
