(* ===== verification/Indexed_List.thy ===== *)
theory Indexed_List
  imports Main "HOL-Library.AList" "HOL-Library.Multiset"
begin

text \<open>
  The data structure under the caches of \<open>c++/\<close>: a \<open>std::list\<close> of entries and a hash map from the keys
  to the iterators of their entries. An iterator is the address of a list node, which stays the same
  while the node is moved; an operation on an iterator that is not in the list is undefined (\<open>None\<close>).
\<close>

section \<open>The list and its index\<close>

record ('k, 'v) ilist =
  il_dat :: "(nat \<times> 'k \<times> 'v) list"
  il_idx :: "('k \<times> nat) list"
  il_new :: nat

definition il_empty :: "('k, 'v) ilist" where
  "il_empty = \<lparr>il_dat = [], il_idx = [], il_new = 0\<rparr>"

definition remove_node :: "nat \<Rightarrow> (nat \<times> 'k \<times> 'v) list \<Rightarrow> (nat \<times> 'k \<times> 'v) list" where
  "remove_node n dat = filter (\<lambda>node. fst node \<noteq> n) dat"

text \<open>\<open>_idx.find(key)\<close>, and reading through the iterator.\<close>

definition il_find :: "'k \<Rightarrow> ('k, 'v) ilist \<Rightarrow> nat option" where
  "il_find key l = map_of (il_idx l) key"

definition il_deref :: "nat \<Rightarrow> ('k, 'v) ilist \<Rightarrow> ('k \<times> 'v) option" where
  "il_deref n l = map_of (il_dat l) n"

text \<open>\<open>_dat.splice(_dat.begin(), _dat, n)\<close>, \<open>_dat.splice(_dat.end(), _dat, n)\<close>, \<open>_dat.erase(n)\<close>, assignment through \<open>n\<close>.\<close>

definition il_splice_front :: "nat \<Rightarrow> ('k, 'v) ilist \<Rightarrow> ('k, 'v) ilist option" where
  "il_splice_front n l =
     map_option (\<lambda>e. l\<lparr>il_dat := (n, e) # remove_node n (il_dat l)\<rparr>) (il_deref n l)"

definition il_splice_back :: "nat \<Rightarrow> ('k, 'v) ilist \<Rightarrow> ('k, 'v) ilist option" where
  "il_splice_back n l =
     map_option (\<lambda>e. l\<lparr>il_dat := remove_node n (il_dat l) @ [(n, e)]\<rparr>) (il_deref n l)"

definition il_erase :: "nat \<Rightarrow> ('k, 'v) ilist \<Rightarrow> ('k, 'v) ilist option" where
  "il_erase n l = map_option (\<lambda>e. l\<lparr>il_dat := remove_node n (il_dat l)\<rparr>) (il_deref n l)"

definition il_assign :: "nat \<Rightarrow> 'k \<times> 'v \<Rightarrow> ('k, 'v) ilist \<Rightarrow> ('k, 'v) ilist option" where
  "il_assign n e l =
     map_option (\<lambda>_. l\<lparr>il_dat := map (\<lambda>node. if fst node = n then (n, e) else node) (il_dat l)\<rparr>) (il_deref n l)"

text \<open>\<open>push_front\<close> and \<open>push_back\<close>, with the iterator of the new node.\<close>

definition il_push_front :: "'k \<times> 'v \<Rightarrow> ('k, 'v) ilist \<Rightarrow> nat \<times> ('k, 'v) ilist" where
  "il_push_front e l = (il_new l, l\<lparr>il_dat := (il_new l, e) # il_dat l, il_new := Suc (il_new l)\<rparr>)"

definition il_push_back :: "'k \<times> 'v \<Rightarrow> ('k, 'v) ilist \<Rightarrow> nat \<times> ('k, 'v) ilist" where
  "il_push_back e l = (il_new l, l\<lparr>il_dat := il_dat l @ [(il_new l, e)], il_new := Suc (il_new l)\<rparr>)"

text \<open>\<open>_idx[key] = n\<close> and \<open>_idx.erase(key)\<close>.\<close>

definition il_index :: "'k \<Rightarrow> nat \<Rightarrow> ('k, 'v) ilist \<Rightarrow> ('k, 'v) ilist" where
  "il_index key n l = l\<lparr>il_idx := AList.update key n (il_idx l)\<rparr>"

definition il_unindex :: "'k \<Rightarrow> ('k, 'v) ilist \<Rightarrow> ('k, 'v) ilist" where
  "il_unindex key l = l\<lparr>il_idx := AList.delete key (il_idx l)\<rparr>"

section \<open>The invariant\<close>

text \<open>The entries in the order of the list.\<close>

definition items :: "('k, 'v) ilist \<Rightarrow> ('k \<times> 'v) list" where
  "items l = map snd (il_dat l)"

definition drop_key :: "'k \<Rightarrow> ('k \<times> 'v) list \<Rightarrow> ('k \<times> 'v) list" where
  "drop_key key xs = filter (\<lambda>e. fst e \<noteq> key) xs"

text \<open>
  Keys and nodes are distinct, and the index maps exactly the keys of the entries to their nodes.
\<close>

definition il_ok :: "('k, 'v) ilist \<Rightarrow> bool" where
  "il_ok l \<longleftrightarrow> distinct (map fst (il_dat l)) \<and> distinct (map fst (items l)) \<and>
     distinct (map fst (il_idx l)) \<and> set (il_idx l) = (\<lambda>(n, k, v). (k, n)) ` set (il_dat l) \<and>
     (\<forall>node \<in> set (il_dat l). fst node < il_new l)"

lemma il_ok_empty: "il_ok il_empty" "items il_empty = []"
  by (simp_all add: il_ok_def il_empty_def items_def)

lemma drop_key_notin [simp]: "key \<notin> fst ` set xs \<Longrightarrow> drop_key key xs = xs"
  by (force simp: drop_key_def filter_id_conv)

lemma drop_key_simps [simp]:
  "drop_key key [] = []" "drop_key key ((k, v) # xs) = (if k = key then drop_key key xs else (k, v) # drop_key key xs)"
  "drop_key key (xs @ ys) = drop_key key xs @ drop_key key ys"
  by (simp_all add: drop_key_def)

lemma set_drop_key: "set (drop_key key xs) = {e \<in> set xs. fst e \<noteq> key}"
  by (auto simp: drop_key_def)

lemma key_drop_key [simp]: "key \<notin> fst ` set (drop_key key xs)"
  by (auto simp: drop_key_def)

lemma length_drop_key: "length (drop_key key xs) \<le> length xs"
  by (simp add: drop_key_def)

lemma distinct_drop_key: "distinct (map fst xs) \<Longrightarrow> distinct (map fst (drop_key key xs))"
  by (simp add: drop_key_def distinct_map_filter)

lemma length_drop_key_in:
  "distinct (map fst xs) \<Longrightarrow> key \<in> fst ` set xs \<Longrightarrow> Suc (length (drop_key key xs)) = length xs"
proof (induction xs)
  case (Cons x xs)
  show ?case
  proof (cases "fst x = key")
    case True
    then have "drop_key key xs = xs" using Cons.prems(1) by (intro drop_key_notin) auto
    then show ?thesis using True by (simp add: drop_key_def)
  next
    case False
    then show ?thesis using Cons by (simp add: drop_key_def)
  qed
qed simp

text \<open>What the index says about the entries.\<close>

lemma il_find_iff:
  assumes "il_ok l"
  shows "il_find key l = Some n \<longleftrightarrow> (\<exists>v. (n, key, v) \<in> set (il_dat l))"
proof -
  have "il_find key l = Some n \<longleftrightarrow> (key, n) \<in> (\<lambda>(n, k, v). (k, n)) ` set (il_dat l)"
    using assms by (simp add: il_ok_def il_find_def)
  also have "\<dots> \<longleftrightarrow> (\<exists>v. (n, key, v) \<in> set (il_dat l))" by force
  finally show ?thesis .
qed

lemma il_find_None:
  assumes "il_ok l"
  shows "il_find key l = None \<longleftrightarrow> key \<notin> fst ` set (items l)"
proof -
  have "il_find key l = None \<longleftrightarrow> (\<forall>n. il_find key l \<noteq> Some n)" by (metis not_None_eq)
  also have "\<dots> \<longleftrightarrow> (\<forall>n v. (n, key, v) \<notin> set (il_dat l))" by (simp add: il_find_iff [OF assms])
  also have "\<dots> \<longleftrightarrow> key \<notin> fst ` set (items l)" by (auto simp: items_def image_iff)
  finally show ?thesis .
qed

lemma il_deref_node: "il_ok l \<Longrightarrow> (n, e) \<in> set (il_dat l) \<Longrightarrow> il_deref n l = Some e"
  by (simp add: il_ok_def il_deref_def)

lemma il_found:
  assumes "il_ok l" "il_find key l = Some n"
  obtains v where "(n, key, v) \<in> set (il_dat l)" "il_deref n l = Some (key, v)" "map_of (items l) key = Some v"
    "key \<in> fst ` set (items l)"
proof -
  obtain v where v: "(n, key, v) \<in> set (il_dat l)" using assms by (auto simp: il_find_iff)
  then have "snd (n, key, v) \<in> set (items l)" unfolding items_def set_map by (rule imageI)
  then have i: "(key, v) \<in> set (items l)" by simp
  have "distinct (map fst (items l))" using assms(1) by (simp add: il_ok_def)
  then have "map_of (items l) key = Some v" using i by simp
  moreover have "key \<in> fst ` set (items l)" using imageI [OF i, of fst] by simp
  ultimately show ?thesis using that v il_deref_node [OF assms(1) v] by blast
qed

text \<open>Removing a node removes its key from the entries.\<close>

lemma node_iff_key:
  assumes "il_ok l" "(n, key, v) \<in> set (il_dat l)" "node \<in> set (il_dat l)"
  shows "fst node = n \<longleftrightarrow> fst (snd node) = key"
proof -
  have "distinct (map fst (il_dat l))" "distinct (map (\<lambda>node. fst (snd node)) (il_dat l))"
    using assms(1) by (simp_all add: il_ok_def items_def comp_def)
  then have "inj_on fst (set (il_dat l))" "inj_on (\<lambda>node. fst (snd node)) (set (il_dat l))"
    by (simp_all only: distinct_map)
  then show ?thesis using assms(2,3) by (metis (no_types, lifting) fst_conv inj_onD snd_conv)
qed

lemma remove_node_items:
  assumes "il_ok l" "(n, key, v) \<in> set (il_dat l)"
  shows "map snd (remove_node n (il_dat l)) = drop_key key (items l)"
proof -
  have "remove_node n (il_dat l) = filter (\<lambda>node. fst (snd node) \<noteq> key) (il_dat l)"
    unfolding remove_node_def using node_iff_key [OF assms] by (intro filter_cong) auto
  then show ?thesis by (simp add: drop_key_def items_def filter_map comp_def)
qed

text \<open>The order of the list does not matter for the invariant.\<close>

lemma il_ok_mset:
  assumes "mset dat = mset (il_dat l)"
  shows "il_ok (l\<lparr>il_dat := dat\<rparr>) \<longleftrightarrow> il_ok l"
proof -
  have "mset (map fst dat) = mset (map fst (il_dat l))"
    "mset (map fst (map snd dat)) = mset (map fst (map snd (il_dat l)))" using assms by simp_all
  from this [THEN mset_eq_imp_distinct_iff] mset_eq_setD [OF assms] show ?thesis by (simp add: il_ok_def items_def)
qed

text \<open>Adding an entry, removing one, and giving one another value.\<close>

lemma update_new_key: "key \<notin> fst ` set al \<Longrightarrow> AList.update key n al = al @ [(key, n)]"
  by (induction al) auto

lemma il_ok_add:
  assumes "il_ok l" "key \<notin> fst ` set (items l)" "n \<notin> fst ` set (il_dat l)" "n < new" "il_new l \<le> new"
  shows "il_ok (l\<lparr>il_dat := (n, key, v) # il_dat l, il_idx := AList.update key n (il_idx l), il_new := new\<rparr>)"
proof -
  have "fst ` set (il_idx l) = fst ` set (items l)"
    using assms(1) by (simp add: il_ok_def items_def image_image case_prod_beta)
  then have "key \<notin> fst ` set (il_idx l)" using assms(2) by simp
  then have idx: "AList.update key n (il_idx l) = il_idx l @ [(key, n)]" by (rule update_new_key)
  have "fst node < new" if "node \<in> set (il_dat l)" for node
    using that assms(1,5) by (auto simp: il_ok_def intro: less_le_trans)
  then show ?thesis
    using assms(1-4) \<open>key \<notin> fst ` set (il_idx l)\<close> unfolding idx by (simp add: il_ok_def items_def image_image)
qed

lemma il_ok_remove:
  assumes "il_ok l" "(n, key, v) \<in> set (il_dat l)"
  shows "il_ok (l\<lparr>il_dat := remove_node n (il_dat l), il_idx := AList.delete key (il_idx l)\<rparr>)"
proof -
  have i: "set (il_idx l) = (\<lambda>(n, k, v). (k, n)) ` set (il_dat l)" using assms(1) by (simp add: il_ok_def)
  have "set (AList.delete key (il_idx l)) = {e \<in> set (il_idx l). fst e \<noteq> key}"
    by (auto simp: AList.delete_eq)
  also have "\<dots> = (\<lambda>(n, k, v). (k, n)) ` {node \<in> set (il_dat l). fst (snd node) \<noteq> key}"
    unfolding i by force
  also have "{node \<in> set (il_dat l). fst (snd node) \<noteq> key} = set (remove_node n (il_dat l))"
    using node_iff_key [OF assms] by (auto simp: remove_node_def)
  finally have idx: "set (AList.delete key (il_idx l)) = (\<lambda>(n, k, v). (k, n)) ` set (remove_node n (il_dat l))" .
  have "distinct (map fst (remove_node n (il_dat l)))" "\<forall>node \<in> set (remove_node n (il_dat l)). fst node < il_new l"
    using assms(1) by (simp_all add: il_ok_def remove_node_def distinct_map_filter)
  moreover have "distinct (map fst (AList.delete key (il_idx l)))"
    using assms(1) by (simp add: il_ok_def AList.distinct_delete)
  moreover have "distinct (map fst (map snd (remove_node n (il_dat l))))"
    unfolding remove_node_items [OF assms] using assms(1) by (simp add: il_ok_def distinct_drop_key)
  ultimately show ?thesis using idx by (simp add: il_ok_def items_def)
qed

lemma il_ok_value:
  assumes "il_ok l" "(n, key, v) \<in> set (il_dat l)"
  shows "il_ok (l\<lparr>il_dat := (n, key, v') # remove_node n (il_dat l)\<rparr>)"
proof -
  have "(\<lambda>(n, k, v). (k, n)) ` set (il_dat l) = insert (key, n) ((\<lambda>(n, k, v). (k, n)) ` set (remove_node n (il_dat l)))"
    using assms(2) node_iff_key [OF assms] by (force simp: remove_node_def)
  then show ?thesis
    using assms remove_node_items [OF assms] distinct_drop_key [of "items l" key] key_drop_key [of key "items l"]
    by (auto simp: il_ok_def items_def remove_node_def distinct_map_filter)
qed

section \<open>The list operations on a node of the list\<close>

lemma il_splice_front_ok:
  assumes "il_ok l" "(n, key, v) \<in> set (il_dat l)"
  shows "il_splice_front n l = Some (l\<lparr>il_dat := (n, key, v) # remove_node n (il_dat l)\<rparr>)"
    "il_ok (l\<lparr>il_dat := (n, key, v) # remove_node n (il_dat l)\<rparr>)"
    "items (l\<lparr>il_dat := (n, key, v) # remove_node n (il_dat l)\<rparr>) = (key, v) # drop_key key (items l)"
  using il_deref_node [OF assms] il_ok_value [OF assms] remove_node_items [OF assms]
  by (simp_all add: il_splice_front_def items_def)

lemma length_remove_node:
  assumes "il_ok l" "(n, key, v) \<in> set (il_dat l)"
  shows "Suc (length (remove_node n (il_dat l))) = length (il_dat l)"
proof -
  have "length (remove_node n (il_dat l)) = length (drop_key key (items l))"
    using remove_node_items [OF assms] by (metis length_map)
  moreover have "key \<in> fst ` set (items l)"
    using imageI [OF assms(2), of "\<lambda>node. fst (snd node)"] by (simp add: items_def image_image)
  moreover have "distinct (map fst (items l))" "length (items l) = length (il_dat l)"
    using assms(1) by (simp_all add: il_ok_def items_def)
  ultimately show ?thesis using length_drop_key_in [of "items l" key] by simp
qed

lemma remove_node_map:
  "remove_node n (map (\<lambda>node. if fst node = n then (n, e) else node) dat) = remove_node n dat"
  by (induction dat) (auto simp: remove_node_def)

definition assigned :: "nat \<Rightarrow> 'k \<times> 'v \<Rightarrow> ('k, 'v) ilist \<Rightarrow> ('k, 'v) ilist" where
  "assigned n e l = l\<lparr>il_dat := map (\<lambda>node. if fst node = n then (n, e) else node) (il_dat l)\<rparr>"

lemma il_assign_splice:
  assumes "il_deref n l = Some e"
  shows "il_assign n e' l = Some (assigned n e' l)"
    "il_splice_front n (assigned n e' l) = Some (l\<lparr>il_dat := (n, e') # remove_node n (il_dat l)\<rparr>)"
    "il_splice_back n (assigned n e' l) = Some (l\<lparr>il_dat := remove_node n (il_dat l) @ [(n, e')]\<rparr>)"
proof -
  have "map_of (map (\<lambda>node. if fst node = n then (n, e') else node) dat) n = Some e'" if "map_of dat n = Some e" for dat
    using that by (induction dat) (auto split: if_splits)
  then show "il_assign n e' l = Some (assigned n e' l)"
    "il_splice_front n (assigned n e' l) = Some (l\<lparr>il_dat := (n, e') # remove_node n (il_dat l)\<rparr>)"
    "il_splice_back n (assigned n e' l) = Some (l\<lparr>il_dat := remove_node n (il_dat l) @ [(n, e')]\<rparr>)"
    using assms by (simp_all add: il_assign_def assigned_def il_splice_front_def il_splice_back_def il_deref_def remove_node_map)
qed

end
