(* ===== verification/Simulation.thy ===== *)
theory Simulation
  imports Main
begin

text \<open>
  The contract between an implementation and the abstract object it implements: runs of operations
  whose steps may be undefined (\<open>None\<close>), runs of the specification, and the locale \<open>simulation\<close>, in
  which the step-wise agreement gives the agreement of whole runs (\<open>data_refinement\<close> with a relation between the
  states, \<open>simulation\<close> with a function).
\<close>

fun run :: "('op \<Rightarrow> 's \<Rightarrow> ('out \<times> 's) option) \<Rightarrow> 'op list \<Rightarrow> 's \<Rightarrow> ('out list \<times> 's) option" where
  "run step [] s = Some ([], s)"
| "run step (op # ops) s =
     Option.bind (step op s) (\<lambda>(out, s). map_option (\<lambda>(outs, s). (out # outs, s)) (run step ops s))"

fun spec_run :: "('op \<Rightarrow> 'a \<Rightarrow> 'out \<times> 'a) \<Rightarrow> 'op list \<Rightarrow> 'a \<Rightarrow> 'out list \<times> 'a" where
  "spec_run spec [] a = ([], a)"
| "spec_run spec (op # ops) a =
     (let (out, a) = spec op a; (outs, a) = spec_run spec ops a in (out # outs, a))"

lemma snd_spec_run [simp]: "snd (spec_run spec (op # ops) a) = snd (spec_run spec ops (snd (spec op a)))"
  by (simp add: case_prod_beta)

text \<open>Every operation of a run is allowed where it is called.\<close>

fun run_allowed :: "('op \<Rightarrow> 'a \<Rightarrow> bool) \<Rightarrow> ('op \<Rightarrow> 'a \<Rightarrow> 'out \<times> 'a) \<Rightarrow> 'op list \<Rightarrow> 'a \<Rightarrow> bool" where
  "run_allowed allowed spec [] a \<longleftrightarrow> True"
| "run_allowed allowed spec (op # ops) a \<longleftrightarrow> allowed op a \<and> run_allowed allowed spec ops (snd (spec op a))"

lemma run_allowed_if:
  "list_all (\<lambda>op. \<forall>a. allowed op a) ops \<Longrightarrow> run_allowed allowed spec ops a"
  by (induction ops arbitrary: a) auto

lemma spec_run_append:
  "spec_run spec (ops @ ops') a =
     (let (outs, a) = spec_run spec ops a; (outs', a) = spec_run spec ops' a in (outs @ outs', a))"
  by (induction ops arbitrary: a) (simp_all add: Let_def split: prod.splits)

text \<open>The contract with a relation between the states, and with a function from the states to the abstract ones.\<close>

locale data_refinement =
  fixes step :: "'op \<Rightarrow> 's \<Rightarrow> ('out \<times> 's) option"
    and rel :: "'s \<Rightarrow> 'a \<Rightarrow> bool"
    and spec :: "'op \<Rightarrow> 'a \<Rightarrow> 'out \<times> 'a"
    and allowed :: "'op \<Rightarrow> 'a \<Rightarrow> bool"
  assumes refines: "rel s a \<Longrightarrow> allowed op a \<Longrightarrow>
    \<exists>out s' a'. step op s = Some (out, s') \<and> spec op a = (out, a') \<and> rel s' a'"
begin

lemma runs:
  "rel s a \<Longrightarrow> run_allowed allowed spec ops a \<Longrightarrow>
    \<exists>outs s' a'. run step ops s = Some (outs, s') \<and> spec_run spec ops a = (outs, a') \<and> rel s' a'"
proof (induction ops arbitrary: s a)
  case (Cons op ops)
  then obtain out s' a' where step: "step op s = Some (out, s')" "spec op a = (out, a')" "rel s' a'"
    using refines [of s a op] by auto
  then obtain outs s'' a'' where "run step ops s' = Some (outs, s'')" "spec_run spec ops a' = (outs, a'')" "rel s'' a''"
    using Cons.IH [OF step(3)] Cons.prems(2) by auto
  then show ?case using step by simp
qed simp

end

locale simulation =
  fixes step :: "'op \<Rightarrow> 's \<Rightarrow> ('out \<times> 's) option"
    and inv :: "'s \<Rightarrow> bool"
    and abs :: "'s \<Rightarrow> 'a"
    and spec :: "'op \<Rightarrow> 'a \<Rightarrow> 'out \<times> 'a"
    and allowed :: "'op \<Rightarrow> 'a \<Rightarrow> bool"
  assumes simulates: "inv s \<Longrightarrow> allowed op (abs s) \<Longrightarrow>
    \<exists>out s'. step op s = Some (out, s') \<and> inv s' \<and> spec op (abs s) = (out, abs s')"

sublocale simulation \<subseteq> by_abs: data_refinement step "\<lambda>s a. inv s \<and> abs s = a" spec allowed
  by unfold_locales (use simulates in blast)

context simulation
begin

lemma runs:
  "inv s \<Longrightarrow> run_allowed allowed spec ops (abs s) \<Longrightarrow>
    \<exists>outs s'. run step ops s = Some (outs, s') \<and> inv s' \<and> spec_run spec ops (abs s) = (outs, abs s')"
  using by_abs.runs [of s "abs s" ops] by blast

end

end
