(* ===== verification/Lru_Cache.thy ===== *)
theory Lru_Cache
  imports Indexed_List Simulation "HOL-Library.Monad_Syntax"
begin

text \<open>
  The caches of \<open>c++/lru_map.h\<close>, \<open>c++/lru_set.h\<close> and \<open>c++/lru_btree.h\<close>: entries in the order of their
  last use, the last one purged when the cache is full. The calls of the hooks \<open>onPurge\<close> and \<open>onErase\<close>
  are part of the results. A full cache of capacity 0 steps before the first entry (\<open>None\<close>).
\<close>

section \<open>The operations\<close>

record ('k, 'v) lru =
  lru_list :: "('k, 'v) ilist"
  lru_cap :: nat

definition lru_new :: "nat \<Rightarrow> ('k, 'v) lru" where
  "lru_new cap = \<lparr>lru_list = il_empty, lru_cap = cap\<rparr>"

definition lru_clear :: "('k, 'v) lru \<Rightarrow> ('k, 'v) lru" where
  "lru_clear c = c\<lparr>lru_list := (lru_list c)\<lparr>il_dat := [], il_idx := []\<rparr>\<rparr>"

definition lru_resize :: "nat \<Rightarrow> ('k, 'v) lru \<Rightarrow> ('k, 'v) lru" where
  "lru_resize cap c = (lru_clear c)\<lparr>lru_cap := cap\<rparr>"

definition lru_size :: "('k, 'v) lru \<Rightarrow> nat" where
  "lru_size c = length (il_idx (lru_list c))"

text \<open>The pointer \<open>find\<close> returns is given by the value it points to.\<close>

definition lru_find :: "'k \<Rightarrow> ('k, 'v) lru \<Rightarrow> ('v option \<times> ('k, 'v) lru) option" where
  "lru_find key c =
     (case il_find key (lru_list c) of
        None \<Rightarrow> Some (None, c)
      | Some n \<Rightarrow> do {
          l \<leftarrow> il_splice_front n (lru_list c);
          e \<leftarrow> il_deref (fst (hd (il_dat l))) l;
          Some (Some (snd e), c\<lparr>lru_list := l\<rparr>)
        })"

text \<open>\<open>insert\<close>, with the entry it purged.\<close>

definition lru_insert :: "'k \<Rightarrow> 'v \<Rightarrow> ('k, 'v) lru \<Rightarrow> (('k \<times> 'v) option \<times> ('k, 'v) lru) option" where
  "lru_insert key val c =
     (let l = lru_list c
      in case il_find key l of
           Some n \<Rightarrow> do {
             e \<leftarrow> il_deref n l;
             l \<leftarrow> il_assign n (fst e, val) l;
             l \<leftarrow> il_splice_front n l;
             Some (None, c\<lparr>lru_list := l\<rparr>)
           }
         | None \<Rightarrow>
             if length (il_dat l) \<ge> lru_cap c
             then if il_dat l = [] then None
                  else do {
                    let n = fst (last (il_dat l));
                    e \<leftarrow> il_deref n l;
                    let l = il_unindex (fst e) l;
                    l \<leftarrow> il_assign n (key, val) l;
                    l \<leftarrow> il_splice_front n l;
                    Some (Some e, c\<lparr>lru_list := il_index key n l\<rparr>)
                  }
             else let (n, l) = il_push_front (key, val) l
                  in Some (None, c\<lparr>lru_list := il_index key n l\<rparr>))"

definition lru_remove :: "'k \<Rightarrow> ('k, 'v) lru \<Rightarrow> (('k \<times> 'v) option \<times> ('k, 'v) lru) option" where
  "lru_remove key c =
     (case il_find key (lru_list c) of
        None \<Rightarrow> Some (None, c)
      | Some n \<Rightarrow> do {
          e \<leftarrow> il_deref n (lru_list c);
          l \<leftarrow> il_erase n (lru_list c);
          Some (Some e, c\<lparr>lru_list := il_unindex key l\<rparr>)
        })"

text \<open>\<open>LRU_set\<close>: the same list without values.\<close>

definition lru_set_find :: "'k \<Rightarrow> ('k, unit) lru \<Rightarrow> (bool \<times> ('k, unit) lru) option" where
  "lru_set_find key c =
     (case il_find key (lru_list c) of
        None \<Rightarrow> Some (False, c)
      | Some n \<Rightarrow> do {
          l \<leftarrow> il_splice_front n (lru_list c);
          Some (True, c\<lparr>lru_list := l\<rparr>)
        })"

definition lru_set_insert :: "'k \<Rightarrow> ('k, unit) lru \<Rightarrow> ('k option \<times> ('k, unit) lru) option" where
  "lru_set_insert key c =
     (let l = lru_list c
      in case il_find key l of
           Some n \<Rightarrow> do {
             l \<leftarrow> il_splice_front n l;
             Some (None, c\<lparr>lru_list := l\<rparr>)
           }
         | None \<Rightarrow>
             if length (il_dat l) \<ge> lru_cap c
             then if il_dat l = [] then None
                  else do {
                    let n = fst (last (il_dat l));
                    e \<leftarrow> il_deref n l;
                    let l = il_unindex (fst e) l;
                    l \<leftarrow> il_assign n (key, ()) l;
                    l \<leftarrow> il_splice_front n l;
                    Some (Some (fst e), c\<lparr>lru_list := il_index key n l\<rparr>)
                  }
             else let (n, l) = il_push_front (key, ()) l
                  in Some (None, c\<lparr>lru_list := il_index key n l\<rparr>))"

definition lru_set_remove :: "'k \<Rightarrow> ('k, unit) lru \<Rightarrow> ('k option \<times> ('k, unit) lru) option" where
  "lru_set_remove key c =
     (case il_find key (lru_list c) of
        None \<Rightarrow> Some (None, c)
      | Some n \<Rightarrow> do {
          l \<leftarrow> il_erase n (lru_list c);
          Some (Some key, c\<lparr>lru_list := il_unindex key l\<rparr>)
        })"

text \<open>
  The range removal of \<open>LRU_btree\<close>, whose index is an ordered map: the keys from the lower bound on, up
  to \<open>kmax\<close>; the nodes are erased in that order, the keys afterwards.
\<close>

fun erase_range :: "'k list \<Rightarrow> ('k, 'v) ilist \<Rightarrow> (('k \<times> 'v) list \<times> ('k, 'v) ilist) option" where
  "erase_range [] l = Some ([], l)"
| "erase_range (key # hack) l = do {
     n \<leftarrow> il_find key l;
     e \<leftarrow> il_deref n l;
     l \<leftarrow> il_erase n l;
     (es, l) \<leftarrow> erase_range hack l;
     Some (e # es, l)
   }"

definition lru_remove_range :: "'k::linorder \<Rightarrow> 'k \<Rightarrow> ('k, 'v) lru \<Rightarrow> ((bool \<times> ('k \<times> 'v) list) \<times> ('k, 'v) lru) option" where
  "lru_remove_range kmin kmax c =
     (let l = lru_list c;
          from = dropWhile (\<lambda>k. k < kmin) (sort (map fst (il_idx l)));
          hack = takeWhile (\<lambda>k. \<not> k > kmax) from
      in if hack = [] then Some ((False, []), c)
         else do {
           (es, l) \<leftarrow> erase_range hack l;
           let l = fold il_unindex hack l;
           Some ((length (il_idx l) = length (il_dat l), es), c\<lparr>lru_list := l\<rparr>)
         })"

section \<open>The abstract cache\<close>

text \<open>A capacity and the entries, the most recently used one first.\<close>

datatype ('k, 'v) lru_op = Find 'k | Insert 'k 'v | Remove 'k | Remove_range 'k 'k | Clear | Resize nat

datatype ('k, 'v) lru_out = Found "'v option" | Purged "('k \<times> 'v) option" | Erased "('k \<times> 'v) option"
  | Erased_range bool "('k \<times> 'v) list" | Done

fun lru_spec :: "('k::linorder, 'v) lru_op \<Rightarrow> nat \<times> ('k \<times> 'v) list \<Rightarrow> ('k, 'v) lru_out \<times> nat \<times> ('k \<times> 'v) list" where
  "lru_spec (Find k) (cap, xs) =
     (Found (map_of xs k), cap, case map_of xs k of None \<Rightarrow> xs | Some v \<Rightarrow> (k, v) # drop_key k xs)"
| "lru_spec (Insert k v) (cap, xs) =
     (Purged (if k \<in> fst ` set xs \<or> length xs < cap then None else Some (last xs)),
      cap, (k, v) # take (cap - 1) (drop_key k xs))"
| "lru_spec (Remove k) (cap, xs) =
     (Erased (map_option (Pair k) (map_of xs k)), cap, drop_key k xs)"
| "lru_spec (Remove_range a b) (cap, xs) =
     (let es = map (\<lambda>k. (k, the (map_of xs k))) (sort (filter (\<lambda>k. a \<le> k \<and> k \<le> b) (map fst xs)))
      in (Erased_range (es \<noteq> []) es, cap, filter (\<lambda>(k, v). \<not> (a \<le> k \<and> k \<le> b)) xs))"
| "lru_spec Clear (cap, xs) = (Done, cap, [])"
| "lru_spec (Resize n) (cap, xs) = (Done, n, [])"

fun lru_step :: "('k::linorder, 'v) lru_op \<Rightarrow> ('k, 'v) lru \<Rightarrow> (('k, 'v) lru_out \<times> ('k, 'v) lru) option" where
  "lru_step (Find k) c = map_option (apfst Found) (lru_find k c)"
| "lru_step (Insert k v) c = map_option (apfst Purged) (lru_insert k v c)"
| "lru_step (Remove k) c = map_option (apfst Erased) (lru_remove k c)"
| "lru_step (Remove_range a b) c =
     map_option (\<lambda>((ok, es), c). (Erased_range ok es, c)) (lru_remove_range a b c)"
| "lru_step Clear c = Some (Done, lru_clear c)"
| "lru_step (Resize n) c = Some (Done, lru_resize n c)"

text \<open>A capacity of 0 is not allowed.\<close>

fun lru_allowed :: "('k, 'v) lru_op \<Rightarrow> bool" where
  "lru_allowed (Resize n) \<longleftrightarrow> 0 < n"
| "lru_allowed _ \<longleftrightarrow> True"

definition lru_ok :: "('k, 'v) lru \<Rightarrow> bool" where
  "lru_ok c \<longleftrightarrow> il_ok (lru_list c) \<and> length (il_dat (lru_list c)) \<le> lru_cap c \<and> 0 < lru_cap c"

definition lru_abs :: "('k, 'v) lru \<Rightarrow> nat \<times> ('k \<times> 'v) list" where
  "lru_abs c = (lru_cap c, items (lru_list c))"

section \<open>Every operation does what the abstract cache does\<close>

lemma lru_find_ok:
  assumes "lru_ok c"
  shows "\<exists>c'. lru_find k c = Some (map_of (items (lru_list c)) k, c') \<and> lru_ok c' \<and>
    lru_abs c' = snd (lru_spec (Find k) (lru_abs c))"
proof (cases "il_find k (lru_list c)")
  case None
  have ok: "il_ok (lru_list c)" using assms by (simp add: lru_ok_def)
  have "map_of (items (lru_list c)) k = None"
    using None il_find_None [OF ok, of k] by (simp add: map_of_eq_None_iff)
  then show ?thesis using None assms by (simp add: lru_find_def lru_abs_def)
next
  case (Some n)
  have ok: "il_ok (lru_list c)" using assms by (simp add: lru_ok_def)
  obtain v where v: "(n, k, v) \<in> set (il_dat (lru_list c))" "map_of (items (lru_list c)) k = Some v"
    "k \<in> fst ` set (items (lru_list c))" by (rule il_found [OF ok Some])
  note s = il_splice_front_ok [OF ok v(1)]
  have "length ((n, k, v) # remove_node n (il_dat (lru_list c))) = length (il_dat (lru_list c))"
    using length_remove_node [OF ok v(1)] by simp
  then show ?thesis
    using Some s v assms by (simp add: lru_find_def lru_abs_def lru_ok_def il_deref_def)
qed

lemma lru_insert_ok:
  assumes "lru_ok c"
  shows "\<exists>p c'. lru_insert k v c = Some (p, c') \<and> lru_ok c' \<and> lru_spec (Insert k v) (lru_abs c) = (Purged p, lru_abs c')"
proof (cases "il_find k (lru_list c)")
  case (Some n)
  let ?l = "lru_list c"
  have ok: "il_ok ?l" and cap: "length (il_dat ?l) \<le> lru_cap c" "0 < lru_cap c" using assms by (simp_all add: lru_ok_def)
  obtain w where w: "(n, k, w) \<in> set (il_dat ?l)" "il_deref n ?l = Some (k, w)" "k \<in> fst ` set (items ?l)"
    by (rule il_found [OF ok Some])
  let ?l' = "?l\<lparr>il_dat := (n, k, v) # remove_node n (il_dat ?l)\<rparr>"
  have "lru_insert k v c = Some (None, c\<lparr>lru_list := ?l'\<rparr>)"
    using Some w(2) il_assign_splice [OF w(2), of "(k, v)"] by (simp add: lru_insert_def Let_def)
  moreover have "il_ok ?l'" by (rule il_ok_value [OF ok w(1)])
  moreover have "items ?l' = (k, v) # drop_key k (items ?l)" using remove_node_items [OF ok w(1)] by (simp add: items_def)
  moreover have "take (lru_cap c - 1) (drop_key k (items ?l)) = drop_key k (items ?l)"
    using length_drop_key_in [of "items ?l" k] w(3) ok cap by (simp add: il_ok_def items_def)
  ultimately show ?thesis
    using length_remove_node [OF ok w(1)] w(3) cap by (simp add: lru_ok_def lru_abs_def)
next
  case None
  let ?l = "lru_list c"
  have ok: "il_ok ?l" and cap: "length (il_dat ?l) \<le> lru_cap c" "0 < lru_cap c" using assms by (simp_all add: lru_ok_def)
  have k: "k \<notin> fst ` set (items ?l)" using il_find_None [OF ok] None by simp
  have len: "length (items ?l) = length (il_dat ?l)" by (simp add: items_def)
  show ?thesis
  proof (cases "length (il_dat ?l) < lru_cap c")
    case True
    let ?l' = "?l\<lparr>il_dat := (il_new ?l, k, v) # il_dat ?l, il_idx := AList.update k (il_new ?l) (il_idx ?l),
      il_new := Suc (il_new ?l)\<rparr>"
    have "lru_insert k v c = Some (None, c\<lparr>lru_list := ?l'\<rparr>)"
      using None True by (simp add: lru_insert_def Let_def il_push_front_def il_index_def)
    moreover have "il_ok ?l'" using ok by (intro il_ok_add k) (auto simp: il_ok_def)
    moreover have "items ?l' = (k, v) # items ?l" by (simp add: items_def)
    ultimately show ?thesis using True k len by (simp add: lru_ok_def lru_abs_def)
  next
    case False
    then have full: "length (il_dat ?l) = lru_cap c" "il_dat ?l \<noteq> []" using cap by auto
    obtain dat n kp vp where dat: "il_dat ?l = dat @ [(n, kp, vp)]"
      using full(2) by (metis rev_exhaust prod_cases3)
    have inl: "(n, kp, vp) \<in> set (il_dat ?l)" by (simp add: dat)
    have deref: "il_deref n ?l = Some (kp, vp)" by (rule il_deref_node [OF ok inl])
    have "n \<notin> fst ` set dat" using ok dat by (simp add: il_ok_def)
    then have rest: "remove_node n (il_dat ?l) = dat"
      unfolding dat remove_node_def by (force simp: filter_id_conv)
    let ?l1 = "?l\<lparr>il_dat := dat, il_idx := AList.delete kp (il_idx ?l)\<rparr>"
    have ok1: "il_ok ?l1" using il_ok_remove [OF ok inl] rest by simp
    have items1: "items ?l = items ?l1 @ [(kp, vp)]" by (simp add: items_def dat)
    let ?l' = "?l1\<lparr>il_dat := (n, k, v) # dat, il_idx := AList.update k n (AList.delete kp (il_idx ?l)), il_new := il_new ?l\<rparr>"
    have "il_ok (?l1\<lparr>il_dat := (n, k, v) # il_dat ?l1, il_idx := AList.update k n (il_idx ?l1), il_new := il_new ?l\<rparr>)"
      by (rule il_ok_add [OF ok1]) (use k items1 \<open>n \<notin> fst ` set dat\<close> ok inl in \<open>auto simp: il_ok_def\<close>)
    then have ok': "il_ok ?l'" by simp
    have "il_deref n (il_unindex kp ?l) = Some (kp, vp)" using deref by (simp add: il_deref_def il_unindex_def)
    from il_assign_splice [OF this, of "(k, v)"]
    have "lru_insert k v c = Some (Some (kp, vp), c\<lparr>lru_list := ?l'\<rparr>)"
      using None full deref rest by (simp add: lru_insert_def Let_def dat il_unindex_def il_index_def)
    moreover have "items ?l' = (k, v) # items ?l1" by (simp add: items_def)
    moreover have "take (lru_cap c - 1) (items ?l) = items ?l1" using full(1) by (simp add: items_def dat)
    ultimately show ?thesis
      using ok' full k len items1 by (simp add: lru_ok_def lru_abs_def dat)
  qed
qed

lemma lru_remove_ok:
  assumes "lru_ok c"
  shows "\<exists>e c'. lru_remove k c = Some (e, c') \<and> lru_ok c' \<and> lru_spec (Remove k) (lru_abs c) = (Erased e, lru_abs c')"
proof (cases "il_find k (lru_list c)")
  case None
  have ok: "il_ok (lru_list c)" using assms by (simp add: lru_ok_def)
  have k: "k \<notin> fst ` set (items (lru_list c))" using None il_find_None [OF ok] by simp
  then have "map_of (items (lru_list c)) k = None" by (simp add: map_of_eq_None_iff)
  then show ?thesis using None assms k by (simp add: lru_remove_def lru_abs_def)
next
  case (Some n)
  have ok: "il_ok (lru_list c)" using assms by (simp add: lru_ok_def)
  obtain v where v: "(n, k, v) \<in> set (il_dat (lru_list c))" "il_deref n (lru_list c) = Some (k, v)"
    "map_of (items (lru_list c)) k = Some v" by (rule il_found [OF ok Some])
  have "length (remove_node n (il_dat (lru_list c))) \<le> lru_cap c"
    using length_remove_node [OF ok v(1)] assms by (simp add: lru_ok_def)
  then show ?thesis
    using Some v il_ok_remove [OF ok v(1)] remove_node_items [OF ok v(1)] assms
    by (simp add: lru_remove_def il_erase_def il_unindex_def lru_ok_def lru_abs_def items_def)
qed

text \<open>The range removal.\<close>

definition without :: "'k list \<Rightarrow> (nat \<times> 'k \<times> 'v) list \<Rightarrow> (nat \<times> 'k \<times> 'v) list" where
  "without ks dat = filter (\<lambda>node. fst (snd node) \<notin> set ks) dat"

lemma erase_range_erases:
  assumes "il_ok l" "set (done @ hack) \<subseteq> fst ` set (items l)" "distinct (done @ hack)"
  shows "erase_range hack (l\<lparr>il_dat := without done (il_dat l)\<rparr>) =
    Some (map (\<lambda>k. (k, the (map_of (items l) k))) hack, l\<lparr>il_dat := without (done @ hack) (il_dat l)\<rparr>)"
  using assms(2,3)
proof (induction hack arbitrary: "done")
  case (Cons k hack)
  let ?l = "l\<lparr>il_dat := without done (il_dat l)\<rparr>"
  obtain n where n: "il_find k l = Some n" using Cons.prems(1) il_find_None [OF assms(1), of k] by auto
  obtain v where v: "(n, k, v) \<in> set (il_dat l)" "map_of (items l) k = Some v" by (rule il_found [OF assms(1) n])
  have "(n, k, v) \<in> set (without done (il_dat l))" using v(1) Cons.prems(2) by (simp add: without_def)
  moreover have "distinct (map fst (without done (il_dat l)))"
    using assms(1) by (simp add: il_ok_def without_def distinct_map_filter)
  ultimately have d: "il_deref n ?l = Some (k, v)" by (simp add: il_deref_def)
  have "remove_node n (without done (il_dat l)) = without (done @ [k]) (il_dat l)"
    unfolding remove_node_def without_def filter_filter
    by (intro filter_cong) (auto simp: node_iff_key [OF assms(1) v(1)])
  then have e: "il_erase n ?l = Some (l\<lparr>il_dat := without (done @ [k]) (il_dat l)\<rparr>)"
    using d by (simp add: il_erase_def)
  have f: "il_find k ?l = Some n" using n by (simp add: il_find_def)
  show ?case using Cons.IH [of "done @ [k]"] Cons.prems f d e v(2) by simp
qed simp

lemma fold_unindex:
  "fold il_unindex ks l = l\<lparr>il_idx := filter (\<lambda>e. fst e \<notin> set ks) (il_idx l)\<rparr>"
proof (induction ks arbitrary: l)
  case (Cons k ks)
  have "AList.delete k (il_idx l) = filter (\<lambda>e. fst e \<noteq> k) (il_idx l)"
    unfolding AList.delete_eq by (rule filter_cong) auto
  then show ?case using Cons by (auto simp: il_unindex_def conj_commute intro!: arg_cong [of _ _ "\<lambda>f. filter f _"])
qed simp

lemma il_ok_without:
  assumes "il_ok l"
  shows "il_ok (l\<lparr>il_dat := without ks (il_dat l), il_idx := filter (\<lambda>e. fst e \<notin> set ks) (il_idx l)\<rparr>)"
proof -
  have i: "set (il_idx l) = (\<lambda>(n, k, v). (k, n)) ` set (il_dat l)" using assms by (simp add: il_ok_def)
  have "{e \<in> set (il_idx l). fst e \<notin> set ks} = (\<lambda>(n, k, v). (k, n)) ` {node \<in> set (il_dat l). fst (snd node) \<notin> set ks}"
    unfolding i by force
  then show ?thesis
    using assms by (simp add: il_ok_def items_def without_def distinct_map_filter)
qed

lemma sorted_between:
  fixes xs :: "'k::linorder list"
  assumes "sorted xs"
  shows "takeWhile (\<lambda>k. \<not> k > b) (dropWhile (\<lambda>k. k < a) xs) = filter (\<lambda>k. a \<le> k \<and> k \<le> b) xs"
  using assms
proof (induction xs)
  case (Cons x xs)
  show ?case
  proof (cases "x < a")
    case False
    have t: "takeWhile (\<lambda>k. \<not> k > b) ys = filter (\<lambda>k. a \<le> k \<and> k \<le> b) ys" if "sorted ys" "\<forall>y \<in> set ys. a \<le> y" for ys
      using that by (induction ys) (auto simp: not_less filter_empty_conv empty_filter_conv dest: order_trans)
    have "dropWhile (\<lambda>k. k < a) (x # xs) = x # xs" using False by simp
    moreover have "\<forall>y \<in> set (x # xs). a \<le> y" using Cons.prems False by (auto simp: not_less intro: order_trans)
    ultimately show ?thesis using t [OF Cons.prems] by simp
  qed (use Cons in auto)
qed simp

lemma index_keys:
  fixes l :: "('k::linorder, 'v) ilist"
  assumes "il_ok l"
  shows "sort (map fst (il_idx l)) = sort (map fst (items l))"
proof (rule properties_for_sort [symmetric])
  have "fst ` set (il_idx l) = fst ` set (items l)"
    using assms by (simp add: il_ok_def items_def image_image case_prod_beta)
  then have "mset (map fst (il_idx l)) = mset (map fst (items l))"
    using assms by (intro set_eq_iff_mset_eq_distinct [THEN iffD1]) (simp_all add: il_ok_def)
  then show "mset (sort (map fst (il_idx l))) = mset (map fst (items l))" by simp
qed simp

lemma lru_remove_range_ok:
  assumes "lru_ok c"
  shows "\<exists>ok es c'. lru_remove_range a b c = Some ((ok, es), c') \<and> lru_ok c' \<and>
    lru_spec (Remove_range a b) (lru_abs c) = (Erased_range ok es, lru_abs c')"
proof -
  let ?l = "lru_list c"
  have ok: "il_ok ?l" and cap: "length (il_dat ?l) \<le> lru_cap c" "0 < lru_cap c" using assms by (simp_all add: lru_ok_def)
  define hack where "hack = sort (filter (\<lambda>k. a \<le> k \<and> k \<le> b) (map fst (items ?l)))"
  have h: "takeWhile (\<lambda>k. \<not> k > b) (dropWhile (\<lambda>k. k < a) (sort (map fst (il_idx ?l)))) = hack"
    unfolding index_keys [OF ok] hack_def by (simp add: sorted_between filter_sort)
  have set: "set hack = {k \<in> fst ` set (items ?l). a \<le> k \<and> k \<le> b}" by (auto simp: hack_def)
  have dist: "distinct hack" using ok by (simp add: hack_def il_ok_def)
  have w: "without [] (il_dat ?l) = il_dat ?l" by (simp add: without_def)
  from erase_range_erases [OF ok, of "[]" hack] have e: "erase_range hack ?l =
      Some (map (\<lambda>k. (k, the (map_of (items ?l) k))) hack, ?l\<lparr>il_dat := without hack (il_dat ?l)\<rparr>)"
    using set dist by (simp add: w)
  let ?l' = "?l\<lparr>il_dat := without hack (il_dat ?l), il_idx := filter (\<lambda>e. fst e \<notin> set hack) (il_idx ?l)\<rparr>"
  have ok': "il_ok ?l'" by (rule il_ok_without [OF ok])
  have sizes: "length (il_idx l) = length (il_dat l)" if "il_ok l" for l :: "('a, 'b) ilist"
    using arg_cong [OF index_keys [OF that], of length] by (simp add: items_def)
  have items': "items ?l' = filter (\<lambda>(k, v). \<not> (a \<le> k \<and> k \<le> b)) (items ?l)"
  proof -
    have "without hack (il_dat ?l) = filter (\<lambda>node. \<not> (a \<le> fst (snd node) \<and> fst (snd node) \<le> b)) (il_dat ?l)"
      unfolding without_def set by (intro filter_cong) (auto simp: items_def image_image)
    then show ?thesis by (simp add: items_def filter_map comp_def case_prod_beta)
  qed
  show ?thesis
  proof (cases "hack = []")
    case True
    then have "\<forall>e \<in> set (items ?l). \<not> (a \<le> fst e \<and> fst e \<le> b)" using set by auto
    then have "filter (\<lambda>(k, v). \<not> (a \<le> k \<and> k \<le> b)) (items ?l) = items ?l" by (intro filter_True) auto
    then show ?thesis
      using True assms h unfolding hack_def [symmetric]
      by (intro exI [of _ False] exI [of _ "[]"] exI [of _ c])
        (simp add: lru_remove_range_def Let_def lru_abs_def flip: hack_def)
  next
    case False
    have "length (il_dat ?l') \<le> length (il_dat ?l)" by (simp add: without_def)
    then have "lru_ok (c\<lparr>lru_list := ?l'\<rparr>)" using ok' cap by (simp add: lru_ok_def)
    moreover have "lru_remove_range a b c = Some ((True, map (\<lambda>k. (k, the (map_of (items ?l) k))) hack), c\<lparr>lru_list := ?l'\<rparr>)"
      using False e sizes [OF ok'] unfolding lru_remove_range_def Let_def h by (simp add: fold_unindex)
    ultimately show ?thesis
      using False items' by (intro exI [of _ True]) (simp add: Let_def lru_abs_def flip: hack_def)
  qed
qed

lemma lru_step_ok:
  assumes "lru_ok c" "lru_allowed op"
  shows "\<exists>out c'. lru_step op c = Some (out, c') \<and> lru_ok c' \<and> lru_spec op (lru_abs c) = (out, lru_abs c')"
proof (cases op)
  case (Find k)
  then show ?thesis using lru_find_ok [OF assms(1), of k] by (auto simp: lru_abs_def)
next
  case (Insert k v)
  then show ?thesis using lru_insert_ok [OF assms(1), of k v] by auto
next
  case (Remove k)
  then show ?thesis using lru_remove_ok [OF assms(1), of k] by auto
next
  case (Remove_range a b)
  then show ?thesis using lru_remove_range_ok [OF assms(1), of a b] by auto
qed (use assms in \<open>auto simp: lru_clear_def lru_resize_def lru_ok_def lru_abs_def il_ok_def items_def\<close>)

interpretation lru: simulation lru_step lru_ok lru_abs lru_spec "\<lambda>op _. lru_allowed op"
  by unfold_locales (rule lru_step_ok)

lemma lru_run_new:
  assumes "0 < cap" "list_all lru_allowed ops"
  shows "\<exists>outs c. run lru_step ops (lru_new cap) = Some (outs, c) \<and> lru_ok c \<and> spec_run lru_spec ops (cap, []) = (outs, lru_abs c)"
proof -
  have "lru_ok (lru_new cap :: ('a, 'b) lru)" "lru_abs (lru_new cap :: ('a, 'b) lru) = (cap, [])"
    using assms(1) by (simp_all add: lru_ok_def lru_new_def lru_abs_def il_ok_empty) (simp add: il_empty_def)
  moreover have "run_allowed (\<lambda>op _. lru_allowed op) lru_spec ops (cap, [])"
    using assms(2) by (intro run_allowed_if) simp
  ultimately show ?thesis using lru.runs [of "lru_new cap" ops] by simp
qed

text \<open>C37. The caches are the abstract cache: from a new cache of a capacity above 0, any calls of find,
  insert, remove, removal of a range, clear and resize give the results and the hook calls of a list of
  entries kept in the order of their last use, whose last entry is purged when a new key meets a full
  cache; no iterator is ever stale and the capacity is never exceeded.\<close>

theorem lru_refines_recency_list:
  assumes "0 < cap" "list_all lru_allowed ops"
  shows "\<exists>outs c. run lru_step ops (lru_new cap) = Some (outs, c) \<and>
    spec_run lru_spec ops (cap, []) = (outs, lru_cap c, items (lru_list c)) \<and> lru_size c \<le> lru_cap c"
proof -
  obtain outs c where c: "run lru_step ops (lru_new cap) = Some (outs, c)" "lru_ok c"
    "spec_run lru_spec ops (cap, []) = (outs, lru_abs c)"
    using lru_run_new [OF assms] by blast
  have "length (il_idx (lru_list c)) = length (il_dat (lru_list c))"
    using c(2) arg_cong [OF index_keys, of "lru_list c" length] by (simp add: lru_ok_def items_def)
  then show ?thesis using c by (simp add: lru_abs_def lru_size_def lru_ok_def)
qed

theorem lru_refines_recency_list_witness:
  "\<exists>outs c. run lru_step [Insert 1 True, Insert 2 False, Find 1, Insert (3 :: nat) True] (lru_new 2) = Some (outs, c) \<and>
     outs = [Purged None, Purged None, Found (Some True), Purged (Some (2, False))] \<and> lru_size c \<le> 2"
  using lru_refines_recency_list [of 2 "[Insert 1 True, Insert 2 False, Find 1, Insert (3 :: nat) True]"] by auto

text \<open>The keys by their last use: an insertion uses its key, a search uses it when it is among the first \<open>cap\<close>.\<close>

fun uses :: "nat \<Rightarrow> ('k, 'v) lru_op list \<Rightarrow> 'k list \<Rightarrow> 'k list" where
  "uses cap (Insert k v # ops) ks = uses cap ops (k # removeAll k ks)"
| "uses cap (Find k # ops) ks = uses cap ops (if k \<in> set (take cap ks) then k # removeAll k ks else ks)"
| "uses cap (op # ops) ks = uses cap ops ks"
| "uses cap [] ks = ks"

lemma take_use:
  assumes "distinct ks" "0 < cap"
  shows "k # take (cap - 1) (removeAll k (take cap ks)) = take cap (k # removeAll k ks)"
proof -
  have "take n (removeAll k (take (Suc n) xs)) = take n (removeAll k xs)" if "distinct xs" for n xs
    using that
  proof (induction xs arbitrary: n)
    case (Cons x xs)
    show ?case
    proof (cases "x = k")
      case True
      then have "k \<notin> set xs" "k \<notin> set (take n xs)" using Cons.prems by (auto dest: in_set_takeD)
      then show ?thesis using True by simp
    next
      case False
      then show ?thesis using Cons by (cases n) auto
    qed
  qed simp
  from this [OF assms(1), of "cap - 1"] show ?thesis using assms(2) by (cases cap) simp_all
qed

lemma map_fst_drop_key: "map fst (drop_key k xs) = removeAll k (map fst xs)"
  by (induction xs) (auto simp: drop_key_def)

lemma spec_holds_most_recent:
  assumes "0 < cap" "list_all (\<lambda>op. case op of Insert k v \<Rightarrow> True | Find k \<Rightarrow> True | _ \<Rightarrow> False) ops"
    "map fst xs = take cap ks" "distinct ks"
  shows "fst (snd (spec_run lru_spec ops (cap, xs))) = cap \<and>
    map fst (snd (snd (spec_run lru_spec ops (cap, xs)))) = take cap (uses cap ops ks)"
  using assms(2-)
proof (induction ops arbitrary: xs ks)
  case (Cons op ops)
  show ?case
  proof (cases op)
    case (Insert k v)
    let ?xs = "(k, v) # take (cap - 1) (drop_key k xs)"
    have "map fst ?xs = take cap (k # removeAll k ks)"
      using take_use [OF Cons.prems(3) assms(1), of k] Cons.prems(2) by (simp add: take_map [symmetric] map_fst_drop_key)
    from Cons.IH [OF _ this] Cons.prems(1,3) Insert show ?thesis by (simp del: spec_run.simps add: distinct_removeAll)
  next
    case (Find k)
    show ?thesis
    proof (cases "map_of xs k")
      case None
      then have "k \<notin> set (take cap ks)" by (simp add: map_of_eq_None_iff flip: Cons.prems(2))
      then show ?thesis using Cons.IH [OF _ Cons.prems(2,3)] Cons.prems(1) Find None by (simp del: spec_run.simps)
    next
      case (Some v)
      then have k: "k \<in> set (take cap ks)" unfolding Cons.prems(2) [symmetric] using map_of_SomeD [OF Some] by force
      have "length (removeAll k (take cap ks)) \<le> cap - 1"
        using length_removeAll_less [OF k] by simp linarith
      then have "map fst ((k, v) # drop_key k xs) = take cap (k # removeAll k ks)"
        using take_use [OF Cons.prems(3) assms(1), of k] Cons.prems(2) by (simp add: map_fst_drop_key)
      from Cons.IH [OF _ this] Cons.prems(1,3) Find Some k show ?thesis by (simp del: spec_run.simps add: distinct_removeAll)
    qed
  qed (use Cons.prems in auto)
qed simp

text \<open>C38. A cache that is filled and searched holds exactly its most recently used keys, newest first: as many
  as its capacity allows of the keys in the order of their last insertion or successful search.\<close>

theorem lru_holds_most_recent:
  assumes "0 < cap" "list_all (\<lambda>op. case op of Insert k v \<Rightarrow> True | Find k \<Rightarrow> True | _ \<Rightarrow> False) ops"
  shows "\<exists>outs c. run lru_step ops (lru_new cap) = Some (outs, c) \<and>
    map fst (items (lru_list c)) = take cap (uses cap ops [])"
proof -
  have "list_all lru_allowed ops"
    using assms(2) by (rule list.pred_mono_strong) (auto split: lru_op.splits)
  then obtain outs c where c: "run lru_step ops (lru_new cap) = Some (outs, c)" "lru_abs c = snd (spec_run lru_spec ops (cap, []))"
    using lru_run_new [OF assms(1), of ops] by fastforce
  have "map fst (snd (snd (spec_run lru_spec ops (cap, [])))) = take cap (uses cap ops [])"
    using spec_holds_most_recent [OF assms, of "[]" "[]"] by simp
  then show ?thesis using c by (auto simp flip: c(2) simp: lru_abs_def)
qed

theorem lru_holds_most_recent_witness:
  "\<exists>outs c. run lru_step [Insert 1 True, Insert 2 False, Find 1, Insert (3 :: nat) True] (lru_new 2) = Some (outs, c) \<and>
     map fst (items (lru_list c)) = [3, 1]"
  using lru_holds_most_recent [of 2 "[Insert 1 True, Insert 2 False, Find 1, Insert (3 :: nat) True]"] by simp

text \<open>The set is the map with values of type unit; a cache of capacity 0 fails on its first insertion.\<close>

lemma lru_set_is_map:
  assumes "lru_ok c"
  shows "lru_set_find k c = map_option (apfst (\<lambda>v. v \<noteq> None)) (lru_find k c)"
    and "lru_set_insert k c = map_option (apfst (map_option fst)) (lru_insert k () c)"
    and "lru_set_remove k c = map_option (apfst (map_option fst)) (lru_remove k c)"
proof -
  have ok: "il_ok (lru_list c)" using assms by (simp add: lru_ok_def)
  have found: "\<exists>v. (n, k, v) \<in> set (il_dat (lru_list c)) \<and> il_deref n (lru_list c) = Some (k, v)"
    if "il_find k (lru_list c) = Some n" for n
    using il_found [OF ok that] by blast
  show "lru_set_find k c = map_option (apfst (\<lambda>v. v \<noteq> None)) (lru_find k c)"
  proof (cases "il_find k (lru_list c)")
    case (Some n)
    then show ?thesis using found il_splice_front_ok(1) [OF ok]
      by (fastforce simp: lru_set_find_def lru_find_def il_deref_def)
  qed (simp add: lru_set_find_def lru_find_def)
  show "lru_set_insert k c = map_option (apfst (map_option fst)) (lru_insert k () c)"
  proof (cases "il_find k (lru_list c)")
    case None
    then show ?thesis
      by (auto simp: lru_set_insert_def lru_insert_def Let_def il_push_front_def split: Option.bind_split)
  next
    case (Some n)
    then show ?thesis using found [OF Some] il_splice_front_ok(1) [OF ok] il_assign_splice [of n "lru_list c" _ "(k, ())"]
      by (auto simp: lru_set_insert_def lru_insert_def Let_def)
  qed
  show "lru_set_remove k c = map_option (apfst (map_option fst)) (lru_remove k c)"
    using found by (auto simp: lru_set_remove_def lru_remove_def il_erase_def split: option.split)
qed

lemma lru_capacity_zero: "lru_insert k v (lru_new 0) = None"
  by (simp add: lru_insert_def lru_new_def il_empty_def il_find_def)

end
