(* ===== verification/Expire.thy ===== *)
theory Expire
  imports Indexed_List Simulation
begin

text \<open>
  The containers of \<open>c++/expire.h\<close> and \<open>c++/crumb.h\<close>: entries with the time of their last use, the
  oldest first, and a \<open>purge\<close> that stops at the first entry that is not overdue. What \<open>time(NULL)\<close>
  returns is an argument; in \<open>purge\<close>, which reads the clock before every entry, \<open>clock i\<close> is the
  \<open>i\<close>-th reading. The keys given to \<open>onErase\<close> and \<open>onPurge\<close> are part of the results.
\<close>

section \<open>The operations\<close>

record ('k, 'v) crumb =
  cr_list :: "('k, int \<times> 'v) ilist"
  cr_overdue :: int

definition crumb_new :: "int \<Rightarrow> ('k, 'v) crumb" where
  "crumb_new sec = \<lparr>cr_list = il_empty, cr_overdue = sec\<rparr>"

text \<open>\<open>init\<close> sets the time to live of the entries, those already there included.\<close>

definition crumb_init :: "int \<Rightarrow> ('k, 'v) crumb \<Rightarrow> ('k, 'v) crumb" where
  "crumb_init sec c = c\<lparr>cr_overdue := sec\<rparr>"

text \<open>The time of a node is set and the node moved to the end.\<close>

definition renew :: "int \<Rightarrow> nat \<Rightarrow> ('k, int \<times> 'v) ilist \<Rightarrow> ('k, int \<times> 'v) ilist option" where
  "renew now n l =
     Option.bind (il_deref n l) (\<lambda>(key, tick, val).
     Option.bind (il_assign n (key, now, val) l) (\<lambda>l. il_splice_back n l))"

definition crumb_add :: "int \<Rightarrow> 'k \<Rightarrow> 'v \<Rightarrow> ('k, 'v) crumb \<Rightarrow> ('k, 'v) crumb option" where
  "crumb_add now key val c =
     (case il_find key (cr_list c) of
        None \<Rightarrow> (let (n, l) = il_push_back (key, now, val) (cr_list c)
                 in Some (c\<lparr>cr_list := il_index key n l\<rparr>))
      | Some n \<Rightarrow> map_option (\<lambda>l. c\<lparr>cr_list := l\<rparr>) (renew now n (cr_list c)))"

definition crumb_sub :: "'k \<Rightarrow> ('k, 'v) crumb \<Rightarrow> ((int \<times> 'v) option \<times> ('k, 'v) crumb) option" where
  "crumb_sub key c =
     (case il_find key (cr_list c) of
        None \<Rightarrow> Some (None, c)
      | Some n \<Rightarrow>
          Option.bind (il_deref n (cr_list c)) (\<lambda>e.
          Option.bind (il_erase n (cr_list c)) (\<lambda>l.
          Some (Some (snd e), c\<lparr>cr_list := il_unindex key l\<rparr>))))"

definition crumb_get :: "'k \<Rightarrow> ('k, 'v) crumb \<Rightarrow> (int \<times> 'v) option option" where
  "crumb_get key c =
     (case il_find key (cr_list c) of
        None \<Rightarrow> Some None
      | Some n \<Rightarrow> map_option (\<lambda>e. Some (snd e)) (il_deref n (cr_list c)))"

definition crumb_touch :: "int \<Rightarrow> 'k \<Rightarrow> ('k, 'v) crumb \<Rightarrow> (bool \<times> ('k, 'v) crumb) option" where
  "crumb_touch now key c =
     (case il_find key (cr_list c) of
        None \<Rightarrow> Some (False, c)
      | Some n \<Rightarrow> map_option (\<lambda>l. (True, c\<lparr>cr_list := l\<rparr>)) (renew now n (cr_list c)))"

function purge_loop :: "(nat \<Rightarrow> int) \<Rightarrow> int \<Rightarrow> nat \<Rightarrow> ('k, int \<times> 'v) ilist \<Rightarrow>
    ('k \<times> int \<times> 'v) list \<times> ('k, int \<times> 'v) ilist" where
  "purge_loop clock overdue i l =
     (case il_dat l of
        [] \<Rightarrow> ([], l)
      | (n, key, tick, val) # _ \<Rightarrow>
          if clock i - tick < overdue then ([], l)
          else let (es, l') = purge_loop clock overdue (Suc i)
                     ((il_unindex key l)\<lparr>il_dat := remove_node n (il_dat l)\<rparr>)
               in ((key, tick, val) # es, l'))"
  by pat_completeness auto
termination
  by (relation "measure (\<lambda>(clock, overdue, i, l). length (il_dat l))") (auto simp: remove_node_def less_Suc_eq_le)

declare purge_loop.simps [simp del]

definition crumb_purge :: "(nat \<Rightarrow> int) \<Rightarrow> ('k, 'v) crumb \<Rightarrow> ('k \<times> int \<times> 'v) list \<times> ('k, 'v) crumb" where
  "crumb_purge clock c = apsnd (\<lambda>l. c\<lparr>cr_list := l\<rparr>) (purge_loop clock (cr_overdue c) 0 (cr_list c))"

text \<open>\<open>expire\<close> is the same without values.\<close>

definition expire_add :: "int \<Rightarrow> 'k \<Rightarrow> ('k, unit) crumb \<Rightarrow> ('k, unit) crumb option" where
  "expire_add now key c =
     (case il_find key (cr_list c) of
        None \<Rightarrow> (let (n, l) = il_push_back (key, now, ()) (cr_list c)
                 in Some (c\<lparr>cr_list := il_index key n l\<rparr>))
      | Some n \<Rightarrow> map_option (\<lambda>l. c\<lparr>cr_list := l\<rparr>) (renew now n (cr_list c)))"

definition expire_sub :: "'k \<Rightarrow> ('k, unit) crumb \<Rightarrow> (bool \<times> ('k, unit) crumb) option" where
  "expire_sub key c =
     (case il_find key (cr_list c) of
        None \<Rightarrow> Some (False, c)
      | Some n \<Rightarrow> map_option (\<lambda>l. (True, c\<lparr>cr_list := il_unindex key l\<rparr>)) (il_erase n (cr_list c)))"

definition expire_get :: "'k \<Rightarrow> ('k, unit) crumb \<Rightarrow> bool" where
  "expire_get key c \<longleftrightarrow> il_find key (cr_list c) \<noteq> None"

definition expire_touch :: "int \<Rightarrow> 'k \<Rightarrow> ('k, unit) crumb \<Rightarrow> (bool \<times> ('k, unit) crumb) option" where
  "expire_touch now key c =
     (case il_find key (cr_list c) of
        None \<Rightarrow> Some (False, c)
      | Some n \<Rightarrow> map_option (\<lambda>l. (True, c\<lparr>cr_list := l\<rparr>)) (renew now n (cr_list c)))"

section \<open>The abstract container\<close>

text \<open>
  The overdue time and the entries. A purge removes every overdue entry, wherever it stands. An
  operation comes with the time at which it is called.
\<close>

datatype ('k, 'v) crumb_op = Add 'k 'v | Sub 'k | Get 'k | Touch 'k | Purge | Init int

datatype ('k, 'v) crumb_out = Added | Subbed "(int \<times> 'v) option" | Got "(int \<times> 'v) option" | Touched bool
  | Purged "('k \<times> int \<times> 'v) list" | Inited

definition overdue :: "int \<Rightarrow> int \<Rightarrow> 'k \<times> int \<times> 'v \<Rightarrow> bool" where
  "overdue now sec e \<longleftrightarrow> \<not> now - fst (snd e) < sec"

fun crumb_spec :: "int \<times> ('k, 'v) crumb_op \<Rightarrow> int \<times> ('k \<times> int \<times> 'v) list \<Rightarrow>
    ('k, 'v) crumb_out \<times> int \<times> ('k \<times> int \<times> 'v) list" where
  "crumb_spec (now, Add k v) (sec, xs) =
     (Added, sec, drop_key k xs @ [(k, now, case map_of xs k of None \<Rightarrow> v | Some (tick, w) \<Rightarrow> w)])"
| "crumb_spec (now, Sub k) (sec, xs) = (Subbed (map_of xs k), sec, drop_key k xs)"
| "crumb_spec (now, Get k) (sec, xs) = (Got (map_of xs k), sec, xs)"
| "crumb_spec (now, Touch k) (sec, xs) =
     (Touched (map_of xs k \<noteq> None), sec,
      case map_of xs k of None \<Rightarrow> xs | Some (tick, w) \<Rightarrow> drop_key k xs @ [(k, now, w)])"
| "crumb_spec (now, Purge) (sec, xs) =
     (Purged (filter (overdue now sec) xs), sec, filter (\<lambda>e. \<not> overdue now sec e) xs)"
| "crumb_spec (now, Init new) (sec, xs) = (Inited, new, xs)"

fun crumb_step :: "int \<times> ('k, 'v) crumb_op \<Rightarrow> ('k, 'v) crumb \<Rightarrow> (('k, 'v) crumb_out \<times> ('k, 'v) crumb) option" where
  "crumb_step (now, Add k v) c = map_option (Pair Added) (crumb_add now k v c)"
| "crumb_step (now, Sub k) c = map_option (apfst Subbed) (crumb_sub k c)"
| "crumb_step (now, Get k) c = map_option (\<lambda>v. (Got v, c)) (crumb_get k c)"
| "crumb_step (now, Touch k) c = map_option (apfst Touched) (crumb_touch now k c)"
| "crumb_step (now, Purge) c = Some (apfst Purged (crumb_purge (\<lambda>_. now) c))"
| "crumb_step (now, Init new) c = Some (Inited, crumb_init new c)"

text \<open>No entry is from the future.\<close>

definition past :: "int \<Rightarrow> ('k \<times> int \<times> 'v) list \<Rightarrow> bool" where
  "past now xs \<longleftrightarrow> list_all (\<lambda>e. fst (snd e) \<le> now) xs"

definition ticks :: "('k \<times> int \<times> 'v) list \<Rightarrow> int list" where
  "ticks xs = map (\<lambda>e. fst (snd e)) xs"

definition crumb_ok :: "('k, 'v) crumb \<Rightarrow> bool" where
  "crumb_ok c \<longleftrightarrow> il_ok (cr_list c) \<and> sorted (ticks (items (cr_list c)))"

definition crumb_abs :: "('k, 'v) crumb \<Rightarrow> int \<times> ('k \<times> int \<times> 'v) list" where
  "crumb_abs c = (cr_overdue c, items (cr_list c))"

section \<open>Every operation does what the abstract container does\<close>

lemma sorted_snoc_now:
  "sorted (ticks xs) \<Longrightarrow> past now xs \<Longrightarrow> sorted (ticks (drop_key k xs @ [(k, now, v)]))"
  by (auto simp: ticks_def past_def drop_key_def sorted_append list_all_iff intro: sorted_filter)

lemma renew_ok:
  assumes "il_ok l" "(n, key, tick, val) \<in> set (il_dat l)"
  shows "\<exists>l'. renew now n l = Some l' \<and> il_ok l' \<and> items l' = drop_key key (items l) @ [(key, now, val)]"
proof -
  have d: "il_deref n l = Some (key, tick, val)" by (rule il_deref_node [OF assms])
  let ?l = "l\<lparr>il_dat := remove_node n (il_dat l) @ [(n, key, now, val)]\<rparr>"
  have "renew now n l = Some ?l"
    using d il_assign_splice [OF d, of "(key, now, val)"] by (simp add: renew_def)
  moreover have "il_ok ?l"
  proof -
    have ok: "il_ok (l\<lparr>il_dat := (n, key, now, val) # remove_node n (il_dat l)\<rparr>)" by (rule il_ok_value [OF assms])
    from il_ok_mset [of "remove_node n (il_dat l) @ [(n, key, now, val)]" "l\<lparr>il_dat := (n, key, now, val) # remove_node n (il_dat l)\<rparr>"]
    show ?thesis using ok by simp
  qed
  moreover have "items ?l = drop_key key (items l) @ [(key, now, val)]"
    using remove_node_items [OF assms] by (simp add: items_def)
  ultimately show ?thesis by blast
qed

lemma crumb_add_ok:
  assumes "crumb_ok c" "past now (items (cr_list c))"
  shows "\<exists>c'. crumb_add now k v c = Some c' \<and> crumb_ok c' \<and> crumb_spec (now, Add k v) (crumb_abs c) = (Added, crumb_abs c')"
proof (cases "il_find k (cr_list c)")
  case None
  let ?l = "cr_list c"
  have ok: "il_ok ?l" using assms(1) by (simp add: crumb_ok_def)
  have k: "k \<notin> fst ` set (items ?l)" using il_find_None [OF ok] None by simp
  let ?l' = "?l\<lparr>il_dat := il_dat ?l @ [(il_new ?l, k, now, v)], il_idx := AList.update k (il_new ?l) (il_idx ?l), il_new := Suc (il_new ?l)\<rparr>"
  let ?l1 = "?l\<lparr>il_dat := (il_new ?l, k, now, v) # il_dat ?l, il_idx := AList.update k (il_new ?l) (il_idx ?l), il_new := Suc (il_new ?l)\<rparr>"
  have "il_ok ?l1" using ok by (intro il_ok_add k) (auto simp: il_ok_def)
  then have "il_ok (?l1\<lparr>il_dat := il_dat ?l'\<rparr>)" by (subst il_ok_mset) simp_all
  moreover have "?l1\<lparr>il_dat := il_dat ?l'\<rparr> = ?l'" by simp
  ultimately have "il_ok ?l'" by (simp only:)
  moreover have "items ?l' = drop_key k (items ?l) @ [(k, now, v)]" using k by (simp add: items_def)
  moreover have "map_of (items ?l) k = None" using k by (simp add: map_of_eq_None_iff)
  moreover have "crumb_add now k v c = Some (c\<lparr>cr_list := ?l'\<rparr>)"
    using None by (simp add: crumb_add_def il_push_back_def il_index_def)
  ultimately show ?thesis
    using sorted_snoc_now [OF _ assms(2)] assms(1) by (simp add: crumb_ok_def crumb_abs_def)
next
  case (Some n)
  have ok: "il_ok (cr_list c)" using assms(1) by (simp add: crumb_ok_def)
  obtain e where "(n, k, e) \<in> set (il_dat (cr_list c))" "map_of (items (cr_list c)) k = Some e" by (rule il_found [OF ok Some])
  then obtain tick w where e: "(n, k, tick, w) \<in> set (il_dat (cr_list c))" "map_of (items (cr_list c)) k = Some (tick, w)"
    by (cases e) auto
  obtain l' where l': "renew now n (cr_list c) = Some l'" "il_ok l'" "items l' = drop_key k (items (cr_list c)) @ [(k, now, w)]"
    using renew_ok [OF ok e(1)] by blast
  then show ?thesis
    using Some e(2) sorted_snoc_now [OF _ assms(2)] assms(1) by (simp add: crumb_add_def crumb_ok_def crumb_abs_def)
qed

lemma crumb_touch_ok:
  assumes "crumb_ok c" "past now (items (cr_list c))"
  shows "\<exists>ok c'. crumb_touch now k c = Some (ok, c') \<and> crumb_ok c' \<and>
    crumb_spec (now, Touch k) (crumb_abs c) = (Touched ok, crumb_abs c')"
proof (cases "il_find k (cr_list c)")
  case None
  have ok: "il_ok (cr_list c)" using assms(1) by (simp add: crumb_ok_def)
  then have "map_of (items (cr_list c)) k = None" using il_find_None [OF ok, of k] None by (simp add: map_of_eq_None_iff)
  then show ?thesis using None assms(1)
    by (intro exI [of _ False] exI [of _ c]) (simp add: crumb_touch_def crumb_abs_def)
next
  case (Some n)
  have ok: "il_ok (cr_list c)" using assms(1) by (simp add: crumb_ok_def)
  obtain e where "(n, k, e) \<in> set (il_dat (cr_list c))" "map_of (items (cr_list c)) k = Some e" by (rule il_found [OF ok Some])
  then obtain tick w where e: "(n, k, tick, w) \<in> set (il_dat (cr_list c))" "map_of (items (cr_list c)) k = Some (tick, w)"
    by (cases e) auto
  obtain l' where l': "renew now n (cr_list c) = Some l'" "il_ok l'" "items l' = drop_key k (items (cr_list c)) @ [(k, now, w)]"
    using renew_ok [OF ok e(1)] by blast
  then show ?thesis
    using Some e(2) sorted_snoc_now [OF _ assms(2)] assms(1)
    by (intro exI [of _ True] exI [of _ "c\<lparr>cr_list := l'\<rparr>"]) (simp add: crumb_touch_def crumb_ok_def crumb_abs_def)
qed

lemma sorted_drop_key: "sorted (ticks xs) \<Longrightarrow> sorted (ticks (drop_key k xs))"
  by (simp add: ticks_def drop_key_def sorted_filter)

lemma crumb_sub_ok:
  assumes "crumb_ok c"
  shows "\<exists>e c'. crumb_sub k c = Some (e, c') \<and> crumb_ok c' \<and> crumb_spec (now, Sub k) (crumb_abs c) = (Subbed e, crumb_abs c')"
proof (cases "il_find k (cr_list c)")
  case None
  have ok: "il_ok (cr_list c)" using assms by (simp add: crumb_ok_def)
  have k: "k \<notin> fst ` set (items (cr_list c))" using il_find_None [OF ok] None by simp
  then have "map_of (items (cr_list c)) k = None" by (simp add: map_of_eq_None_iff)
  then show ?thesis using None assms k by (simp add: crumb_sub_def crumb_abs_def)
next
  case (Some n)
  have ok: "il_ok (cr_list c)" using assms by (simp add: crumb_ok_def)
  obtain e where e: "(n, k, e) \<in> set (il_dat (cr_list c))" "il_deref n (cr_list c) = Some (k, e)"
    "map_of (items (cr_list c)) k = Some e" by (rule il_found [OF ok Some])
  show ?thesis
    using Some e il_ok_remove [OF ok e(1)] remove_node_items [OF ok e(1)] sorted_drop_key [of "items (cr_list c)" k] assms
    by (simp add: crumb_sub_def il_erase_def il_unindex_def crumb_ok_def crumb_abs_def items_def)
qed

lemma crumb_get_ok:
  assumes "crumb_ok c"
  shows "crumb_get k c = Some (map_of (items (cr_list c)) k)"
proof (cases "il_find k (cr_list c)")
  case None
  have ok: "il_ok (cr_list c)" using assms by (simp add: crumb_ok_def)
  then have "map_of (items (cr_list c)) k = None" using il_find_None [OF ok, of k] None by (simp add: map_of_eq_None_iff)
  then show ?thesis using None by (simp add: crumb_get_def)
next
  case (Some n)
  have ok: "il_ok (cr_list c)" using assms by (simp add: crumb_ok_def)
  obtain e where "il_deref n (cr_list c) = Some (k, e)" "map_of (items (cr_list c)) k = Some e" by (rule il_found [OF ok Some])
  then show ?thesis using Some by (simp add: crumb_get_def)
qed

text \<open>
  With a clock that does not go back the purge removes a first part of the entries: those overdue when
  they were looked at; the rest are not overdue at the last reading.
\<close>

lemma purge_loop_ok:
  assumes "il_ok l" "purge_loop clock sec i l = (es, l')"
  shows "il_ok l' \<and> items l = es @ items l' \<and> (\<forall>j < length es. overdue (clock (i + j)) sec (es ! j)) \<and>
    (items l' = [] \<or> \<not> overdue (clock (i + length es)) sec (hd (items l')))"
  using assms
proof (induction clock sec i l arbitrary: es l' rule: purge_loop.induct)
  case (1 clock sec i l)
  show ?case
  proof (cases "il_dat l")
    case Nil
    then have "es = []" "l' = l" using 1(3) by (simp_all add: purge_loop.simps)
    then show ?thesis using 1(2) Nil by (simp add: items_def)
  next
    case (Cons node rest)
    obtain n k t v where node: "node = (n, k, t, v)" by (cases node) auto
    show ?thesis
    proof (cases "clock i - t < sec")
      case True
      then have "es = []" "l' = l" using 1(3) Cons node by (simp_all add: purge_loop.simps)
      then show ?thesis using 1(2) Cons node True by (simp add: items_def overdue_def)
    next
      case False
      let ?l = "(il_unindex k l)\<lparr>il_dat := remove_node n (il_dat l)\<rparr>"
      have inl: "(n, k, t, v) \<in> set (il_dat l)" using Cons node by simp
      obtain fs where fs: "purge_loop clock sec (Suc i) ?l = (fs, l')" "es = (k, t, v) # fs"
        using 1(3) Cons node False by (auto simp: purge_loop.simps [of clock sec i l] split: prod.splits)
      have "?l = l\<lparr>il_dat := remove_node n (il_dat l), il_idx := AList.delete k (il_idx l)\<rparr>" by (simp add: il_unindex_def)
      then have ok: "il_ok ?l" using il_ok_remove [OF 1(2) inl] by (simp only:)
      have "remove_node n (il_dat l) = rest"
        using 1(2) Cons node unfolding remove_node_def il_ok_def by (force simp: filter_id_conv)
      then have items: "items l = (k, t, v) # items ?l" using Cons node by (simp add: items_def)
      from 1(1) [OF Cons node [symmetric] refl refl False ok fs(1)]
      have IH: "il_ok l'" "items ?l = fs @ items l'" "\<forall>j < length fs. overdue (clock (Suc i + j)) sec (fs ! j)"
        "items l' = [] \<or> \<not> overdue (clock (Suc i + length fs)) sec (hd (items l'))" by blast+
      have "overdue (clock (i + j)) sec (es ! j)" if "j < length es" for j
        using that IH(3) False fs(2) by (cases j) (auto simp: overdue_def)
      then show ?thesis using IH items fs(2) by simp
    qed
  qed
qed

lemma crumb_purge_ok:
  assumes "crumb_ok c"
  shows "\<exists>es c'. crumb_purge (\<lambda>_. now) c = (es, c') \<and> crumb_ok c' \<and>
    crumb_spec (now, Purge) (crumb_abs c) = (Purged es, crumb_abs c')"
proof -
  have ok: "il_ok (cr_list c)" and sorted: "sorted (ticks (items (cr_list c)))" using assms by (simp_all add: crumb_ok_def)
  obtain es l' where p: "purge_loop (\<lambda>_. now) (cr_overdue c) 0 (cr_list c) = (es, l')" by (rule prod.exhaust)
  note r = purge_loop_ok [OF ok p]
  let ?over = "overdue now (cr_overdue c)"
  have over: "?over e" if e: "e \<in> set es" for e
  proof -
    obtain j where j: "j < length es" "es ! j = e" using e by (auto simp: in_set_conv_nth)
    have "\<forall>j < length es. ?over (es ! j)" using r by (elim conjE)
    then show ?thesis using j by blast
  qed
  have rest: "\<not> ?over e" if "e \<in> set (items l')" for e
  proof -
    have "sorted (ticks (items l'))" using r sorted by (simp add: ticks_def sorted_append)
    then have "fst (snd (hd (items l'))) \<le> fst (snd e)" using that by (cases "items l'") (auto simp: ticks_def)
    moreover have "\<not> ?over (hd (items l'))" using r that by auto
    ultimately show ?thesis by (simp add: overdue_def)
  qed
  have "filter ?over es = es" "filter (\<lambda>e. \<not> ?over e) es = []" "filter ?over (items l') = []"
    "filter (\<lambda>e. \<not> ?over e) (items l') = items l'"
    by (rule filter_True filter_False, use over rest in metis)+
  then have "filter ?over (items (cr_list c)) = es" "filter (\<lambda>e. \<not> ?over e) (items (cr_list c)) = items l'"
    using r by simp_all
  moreover have "sorted (ticks (items l'))" using r sorted by (simp add: ticks_def sorted_append)
  ultimately show ?thesis using r p by (simp add: crumb_purge_def crumb_ok_def crumb_abs_def)
qed

fun crumb_allowed :: "int \<times> ('k, 'v) crumb_op \<Rightarrow> int \<times> ('k \<times> int \<times> 'v) list \<Rightarrow> bool" where
  "crumb_allowed (now, op) (sec, xs) \<longleftrightarrow> past now xs"

lemma crumb_step_ok:
  assumes "crumb_ok c" "crumb_allowed op (crumb_abs c)"
  shows "\<exists>out c'. crumb_step op c = Some (out, c') \<and> crumb_ok c' \<and> crumb_spec op (crumb_abs c) = (out, crumb_abs c')"
proof -
  obtain now action where op: "op = (now, action)" by (cases op)
  have past: "past now (items (cr_list c))" using assms(2) by (simp add: op crumb_abs_def)
  show ?thesis
  proof (cases action)
    case (Add k v)
    then show ?thesis using crumb_add_ok [OF assms(1) past, of k v] op by auto
  next
    case (Sub k)
    then show ?thesis using crumb_sub_ok [OF assms(1), of k now] op by auto
  next
    case (Get k)
    then show ?thesis using crumb_get_ok [OF assms(1), of k] op assms(1) by (simp add: crumb_abs_def)
  next
    case (Touch k)
    then show ?thesis using crumb_touch_ok [OF assms(1) past, of k] op by auto
  next
    case Purge
    then show ?thesis using crumb_purge_ok [OF assms(1), of now] op by auto
  next
    case (Init new)
    then show ?thesis using assms(1) op by (simp add: crumb_init_def crumb_ok_def crumb_abs_def)
  qed
qed

interpretation crumb: simulation crumb_step crumb_ok crumb_abs crumb_spec crumb_allowed
  by unfold_locales (rule crumb_step_ok)

lemma past_mono: "past now xs \<Longrightarrow> now \<le> now' \<Longrightarrow> past now' xs"
  by (auto simp: past_def list_all_iff)

lemma past_spec:
  "past now xs \<Longrightarrow> past now (snd (snd (crumb_spec (now, op) (sec, xs))))"
  by (cases op) (auto simp: past_def list_all_iff drop_key_def split: option.splits)

lemma times_allowed:
  assumes "sorted (map fst ops)" "list_all (\<lambda>op. past (fst op) xs) ops"
  shows "run_allowed crumb_allowed crumb_spec ops (sec, xs)"
  using assms
proof (induction ops arbitrary: sec xs)
  case (Cons op ops)
  obtain now action where op: "op = (now, action)" by (cases op)
  let ?a = "snd (crumb_spec op (sec, xs))"
  have "past now (snd ?a)" unfolding op using Cons.prems(2) op by (intro past_spec) simp
  then have "list_all (\<lambda>op. past (fst op) (snd ?a)) ops"
    using Cons.prems(1) op by (auto simp: list_all_iff intro: past_mono)
  then have "run_allowed crumb_allowed crumb_spec ops (fst ?a, snd ?a)"
    using Cons.prems(1) by (intro Cons.IH) auto
  then show ?case using Cons.prems(2) op by simp
qed simp

text \<open>C39. With a clock that does not go back, the timed containers are a list of entries in the order of
  their last use: any calls of add, sub, get, touch, purge and init, at any times (a purge within one
  second of the clock), give the results of that list; and \<open>purge\<close>, which stops at the first entry that is not overdue, removes exactly the overdue
  entries.\<close>

theorem crumb_refines_timed_list:
  assumes "sorted (map fst ops)"
  shows "\<exists>outs c. run crumb_step ops (crumb_new sec) = Some (outs, c) \<and>
    spec_run crumb_spec ops (sec, []) = (outs, cr_overdue c, items (cr_list c))"
proof -
  have "crumb_ok (crumb_new sec :: ('a, 'b) crumb)" "crumb_abs (crumb_new sec :: ('a, 'b) crumb) = (sec, [])"
    by (simp_all add: crumb_ok_def crumb_new_def crumb_abs_def il_ok_empty ticks_def)
  moreover have "run_allowed crumb_allowed crumb_spec ops (sec, [])"
    by (rule times_allowed [OF assms]) (simp add: past_def list_all_iff)
  ultimately show ?thesis using crumb.runs [of "crumb_new sec" ops] by (auto simp: crumb_abs_def)
qed

theorem crumb_refines_timed_list_witness:
  "\<exists>outs c. run crumb_step [(0, Add (1 :: nat) True), (5, Add 2 False), (7, Touch 1), (11, Purge)] (crumb_new 5) = Some (outs, c) \<and>
     outs = [Added, Added, Touched True, Purged [(2, 5, False)]] \<and> items (cr_list c) = [(1, 7, True)]"
  using crumb_refines_timed_list [of "[(0, Add (1 :: nat) True), (5, Add 2 False), (7, Touch 1), (11, Purge)]" 5]
  by (auto simp: overdue_def)

text \<open>\<open>expire\<close> is \<open>crumb\<close> with values of type unit.\<close>

lemma expire_is_crumb:
  assumes "crumb_ok c"
  shows "expire_add now k c = crumb_add now k () c"
    and "expire_sub k c = map_option (apfst (\<lambda>e. e \<noteq> None)) (crumb_sub k c)"
    and "Some (expire_get k c) = map_option (\<lambda>e. e \<noteq> None) (crumb_get k c)"
    and "expire_touch now k c = crumb_touch now k c"
proof -
  have ok: "il_ok (cr_list c)" using assms by (simp add: crumb_ok_def)
  have found: "\<exists>e. il_deref n (cr_list c) = Some (k, e)" if "il_find k (cr_list c) = Some n" for n
    using il_found [OF ok that] by blast
  show "expire_add now k c = crumb_add now k () c" by (simp add: expire_add_def crumb_add_def)
  show "expire_sub k c = map_option (apfst (\<lambda>e. e \<noteq> None)) (crumb_sub k c)"
    using found by (auto simp: expire_sub_def crumb_sub_def il_erase_def split: option.split)
  show "Some (expire_get k c) = map_option (\<lambda>e. e \<noteq> None) (crumb_get k c)"
    using found by (auto simp: expire_get_def crumb_get_def split: option.split)
  show "expire_touch now k c = crumb_touch now k c" by (simp add: expire_touch_def crumb_touch_def)
qed

end
