(* ===== verification/Linked_List.thy ===== *)
theory Linked_List
  imports Simulation "HOL-Library.Monad_Syntax"
begin

text \<open>
  The intrusive doubly linked list of \<open>c++/linkedlist.h\<close>, on a store from the addresses of nodes to
  their two pointers; \<open>None\<close> as a pointer is the null pointer. An access through a null pointer or to an
  address without a node gives \<open>None\<close>. The nodes belong to the caller: no operation allocates or frees.
\<close>

section \<open>The operations\<close>

type_synonym ptr = "nat option"

record node =
  n_prev :: ptr
  n_next :: ptr

type_synonym store = "nat \<Rightarrow> node option"

record linkedlist =
  l_head :: ptr
  l_tail :: ptr

definition reset :: linkedlist where
  "reset = \<lparr>l_head = None, l_tail = None\<rparr>"

definition empty :: "linkedlist \<Rightarrow> bool" where
  "empty l \<longleftrightarrow> \<not> (l_head l \<noteq> None \<and> l_tail l \<noteq> None)"

definition load :: "ptr \<Rightarrow> store \<Rightarrow> node option" where
  "load p h = Option.bind p h"

definition set_prev :: "ptr \<Rightarrow> ptr \<Rightarrow> store \<Rightarrow> store option" where
  "set_prev p q h = do { a \<leftarrow> p; x \<leftarrow> h a; Some (h(a \<mapsto> x\<lparr>n_prev := q\<rparr>)) }"

definition set_next :: "ptr \<Rightarrow> ptr \<Rightarrow> store \<Rightarrow> store option" where
  "set_next p q h = do { a \<leftarrow> p; x \<leftarrow> h a; Some (h(a \<mapsto> x\<lparr>n_next := q\<rparr>)) }"

type_synonym list_state = "store \<times> linkedlist"

definition push_back :: "ptr \<Rightarrow> list_state \<Rightarrow> list_state option" where
  "push_back node = (\<lambda>(h, l).
     if node = None then Some (h, l)
     else do {
       h \<leftarrow> set_prev node (l_tail l) h;
       h \<leftarrow> set_next node None h;
       (h, l) \<leftarrow> (if l_tail l = None then Some (h, l\<lparr>l_head := node\<rparr>)
                 else do { h \<leftarrow> set_next (l_tail l) node h; Some (h, l) });
       Some (h, l\<lparr>l_tail := node\<rparr>)
     })"

definition push_front :: "ptr \<Rightarrow> list_state \<Rightarrow> list_state option" where
  "push_front node = (\<lambda>(h, l).
     if node = None then Some (h, l)
     else do {
       h \<leftarrow> set_prev node None h;
       h \<leftarrow> set_next node (l_head l) h;
       (h, l) \<leftarrow> (if l_head l = None then Some (h, l\<lparr>l_tail := node\<rparr>)
                 else do { h \<leftarrow> set_prev (l_head l) node h; Some (h, l) });
       Some (h, l\<lparr>l_head := node\<rparr>)
     })"

definition pop_back :: "list_state \<Rightarrow> (ptr \<times> list_state) option" where
  "pop_back = (\<lambda>(h, l).
     if l_tail l = None then Some (None, h, l)
     else let node = l_tail l
          in if l_head l \<noteq> l_tail l
             then do {
               x \<leftarrow> load (l_tail l) h;
               h \<leftarrow> set_next (n_prev x) None h;
               x \<leftarrow> load (l_tail l) h;
               Some (node, h, l\<lparr>l_tail := n_prev x\<rparr>)
             }
             else Some (node, h, l\<lparr>l_head := None, l_tail := None\<rparr>))"

definition pop_front :: "list_state \<Rightarrow> (ptr \<times> list_state) option" where
  "pop_front = (\<lambda>(h, l).
     if l_head l = None then Some (None, h, l)
     else let node = l_head l
          in if l_head l \<noteq> l_tail l
             then do {
               x \<leftarrow> load (l_head l) h;
               h \<leftarrow> set_prev (n_next x) None h;
               x \<leftarrow> load (l_head l) h;
               Some (node, h, l\<lparr>l_head := n_next x\<rparr>)
             }
             else Some (node, h, l\<lparr>l_head := None, l_tail := None\<rparr>))"

definition erase :: "ptr \<Rightarrow> list_state \<Rightarrow> list_state option" where
  "erase node = (\<lambda>(h, l).
     if node = None then Some (h, l)
     else do {
       x \<leftarrow> load node h;
       let l = (if node = l_head l then l\<lparr>l_head := n_next x\<rparr> else l);
       let l = (if node = l_tail l then l\<lparr>l_tail := n_prev x\<rparr> else l);
       h \<leftarrow> (if n_prev x \<noteq> None then set_next (n_prev x) (n_next x) h else Some h);
       x \<leftarrow> load node h;
       h \<leftarrow> (if n_next x \<noteq> None then set_prev (n_next x) (n_prev x) h else Some h);
       Some (h, l)
     })"

text \<open>The two halves of \<open>splice\<close> after the node has been taken out.\<close>

definition link_before :: "ptr \<Rightarrow> ptr \<Rightarrow> list_state \<Rightarrow> list_state option" where
  "link_before place node = (\<lambda>(h, l). do {
     w \<leftarrow> load place h;
     h \<leftarrow> (if n_prev w \<noteq> None then set_next (n_prev w) node h else Some h);
     w \<leftarrow> load place h;
     h \<leftarrow> set_prev node (n_prev w) h;
     h \<leftarrow> set_next node place h;
     h \<leftarrow> set_prev place node h;
     Some (h, if place = l_head l then l\<lparr>l_head := node\<rparr> else l)
   })"

definition link_behind :: "ptr \<Rightarrow> ptr \<Rightarrow> list_state \<Rightarrow> list_state option" where
  "link_behind place node = (\<lambda>(h, l). do {
     w \<leftarrow> load place h;
     h \<leftarrow> (if n_next w \<noteq> None then set_prev (n_next w) node h else Some h);
     w \<leftarrow> load place h;
     h \<leftarrow> set_next node (n_next w) h;
     h \<leftarrow> set_prev node place h;
     h \<leftarrow> set_next place node h;
     Some (h, if place = l_tail l then l\<lparr>l_tail := node\<rparr> else l)
   })"

definition splice :: "bool \<Rightarrow> ptr \<Rightarrow> ptr \<Rightarrow> list_state \<Rightarrow> list_state option" where
  "splice before place node = (\<lambda>(h, l).
     if empty l \<or> place = None \<or> node = None \<or> place = node then Some (h, l)
     else do {
       w \<leftarrow> load place h;
       if before
       then if n_prev w = node then Some (h, l)
            else do { s \<leftarrow> erase node (h, l); link_before place node s }
       else if n_next w = node then Some (h, l)
            else do { s \<leftarrow> erase node (h, l); link_behind place node s }
     })"

definition merge :: "linkedlist \<Rightarrow> list_state \<Rightarrow> list_state option" where
  "merge al = (\<lambda>(h, l).
     if empty al then Some (h, l)
     else do {
       (h, l) \<leftarrow> (if l_tail l = None then Some (h, l\<lparr>l_head := l_head al\<rparr>)
                 else do {
                   h \<leftarrow> set_next (l_tail l) (l_head al) h;
                   h \<leftarrow> set_prev (l_head al) (l_tail l) h;
                   Some (h, l)
                 });
       Some (h, l\<lparr>l_tail := l_tail al\<rparr>)
     })"

text \<open>The loop of the other \<open>merge\<close>, which does not end on a circular chain.\<close>

partial_function (option) last_node :: "ptr \<Rightarrow> store \<Rightarrow> ptr option" where
  "last_node tail h = do {
     x \<leftarrow> load tail h;
     if n_next x = None then Some tail else last_node (n_next x) h
   }"

definition merge_chain :: "ptr \<Rightarrow> list_state \<Rightarrow> list_state option" where
  "merge_chain head = (\<lambda>(h, l).
     if head = None then Some (h, l)
     else do {
       tail \<leftarrow> last_node head h;
       (h, l) \<leftarrow> (if l_tail l = None
                 then do { h \<leftarrow> set_prev head None h; Some (h, l\<lparr>l_head := head\<rparr>) }
                 else do {
                   h \<leftarrow> set_next (l_tail l) head h;
                   h \<leftarrow> set_prev head (l_tail l) h;
                   Some (h, l)
                 });
       Some (h, l\<lparr>l_tail := tail\<rparr>)
     })"

section \<open>Lists in the store\<close>

text \<open>The address of the first node and of the last one, with a default for no nodes.\<close>

definition first :: "nat list \<Rightarrow> ptr \<Rightarrow> ptr" where
  "first xs n = (case xs of [] \<Rightarrow> n | x # _ \<Rightarrow> Some x)"

definition final :: "ptr \<Rightarrow> nat list \<Rightarrow> ptr" where
  "final p xs = (if xs = [] then p else Some (last xs))"

lemma first_simps [simp]: "first [] n = n" "first (x # xs) n = Some x" "first (xs @ ys) n = first xs (first ys n)"
  by (simp_all add: first_def split: list.split)

lemma final_simps [simp]: "final p [] = p" "final p (xs @ [x]) = Some x" "final p (x # xs) = final (Some x) xs"
  "final p (xs @ ys) = final (final p xs) ys"
  by (simp_all add: final_def)

lemma first_None [simp]: "first xs None = None \<longleftrightarrow> xs = []" "None = first xs None \<longleftrightarrow> xs = []"
  by (auto simp: first_def split: list.split)

lemma final_None [simp]: "final None xs = None \<longleftrightarrow> xs = []" "None = final None xs \<longleftrightarrow> xs = []"
  by (auto simp: final_def)

lemma first_elsewhere [simp]: "y \<notin> set xs \<Longrightarrow> first xs n = Some y \<longleftrightarrow> xs = [] \<and> n = Some y"
    "y \<notin> set xs \<Longrightarrow> Some y = first xs n \<longleftrightarrow> xs = [] \<and> n = Some y"
  by (auto simp: first_def split: list.split)

lemma final_elsewhere [simp]: "y \<notin> set xs \<Longrightarrow> final p xs = Some y \<longleftrightarrow> xs = [] \<and> p = Some y"
    "y \<notin> set xs \<Longrightarrow> Some y = final p xs \<longleftrightarrow> xs = [] \<and> p = Some y"
  by (auto simp: final_def)

text \<open>The nodes \<open>xs\<close> are chained, between \<open>p\<close> and \<open>n\<close>.\<close>

fun linked :: "store \<Rightarrow> ptr \<Rightarrow> nat list \<Rightarrow> ptr \<Rightarrow> bool" where
  "linked h p [] n \<longleftrightarrow> True"
| "linked h p (x # xs) n \<longleftrightarrow> h x = Some \<lparr>n_prev = p, n_next = first xs n\<rparr> \<and> linked h (Some x) xs n"

lemma linked_append [simp]:
  "linked h p (xs @ ys) n \<longleftrightarrow> linked h p xs (first ys n) \<and> linked h (final p xs) ys n"
  by (induction xs arbitrary: p) auto

lemma linked_elsewhere [simp]: "a \<notin> set xs \<Longrightarrow> linked (h(a := v)) p xs n \<longleftrightarrow> linked h p xs n"
  by (induction xs arbitrary: p) auto

lemma linked_allocated: "linked h p xs n \<Longrightarrow> x \<in> set xs \<Longrightarrow> \<exists>y. h x = Some y"
  by (induction xs arbitrary: p) auto

definition holds :: "list_state \<Rightarrow> nat list \<Rightarrow> bool" where
  "holds = (\<lambda>(h, l) xs. distinct xs \<and> linked h None xs None \<and> l_head l = first xs None \<and> l_tail l = final None xs)"

lemma holds_reset: "holds (h, reset) []"
  by (simp add: holds_def reset_def)

lemmas list_op_defs = load_def set_prev_def set_next_def

text \<open>Both neighbours of a place in a list: none, or a node.\<close>

lemma left_cases: obtains "xs = []" | ys y where "xs = ys @ [y :: nat]"
  by (cases xs rule: rev_cases) auto

lemma push_back_holds:
  assumes "holds (h, l) xs" "a \<notin> set xs" "a \<in> dom h"
  shows "\<exists>h' l'. push_back (Some a) (h, l) = Some (h', l') \<and> holds (h', l') (xs @ [a]) \<and> dom h' = dom h"
proof -
  obtain x where "h a = Some x" using assms(3) by auto
  then show ?thesis using assms
    by (cases xs rule: rev_cases) (auto simp: push_back_def holds_def list_op_defs)
qed

lemma push_front_holds:
  assumes "holds (h, l) xs" "a \<notin> set xs" "a \<in> dom h"
  shows "\<exists>h' l'. push_front (Some a) (h, l) = Some (h', l') \<and> holds (h', l') (a # xs) \<and> dom h' = dom h"
proof -
  obtain x where "h a = Some x" using assms(3) by auto
  then show ?thesis using assms
    by (cases xs) (auto simp: push_front_def holds_def list_op_defs)
qed

lemma pop_back_holds:
  assumes "holds (h, l) xs"
  shows "\<exists>h' l'. pop_back (h, l) = Some (final None xs, h', l') \<and> holds (h', l') (butlast xs) \<and> dom h' = dom h"
proof (cases xs rule: rev_cases)
  case Nil
  then show ?thesis using assms by (simp add: pop_back_def holds_def)
next
  case (snoc ys y)
  then show ?thesis using assms
    by (cases ys rule: rev_cases) (auto simp: pop_back_def holds_def list_op_defs Let_def butlast_append)
qed

lemma pop_front_holds:
  assumes "holds (h, l) xs"
  shows "\<exists>h' l'. pop_front (h, l) = Some (first xs None, h', l') \<and> holds (h', l') (tl xs) \<and> dom h' = dom h"
proof (cases xs)
  case Nil
  then show ?thesis using assms by (simp add: pop_front_def holds_def)
next
  case (Cons y ys)
  then show ?thesis using assms
    by (cases ys) (auto simp: pop_front_def holds_def list_op_defs Let_def)
qed

lemma erase_holds:
  assumes "holds (h, l) (xs @ a # ys)"
  shows "\<exists>h' l'. erase (Some a) (h, l) = Some (h', l') \<and> holds (h', l') (xs @ ys) \<and> dom h' = dom h"
  using assms by (cases xs rule: rev_cases; cases ys) (auto simp: erase_def holds_def list_op_defs)

lemma link_before_holds:
  assumes "holds (h, l) (xs @ w # ys)" "a \<notin> set (xs @ w # ys)" "a \<in> dom h"
  shows "\<exists>h' l'. link_before (Some w) (Some a) (h, l) = Some (h', l') \<and> holds (h', l') (xs @ a # w # ys) \<and> dom h' = dom h"
proof -
  obtain x where "h a = Some x" using assms(3) by auto
  then show ?thesis using assms
    by (cases xs rule: rev_cases) (auto simp: link_before_def holds_def list_op_defs)
qed

lemma link_behind_holds:
  assumes "holds (h, l) (xs @ w # ys)" "a \<notin> set (xs @ w # ys)" "a \<in> dom h"
  shows "\<exists>h' l'. link_behind (Some w) (Some a) (h, l) = Some (h', l') \<and> holds (h', l') (xs @ w # a # ys) \<and> dom h' = dom h"
proof -
  obtain x where "h a = Some x" using assms(3) by auto
  then show ?thesis using assms
    by (cases ys) (auto simp: link_behind_def holds_def list_op_defs)
qed

text \<open>A list with \<open>a\<close> put next to \<open>w\<close>.\<close>

fun put_next_to :: "bool \<Rightarrow> nat \<Rightarrow> nat \<Rightarrow> nat list \<Rightarrow> nat list" where
  "put_next_to before w a [] = []"
| "put_next_to before w a (x # xs) =
     (if x = w then if before then a # x # xs else x # a # xs else x # put_next_to before w a xs)"

definition move :: "bool \<Rightarrow> nat \<Rightarrow> nat \<Rightarrow> nat list \<Rightarrow> nat list" where
  "move before w a xs = put_next_to before w a (remove1 a xs)"

lemma put_next_to_append [simp]: "w \<notin> set xs \<Longrightarrow> put_next_to before w a (xs @ ys) = xs @ put_next_to before w a ys"
  by (induction xs) auto

lemma holds_node: "holds (h, l) (xs @ w # ys) \<Longrightarrow> h w = Some \<lparr>n_prev = final None xs, n_next = first ys None\<rparr>"
  by (simp add: holds_def)

lemma splice_holds:
  assumes "holds (h, l) xs" "w \<in> set xs" "a \<in> set xs" "w \<noteq> a"
  shows "\<exists>h' l'. splice before (Some w) (Some a) (h, l) = Some (h', l') \<and> holds (h', l') (move before w a xs) \<and> dom h' = dom h"
proof -
  have distinct: "distinct xs" using assms(1) by (simp add: holds_def)
  obtain us vs where w: "xs = us @ w # vs" using split_list [OF assms(2)] by blast
  have node: "h w = Some \<lparr>n_prev = final None us, n_next = first vs None\<rparr>" using holds_node assms(1) w by simp
  have empty: "\<not> empty l" using assms(1) w by (auto simp: empty_def holds_def first_def final_def split: list.splits)
  have start: "splice before (Some w) (Some a) (h, l) =
      (if before then if final None us = Some a then Some (h, l) else Option.bind (erase (Some a) (h, l)) (link_before (Some w) (Some a))
       else if first vs None = Some a then Some (h, l) else Option.bind (erase (Some a) (h, l)) (link_behind (Some w) (Some a)))"
    using empty assms(4) node by (simp add: splice_def load_def)
  show ?thesis
  proof (cases "if before then final None us = Some a else first vs None = Some a")
    case True
    then have "move before w a xs = xs"
      using w distinct by (cases us rule: rev_cases; cases vs)
        (auto simp: move_def remove1_append split: if_splits)
    then show ?thesis using True start assms(1) by (auto split: if_splits)
  next
    case False
    obtain as bs where a: "xs = as @ a # bs" using split_list [OF assms(3)] by blast
    obtain h' l' where erased: "erase (Some a) (h, l) = Some (h', l')" "holds (h', l') (as @ bs)" "dom h' = dom h"
      using erase_holds assms(1) a by blast
    have rest: "remove1 a xs = as @ bs" using a distinct by (simp add: remove1_append)
    have "w \<in> set (as @ bs)" using assms(2,4) a by auto
    then obtain cs ds where w': "as @ bs = cs @ w # ds" using split_list by metis
    have "distinct (cs @ w # ds)" "a \<notin> set (cs @ w # ds)" using distinct a unfolding w' [symmetric] by auto
    then have "a \<notin> set (cs @ w # ds)" "w \<notin> set cs" by auto
    moreover have "a \<in> dom h'" using erased(3) holds_node assms(1) a by blast
    ultimately show ?thesis
      using link_before_holds [of h' l' cs w ds a] link_behind_holds [of h' l' cs w ds a] erased False start w'
      by (auto simp: move_def rest)
  qed
qed

lemma merge_holds:
  assumes "holds (h, l) xs" "holds (h, al) ys" "set xs \<inter> set ys = {}"
  shows "\<exists>h' l'. merge al (h, l) = Some (h', l') \<and> holds (h', l') (xs @ ys) \<and> dom h' = dom h"
proof (cases "ys = []")
  case True
  then show ?thesis using assms by (simp add: merge_def holds_def empty_def)
next
  case False
  then show ?thesis using assms
    by (cases xs rule: rev_cases; cases ys) (auto simp: merge_def holds_def empty_def list_op_defs final_def)
qed

lemma last_node_linked: "linked h p (x # xs) None \<Longrightarrow> last_node (Some x) h = Some (final (Some x) xs)"
proof (induction xs arbitrary: p x)
  case Nil
  then show ?case by (simp add: last_node.simps load_def)
next
  case (Cons y ys)
  then show ?case by (subst last_node.simps) (simp add: load_def)
qed

lemma merge_chain_holds:
  assumes "holds (h, l) xs" "linked h p ys None" "distinct ys" "set xs \<inter> set ys = {}"
  shows "\<exists>h' l'. merge_chain (first ys None) (h, l) = Some (h', l') \<and> holds (h', l') (xs @ ys) \<and> dom h' = dom h"
proof (cases ys)
  case Nil
  then show ?thesis using assms by (simp add: merge_chain_def)
next
  case (Cons y zs)
  then have "last_node (Some y) h = Some (final (Some y) zs)" using last_node_linked assms(2) by simp
  then show ?thesis using assms Cons
    by (cases xs rule: rev_cases) (auto simp: merge_chain_def holds_def list_op_defs)
qed

section \<open>Runs of operations\<close>

datatype list_op = Push_back ptr | Push_front ptr | Pop_back | Pop_front | Erase ptr | Splice bool ptr ptr

fun list_step :: "list_op \<Rightarrow> list_state \<Rightarrow> (ptr \<times> list_state) option" where
  "list_step (Push_back p) s = map_option (Pair None) (push_back p s)"
| "list_step (Push_front p) s = map_option (Pair None) (push_front p s)"
| "list_step Pop_back s = pop_back s"
| "list_step Pop_front s = pop_front s"
| "list_step (Erase p) s = map_option (Pair None) (erase p s)"
| "list_step (Splice before w a) s = map_option (Pair None) (splice before w a s)"

text \<open>The same on lists of addresses; null pointers are ignored.\<close>

fun list_spec :: "list_op \<Rightarrow> nat list \<Rightarrow> ptr \<times> nat list" where
  "list_spec (Push_back p) xs = (None, case p of None \<Rightarrow> xs | Some a \<Rightarrow> xs @ [a])"
| "list_spec (Push_front p) xs = (None, case p of None \<Rightarrow> xs | Some a \<Rightarrow> a # xs)"
| "list_spec Pop_back xs = (if xs = [] then None else Some (last xs), butlast xs)"
| "list_spec Pop_front xs = (if xs = [] then None else Some (hd xs), tl xs)"
| "list_spec (Erase p) xs = (None, case p of None \<Rightarrow> xs | Some a \<Rightarrow> remove1 a xs)"
| "list_spec (Splice before w a) xs =
     (None, case (w, a) of (Some w, Some a) \<Rightarrow> if w = a then xs else move before w a xs | _ \<Rightarrow> xs)"

text \<open>A node that is put in is one of the caller's nodes \<open>D\<close> and not in the list; other arguments are in it.\<close>

fun list_allowed :: "nat set \<Rightarrow> list_op \<Rightarrow> nat list \<Rightarrow> bool" where
  "list_allowed D (Push_back p) xs \<longleftrightarrow> (case p of None \<Rightarrow> True | Some a \<Rightarrow> a \<in> D \<and> a \<notin> set xs)"
| "list_allowed D (Push_front p) xs \<longleftrightarrow> (case p of None \<Rightarrow> True | Some a \<Rightarrow> a \<in> D \<and> a \<notin> set xs)"
| "list_allowed D Pop_back xs \<longleftrightarrow> True"
| "list_allowed D Pop_front xs \<longleftrightarrow> True"
| "list_allowed D (Erase p) xs \<longleftrightarrow> (case p of None \<Rightarrow> True | Some a \<Rightarrow> a \<in> set xs)"
| "list_allowed D (Splice before w a) xs \<longleftrightarrow>
     (case (w, a) of (Some w, Some a) \<Rightarrow> w \<in> set xs \<and> a \<in> set xs | _ \<Rightarrow> True)"

lemma list_step_holds:
  assumes "holds s xs \<and> dom (fst s) = D" "list_allowed D op xs"
  shows "\<exists>out s' ys. list_step op s = Some (out, s') \<and> list_spec op xs = (out, ys) \<and> holds s' ys \<and> dom (fst s') = D"
proof -
  obtain h l where s: "s = (h, l)" by (cases s)
  have holds: "holds (h, l) xs" and dom: "dom h = D" using assms(1) s by simp_all
  show ?thesis
  proof (cases op)
    case (Push_back p)
    then show ?thesis using push_back_holds [OF holds] assms(2) s holds dom
      by (cases p) (fastforce simp: push_back_def)+
  next
    case (Push_front p)
    then show ?thesis using push_front_holds [OF holds] assms(2) s holds dom
      by (cases p) (fastforce simp: push_front_def)+
  next
    case Pop_back
    then show ?thesis using pop_back_holds [OF holds] s dom by (auto simp: final_def)
  next
    case Pop_front
    then show ?thesis using pop_front_holds [OF holds] s dom by (cases xs) auto
  next
    case (Erase p)
    show ?thesis
    proof (cases p)
      case None
      then show ?thesis using Erase s holds dom by (simp add: erase_def)
    next
      case (Some a)
      then obtain as bs where xs: "xs = as @ a # bs" using assms(2) Erase split_list by fastforce
      moreover have "remove1 a xs = as @ bs" using holds xs by (simp add: holds_def remove1_append)
      ultimately show ?thesis using Erase Some s erase_holds [of h l as a bs] holds dom by auto
    qed
  next
    case (Splice before w a)
    then show ?thesis
      using splice_holds [OF holds] assms(2) s holds dom
      by (cases w; cases a) (auto simp: splice_def)
  qed
qed

interpretation ll: data_refinement list_step "\<lambda>s xs. holds s xs \<and> dom (fst s) = D" list_spec "list_allowed D" for D
  by unfold_locales (rule list_step_holds)

text \<open>C40. Any calls of the operations of the list, on nodes that are in it or not in it as the operation wants,
  end without an access outside the nodes and give what a list of addresses gives; the two pointers of
  every node in the list are its neighbours.\<close>

theorem linkedlist_refines_list:
  assumes "run_allowed (list_allowed (dom h)) list_spec ops []"
  shows "\<exists>outs h' l' xs. run list_step ops (h, reset) = Some (outs, h', l') \<and> spec_run list_spec ops [] = (outs, xs) \<and>
    l_head l' = first xs None \<and> l_tail l' = final None xs \<and> linked h' None xs None \<and> distinct xs \<and> dom h' = dom h"
proof -
  have "holds (h, reset) [] \<and> dom (fst (h, reset)) = dom h" by (simp add: holds_reset)
  from ll.runs [OF this assms] obtain outs s' xs where run: "run list_step ops (h, reset) = Some (outs, s')"
    "spec_run list_spec ops [] = (outs, xs)" "holds s' xs" "dom (fst s') = dom h" by blast
  moreover obtain h' l' where "s' = (h', l')" by (cases s')
  ultimately show ?thesis by (simp add: holds_def)
qed

definition demo_store :: store where
  "demo_store = (\<lambda>a. if a < 9 then Some \<lparr>n_prev = Some 77, n_next = Some 88\<rparr> else None)"

theorem linkedlist_refines_list_witness:
  "\<exists>outs h' l'. run list_step [Push_back (Some 1), Push_back (Some 2), Push_front (Some 3), Splice True (Some 3) (Some 2),
       Erase (Some 1), Pop_front] (demo_store, reset) = Some (outs, h', l') \<and>
     outs = [None, None, None, None, None, Some 2] \<and> l_head l' = Some 3 \<and> h' 3 = Some \<lparr>n_prev = None, n_next = None\<rparr>"
proof -
  let ?ops = "[Push_back (Some 1), Push_back (Some 2), Push_front (Some 3), Splice True (Some 3) (Some 2), Erase (Some 1), Pop_front]"
  have "dom demo_store = {a. a < 9}" by (auto simp: demo_store_def split: if_splits)
  then have "run_allowed (list_allowed (dom demo_store)) list_spec ?ops []" by (simp add: move_def)
  then obtain outs h' l' xs where run: "run list_step ?ops (demo_store, reset) = Some (outs, h', l')"
    "spec_run list_spec ?ops [] = (outs, xs)" "l_head l' = first xs None" "linked h' None xs None"
    using linkedlist_refines_list by blast
  have "outs = [None, None, None, None, None, Some 2]" "xs = [3]" using run(2) by (simp_all add: move_def)
  then show ?thesis using run by (intro exI [of _ outs] exI [of _ h'] exI [of _ l']) simp
qed

end
