(* ===== verification/Spec2Isabelle.thy ===== *)
theory Spec2Isabelle
  imports Buffer Linked_Buffer Thrift_Protocol Xslab Fsb Timer Event_Queue Crc Adler32 Blowfish Hash_Functions Mt_Rand Htab Spin_Lock Codec Sha1 Md5 Qsort2 Lru_Cache Expire Linked_List
begin

text \<open>
  libsax, a C and C++ library for network servers (\<open>src/libsax/sax\<close>): byte buffers, a Thrift
  codec, block pools, a timing wheel, checksums and hashes. This development models the parts that
  carry state or compute something, one theory per component.

  \<^bold>\<open>How the theories are built up.\<close>
    \<^item> \<open>Prelude\<close>: machine types, unsigned 32-bit arithmetic on \<open>nat\<close> with the wrap-around written
      out (\<open>add32\<close>, \<open>sub32\<close>, \<open>mul32\<close>), bounds-checked block copies (\<open>mem_read\<close>, \<open>mem_write\<close>:
      \<open>None\<close> is an access outside the object).
    \<^item> \<open>Endian\<close>: integers in memory on a little-endian host, the \<open>bswap\<close> macros of \<open>os_types.h\<close>.
    \<^item> \<open>Channel\<close>: the contract of a byte buffer (\<open>byte_channel\<close>, and \<open>skip_channel\<close> with skipping),
      with the round trip over several blocks proved once inside it.
    \<^item> \<open>Buffer\<close>: \<open>sax::buffer\<close> of \<open>net/buffer.h\<close>. The record has the class's fields; \<open>b_buf\<close> is the
      object \<open>_buf\<close> points to. Provides the contract (interpretations \<open>bufc\<close>, \<open>bufs\<close>). \<open>buf_run\<close> runs
      any public calls, each with an allocator of its own; \<open>buf_calls_ok\<close> is what \<open>limit\<close> needs.
    \<^item> \<open>Linked_Buffer\<close>: \<open>sax::linked_buffer\<close> of \<open>net/linked_buffer.h\<close>, a chain of one-page blocks and
      four cursors. Provides the same contract (\<open>lbc\<close>, \<open>lbs\<close>). \<open>chain_run\<close> runs any public calls on
      several chains, transfers between them included; \<open>chain_calls_ok\<close> is what \<open>commit_get\<close> needs.
    \<^item> \<open>Thrift_Protocol\<close>: the codec of \<open>net/thrift_binary_protocol.h\<close>, a client of the contract; the
      lemmas are proved in the locales and used at \<open>sax::buffer\<close>, which the class holds.
    \<^item> \<open>Block_Allocator\<close>: the contract of a block pool, and what follows for any sequence of calls.
    \<^item> \<open>Xslab\<close>, \<open>Fsb\<close>: \<open>g_xslab_*\<close> and \<open>g_fsb_*\<close> of \<open>mempool.c\<close>, its two providers. The
      sizes of \<open>g_fsb_needed\<close> and \<open>g_fsb_available\<close> are computed modulo \<open>2 ^ 64\<close> as in the code.
    \<^item> \<open>Timer\<close>: the wheels of \<open>timer.c\<close>; polling refines a list of deadlines (\<open>spec_poll\<close>), with
      callbacks that start and cancel timers.
    \<^item> \<open>Event_Queue\<close>: the ring of variable-size events between the threads of a stage
      (\<open>stage/event_queue.h\<close>), each operation one step; what a run shows its
      callers (\<open>evq_trace\<close>) is that of a first-in-first-out list with marks set by \<open>commit_event\<close>.
    \<^item> \<open>Htab\<close>: the chained hash table of \<open>htab.c\<close>; refines a partial map and its size. The client's
      \<open>hashfn\<close> and \<open>eqfn\<close>, the load limit \<open>lim\<close> of a size and the outcomes of the allocations are
      arguments; the entry count is a \<open>nat\<close> (memory holds fewer than \<open>2 ^ 32\<close> entries).
    \<^item> \<open>Crc\<close>: the tables and functions of \<open>crc.c\<close> against bit-by-bit division by the polynomials. The
      locale \<open>msb_table\<close> says what a table of remainders must satisfy; it is interpreted on the four
      tables read highest bit first (\<open>atm\<close>, \<open>ansi\<close>, \<open>ccitt\<close>, \<open>ieee\<close>).
    \<^item> \<open>Adler32\<close>: \<open>adler32.c\<close>, against the definition that reduces after every byte.
    \<^item> \<open>Blowfish\<close>: \<open>blowfish.c\<close>: key schedule (against a definition on the flat table of words), block
      and stream cipher, on a little-endian host.
    \<^item> \<open>Hash_Functions\<close>: \<open>hash.h\<close>. The locale \<open>byte_hash\<close> is a hash that takes one byte at a time with
      an injective step (\<open>tr1_32\<close>, \<open>tr1_64\<close>, \<open>ieee_hash\<close>, \<open>hash_37\<close>, \<open>hash_131\<close>, and \<open>murmur\<close> with
      words for bytes).
    \<^item> \<open>Mt_Rand\<close>: the Mersenne Twister of \<open>mt_rand.c\<close>. Doubles are reals; \<open>rnd\<close> rounds the result of
      each operation, with the relative error of normal numbers (\<open>rounds_normal\<close>; \<open>double_round\<close>, the
      IEEE rounding to nearest even, is shown to be one).
    \<^item> \<open>Spin_Lock\<close>: the spin locks \<open>g_spin_t\<close> and \<open>g_spin_rw_t\<close> and the unique clock ticks of
      \<open>os_api.c\<close>, as step relations in which every atomic operation of a thread is one step. The
      locale \<open>shared_object\<close> says what an invariant of such an object must satisfy (\<open>rw\<close>, \<open>sl\<close>, \<open>uid\<close>);
      \<open>solo_gets\<close> counts the steps of one thread while the others stand still.
    \<^item> \<open>Codec\<close>: URL escapes and the encoding with 64 characters of \<open>os_api.c\<close>, with their wrappers in
      \<open>strutil.cpp\<close>, which pass a \<open>size_t\<close> for an \<open>int\<close> (\<open>to_int\<close>).
    \<^item> \<open>Hash_Stream\<close>: what streaming digests share; the locale \<open>hash_stream\<close> is their contract, with the
      consequence that the pieces of a message do not matter.
    \<^item> \<open>Sha1\<close>: \<open>sha1.c\<close> against the definition of FIPS 180 (interpretation \<open>sha1\<close>).
    \<^item> \<open>Md5\<close>: \<open>md5.c\<close> against the definition of RFC 1321 (interpretation \<open>md5\<close>).
    \<^item> \<open>Qsort2\<close>: the quicksort of \<open>qsort2.c\<close> with its explicit stack, the front end \<open>c++/quicksort.h\<close> and
      the searches of \<open>c++/bsearch.h\<close>. The locale \<open>comparator\<close> is the contract of a comparison function
      (\<open>asc1\<close>, \<open>dsc1\<close>, \<open>asc2\<close>, \<open>dsc2\<close>); loops are partial functions, shown to return.
    \<^item> \<open>Simulation\<close>: the locale \<open>data_refinement\<close>, a component whose every operation is an operation of
      a related abstract state, and \<open>simulation\<close>, where the relation is a function; the refinement of
      whole runs is proved once inside.
    \<^item> \<open>Linked_List\<close>: \<open>c++/linkedlist.h\<close> on a store of nodes; refines a list of addresses (\<open>ll\<close>).
    \<^item> \<open>Indexed_List\<close>: a \<open>std::list\<close> with a hash map from keys to its nodes, on which four containers of
      \<open>c++/\<close> rest; nodes have addresses, so that an iterator can dangle.
    \<^item> \<open>Lru_Cache\<close>: \<open>c++/lru_map.h\<close>, \<open>lru_set.h\<close> and \<open>lru_btree.h\<close>; refines a list of entries in the
      order of last use (interpretation \<open>lru\<close>).
    \<^item> \<open>Expire\<close>: \<open>c++/expire.h\<close> and \<open>crumb.h\<close>; refines a list of entries with the times of their last
      use (interpretation \<open>crumb\<close>).

  \<^bold>\<open>Conventions.\<close> An operation's result is \<open>option\<close> where the code can run into undefined behaviour
  (an access outside an object, a failed \<open>assert\<close>, a null pointer) or not return; the theorems that
  an operation works always say that it is \<open>Some\<close>. What the code gets from elsewhere (pages,
  \<open>malloc\<close>, the bytes of the application) is a parameter or an argument.

  \<^bold>\<open>Fuel and bounds.\<close> \<open>thrift_skip\<close> recurses on a fuel for nesting and loop turns; \<open>thrift_skip_consumes\<close>
  shows that the length of the encoding plus one is enough. The loops of the chained buffer are
  measured by the blocks left in the chain; \<open>lb_reserve_loop\<close> and \<open>fire\<close>, which need not end, are
  partial functions. The buffers' guarantees hold while the bytes asked for stay below \<open>2 ^ 32 - 1\<close>
  less a page or two, since the code's \<open>uint32_t\<close> sums wrap there; those of the block pool while the
  size of the pool stays below \<open>2 ^ 63\<close>, those of the encodings while the sizes fit an \<open>int\<close>.

  \<^bold>\<open>Not modelled.\<close> Vendored or generated code (\<open>xml/\<close>, \<open>stx/\<close>, \<open>tools/sax_thrift/\<close>, \<open>win32/\<close>);
  thin layers over the operating system and other libraries (the threads, files and shared memory of
  \<open>os_api.c\<close>, \<open>os_net.c\<close>, \<open>sysutil\<close>); the file-backed stores of \<open>db/\<close>; the containers \<open>dict\<close>, \<open>fifo\<close>
  and \<open>stack\<close> of \<open>c++/\<close>; the page slab of \<open>mempool.c\<close>; the sockets of \<open>net2/\<close> and \<open>net_old/\<close>.
\<close>

end
